(* ===== verification/Node_Prelude.thy ===== *)
theory Node_Prelude
  imports Main "HOL-Library.Word" "HOL-Library.AList"
begin

text \<open>
  Shared vocabulary of the development: the Rust machine integers as words, fallible
  results as sums with the error on the left (\<open>and_then\<close> is Rust's \<open>?\<close>), byte readers
  over the unread tail of a buffer (\<open>std::io::Read\<close> on a \<open>Cursor\<close>), the integer idioms
  the code uses (saturating and checked arithmetic, big-endian bytes), UTF-8 validation
  (\<open>String::from_utf8\<close>), hash maps as association lists, and the interface locale of a
  wire codec with the facts every codec of the node shares.

  A Rust \<open>&mut Vec<u8>\<close> that a writer only appends to is modelled by the bytes the
  writer appends.
\<close>

named_theorems codec_simps \<open>equations that run readers on encoded bytes\<close>

section \<open>Machine integers\<close>

type_synonym u8 = "8 word"
type_synonym u16 = "16 word"
type_synonym u32 = "32 word"
type_synonym u64 = "64 word"
type_synonym u128 = "128 word"
type_synonym i32 = "32 word"
type_synonym i64 = "64 word"
type_synonym bytes = "u8 list"

unbundle bit_operations_syntax

text \<open>A 32-byte digest (\<open>[u8; 32]\<close>) used only as a key is read as one big-endian
  number: equality and the lexicographic order of the array are those of the number.\<close>

type_synonym id32 = "256 word"

definition saturating_add :: "'a::len word \<Rightarrow> 'a word \<Rightarrow> 'a word" where
  "saturating_add a b = (if a \<le> a + b then a + b else - 1)"

definition checked_add :: "'a::len word \<Rightarrow> 'a word \<Rightarrow> 'a word option" where
  "checked_add a b = (if a \<le> a + b then Some (a + b) else None)"

definition saturating_sub :: "'a::len word \<Rightarrow> 'a word \<Rightarrow> 'a word" where
  "saturating_sub a b = (if b \<le> a then a - b else 0)"

definition checked_sub :: "'a::len word \<Rightarrow> 'a word \<Rightarrow> 'a word option" where
  "checked_sub a b = (if b \<le> a then Some (a - b) else None)"

lemma word_no_carry_iff:
  fixes a b :: "'a::len word"
  shows "a \<le> a + b \<longleftrightarrow> unat a + unat b < 2 ^ LENGTH('a)"
  by (metis no_olen_add_nat word_le_nat_alt)

lemma unat_saturating_add:
  fixes a b :: "'a::len word"
  shows "unat (saturating_add a b) = min (unat a + unat b) (2 ^ LENGTH('a) - 1)"
proof (cases "a \<le> a + b")
  case True
  then have lt: "unat a + unat b < 2 ^ LENGTH('a)" by (simp only: word_no_carry_iff)
  then have "unat (a + b) = unat a + unat b" by (simp add: unat_word_ariths)
  with True lt show ?thesis by (auto simp: saturating_add_def min_def)
next
  case False
  then have "2 ^ LENGTH('a) \<le> unat a + unat b" by (simp only: word_no_carry_iff not_less)
  then have "min (unat a + unat b) (2 ^ LENGTH('a) - 1) = 2 ^ LENGTH('a) - 1" by linarith
  moreover have "unat (- 1 :: 'a word) = 2 ^ LENGTH('a) - 1"
    by (simp add: unsigned_minus_1_eq_mask mask_eq_exp_minus_1)
  ultimately show ?thesis using False by (simp add: saturating_add_def)
qed

lemma checked_add_Some_iff:
  fixes a b c :: "'a::len word"
  shows "checked_add a b = Some c \<longleftrightarrow> unat c = unat a + unat b"
proof -
  have c: "unat c < 2 ^ LENGTH('a)" by (rule unsigned_less)
  show ?thesis
  proof (cases "unat a + unat b < 2 ^ LENGTH('a)")
    case True
    then have "unat (a + b) = unat a + unat b" and "a \<le> a + b"
      by (simp_all only: word_no_carry_iff) (simp add: unat_word_ariths)
    then show ?thesis by (auto simp: checked_add_def word_unat_eq_iff)
  next
    case False
    then have "\<not> a \<le> a + b" by (simp only: word_no_carry_iff simp_thms)
    moreover from False c have "unat c \<noteq> unat a + unat b" by linarith
    ultimately show ?thesis by (simp add: checked_add_def)
  qed
qed

lemma unat_saturating_sub [simp]: "unat (saturating_sub a b) = unat a - unat b"
  by (auto simp: saturating_sub_def unat_sub word_le_nat_alt)

text \<open>A widening \<open>as\<close> cast keeps the value.\<close>

lemma unat_ucast_widen:
  fixes c :: "'a::len word"
  assumes "LENGTH('a) \<le> LENGTH('b)"
  shows "unat (ucast c :: 'b::len word) = unat c"
proof -
  have "unat c < 2 ^ LENGTH('a)" by (rule unsigned_less)
  also have "\<dots> \<le> 2 ^ LENGTH('b)" using assms by (rule power_increasing) simp
  finally show ?thesis by (simp add: unsigned_ucast_eq take_bit_nat_eq_self)
qed

lemma unat_u64_bound: "unat (x :: u64) < 2 ^ 64"
  using unsigned_less [of x] by simp

lemma unat_u32_bound: "unat (x :: u32) < 2 ^ 32"
  using unsigned_less [of x] by simp

section \<open>Results\<close>

text \<open>Rust's \<open>?\<close>: continue with the value, or return the error.\<close>

definition and_then :: "'e + 'a \<Rightarrow> ('a \<Rightarrow> 'e + 'b) \<Rightarrow> 'e + 'b" where
  "and_then m f = (case m of Inl e \<Rightarrow> Inl e | Inr a \<Rightarrow> f a)"

lemma and_then_simps [simp]:
  "and_then (Inl e) f = Inl e"
  "and_then (Inr a) f = f a"
  by (simp_all add: and_then_def)

lemma and_then_Inr_iff: "and_then m f = Inr b \<longleftrightarrow> (\<exists>a. m = Inr a \<and> f a = Inr b)"
  by (cases m) simp_all

lemma and_then_InrE [elim!]:
  assumes "and_then m f = Inr b"
  obtains a where "m = Inr a" and "f a = Inr b"
  using assms by (auto simp: and_then_Inr_iff)

definition ok_or :: "'e \<Rightarrow> 'a option \<Rightarrow> 'e + 'a" where
  "ok_or e x = (case x of None \<Rightarrow> Inl e | Some a \<Rightarrow> Inr a)"

lemma ok_or_simps [simp]: "ok_or e None = Inl e" "ok_or e (Some a) = Inr a"
  by (simp_all add: ok_or_def)

lemma option_eqI: "(\<And>x. a = Some x \<longleftrightarrow> b = Some x) \<Longrightarrow> a = b"
  by (cases a; cases b) auto

section \<open>Byte readers\<close>

text \<open>A reader consumes a prefix of the unread bytes or fails. \<open>read_exact\<close> is
  \<open>Read::read_exact\<close> on a cursor: a short buffer is an error and nothing is returned.\<close>

datatype io_error = UnexpectedEof | InvalidData | ConnectionReset

type_synonym ('e, 'a) reader = "bytes \<Rightarrow> 'e + ('a \<times> bytes)"

definition rd_bind :: "('e, 'a) reader \<Rightarrow> ('a \<Rightarrow> ('e, 'b) reader) \<Rightarrow> ('e, 'b) reader" where
  "rd_bind p f = (\<lambda>r. and_then (p r) (\<lambda>(a, r'). f a r'))"

definition rd_return :: "'a \<Rightarrow> ('e, 'a) reader" where
  "rd_return a = (\<lambda>r. Inr (a, r))"

definition rd_fail :: "'e \<Rightarrow> ('e, 'a) reader" where
  "rd_fail e = (\<lambda>r. Inl e)"

definition read_exact :: "nat \<Rightarrow> (io_error, bytes) reader" where
  "read_exact n = (\<lambda>r. if length r < n then Inl UnexpectedEof else Inr (take n r, drop n r))"

definition read_u8 :: "(io_error, u8) reader" where
  "read_u8 = (\<lambda>r. case r of [] \<Rightarrow> Inl UnexpectedEof | b # r' \<Rightarrow> Inr (b, r'))"

text \<open>\<open>for _ in 0..n { out.push(p(reader)?) }\<close>\<close>

fun rd_many :: "nat \<Rightarrow> ('e, 'a) reader \<Rightarrow> ('e, 'a list) reader" where
  "rd_many 0 p = rd_return []"
| "rd_many (Suc n) p = rd_bind p (\<lambda>a. rd_bind (rd_many n p) (\<lambda>as. rd_return (a # as)))"

text \<open>Run a reader on a whole buffer and drop the cursor.\<close>

definition rd_run :: "('e, 'a) reader \<Rightarrow> bytes \<Rightarrow> 'e + 'a" where
  "rd_run p data = and_then (p data) (\<lambda>(a, _). Inr a)"

lemma rd_return_run [simp]: "rd_return a r = Inr (a, r)"
  by (simp add: rd_return_def)

lemma rd_fail_run [simp]: "rd_fail e r = Inl e"
  by (simp add: rd_fail_def)

lemma rd_bind_Inr_iff:
  "rd_bind p f r = Inr x \<longleftrightarrow> (\<exists>a r'. p r = Inr (a, r') \<and> f a r' = Inr x)"
  by (auto simp: rd_bind_def and_then_Inr_iff)

lemma rd_bindE:
  assumes "rd_bind p f r = Inr x"
  obtains a r' where "p r = Inr (a, r')" and "f a r' = Inr x"
  using assms by (auto simp: rd_bind_Inr_iff)

lemma rd_bind_run [codec_simps]: "p r = Inr (a, r') \<Longrightarrow> rd_bind p f r = f a r'"
  by (simp add: rd_bind_def)

lemma rd_bind_err [codec_simps]: "p r = Inl e \<Longrightarrow> rd_bind p f r = Inl e"
  by (simp add: rd_bind_def)

lemma rd_run_run [codec_simps]: "p data = Inr (a, r) \<Longrightarrow> rd_run p data = Inr a"
  by (simp add: rd_run_def)

lemma read_exact_append [codec_simps]: "n = length xs \<Longrightarrow> read_exact n (xs @ r) = Inr (xs, r)"
  by (simp add: read_exact_def)

lemma read_exact_Inr_iff: "read_exact n r = Inr (xs, r') \<longleftrightarrow> r = xs @ r' \<and> length xs = n"
  by (auto simp: read_exact_def min_def)

lemma read_u8_Cons [codec_simps, simp]: "read_u8 (b # r) = Inr (b, r)"
  by (simp add: read_u8_def)

lemma read_u8_Inr_iff: "read_u8 r = Inr (b, r') \<longleftrightarrow> r = b # r'"
  by (auto simp: read_u8_def split: list.splits)

lemma read_u8_single: "read_u8 = rd_bind (read_exact 1) (\<lambda>bs. rd_return (hd bs))"
proof (rule ext)
  show "read_u8 r = rd_bind (read_exact 1) (\<lambda>bs. rd_return (hd bs)) r" for r
    by (cases r) (simp_all add: read_u8_def rd_bind_def read_exact_def)
qed

lemma rd_many_length: "rd_many n p r = Inr (xs, r') \<Longrightarrow> length xs = n"
  by (induction n arbitrary: r xs) (auto simp: rd_bind_Inr_iff)

subsection \<open>Readers that only look at what they consume\<close>

text \<open>\<open>prefix_reader p\<close>: a success consumes a prefix, the outcome does not depend on
  what follows that prefix, and with only part of that prefix available the reader reports
  \<open>UnexpectedEof\<close>. Every reader of the wire format has this, and it is what makes
  reading from a socket and reading from a buffer agree.\<close>

definition prefix_reader :: "(io_error, 'a) reader \<Rightarrow> bool" where
  "prefix_reader p \<longleftrightarrow> (\<forall>r a r'. p r = Inr (a, r') \<longrightarrow>
     (\<exists>used. r = used @ r' \<and> (\<forall>rest. p (used @ rest) = Inr (a, rest))
       \<and> (\<forall>u v. used = u @ v \<and> v \<noteq> [] \<longrightarrow> p u = Inl UnexpectedEof)))"

lemma prefix_readerE:
  assumes "prefix_reader p" and "p r = Inr (a, r')"
  obtains used where "r = used @ r'" and "\<And>rest. p (used @ rest) = Inr (a, rest)"
    and "\<And>u v. used = u @ v \<Longrightarrow> v \<noteq> [] \<Longrightarrow> p u = Inl UnexpectedEof"
  using assms unfolding prefix_reader_def by meson

lemma prefix_reader_return [intro!]: "prefix_reader (rd_return a)"
  by (auto simp: prefix_reader_def)

lemma prefix_reader_fail [intro!]: "prefix_reader (rd_fail e)"
  by (auto simp: prefix_reader_def)

lemma prefix_reader_exact [intro!]: "prefix_reader (read_exact n)"
  by (auto simp: prefix_reader_def read_exact_Inr_iff) (auto simp: read_exact_def)

lemma prefix_reader_u8 [intro!]: "prefix_reader read_u8"
  by (auto simp: prefix_reader_def read_u8_Inr_iff) (auto simp: read_u8_def Cons_eq_append_conv)

lemma prefix_reader_bind [intro]:
  assumes p: "prefix_reader p" and f: "\<And>a. prefix_reader (f a)"
  shows "prefix_reader (rd_bind p f)"
  unfolding prefix_reader_def
proof (intro allI impI)
  fix r b r'
  assume "rd_bind p f r = Inr (b, r')"
  then obtain a r1 where a: "p r = Inr (a, r1)" and b: "f a r1 = Inr (b, r')"
    by (rule rd_bindE)
  from p a obtain u where u: "r = u @ r1" and pu: "\<And>rest. p (u @ rest) = Inr (a, rest)"
    and pe: "\<And>x y. u = x @ y \<Longrightarrow> y \<noteq> [] \<Longrightarrow> p x = Inl UnexpectedEof" by (rule prefix_readerE) blast
  from f b obtain v where v: "r1 = v @ r'" and fv: "\<And>rest. f a (v @ rest) = Inr (b, rest)"
    and fe: "\<And>x y. v = x @ y \<Longrightarrow> y \<noteq> [] \<Longrightarrow> f a x = Inl UnexpectedEof" by (rule prefix_readerE) blast
  have "rd_bind p f x = Inl UnexpectedEof" if xy: "u @ v = x @ y" and y: "y \<noteq> []" for x y
  proof -
    from xy consider (in_p) z where "u = x @ z" "z \<noteq> []" | (in_f) z where "x = u @ z" "v = z @ y"
      by (cases "length x < length u") (auto simp: append_eq_append_conv2)
    then show ?thesis
    proof cases
      case in_p
      then show ?thesis using pe by (simp add: rd_bind_def)
    next
      case in_f
      then show ?thesis using fe [of z y] y by (simp add: rd_bind_def pu)
    qed
  qed
  moreover have "\<forall>rest. rd_bind p f ((u @ v) @ rest) = Inr (b, rest)"
    by (simp add: rd_bind_def pu fv)
  ultimately show "\<exists>used. r = used @ r' \<and> (\<forall>rest. rd_bind p f (used @ rest) = Inr (b, rest))
      \<and> (\<forall>u v. used = u @ v \<and> v \<noteq> [] \<longrightarrow> rd_bind p f u = Inl UnexpectedEof)"
    using u v by (intro exI [of _ "u @ v"]) simp
qed

lemma prefix_reader_if [intro]:
  "prefix_reader p \<Longrightarrow> prefix_reader q \<Longrightarrow> prefix_reader (if b then p else q)"
  by simp

lemma prefix_reader_many [intro]: "prefix_reader p \<Longrightarrow> prefix_reader (rd_many n p)"
  by (induction n) auto

subsection \<open>The interface of a wire codec\<close>

text \<open>\<open>put\<close> appends the encoding of a value, \<open>get\<close> reads it back; \<open>valid\<close> says which
  values the format can carry.\<close>

locale wire_codec =
  fixes put :: "'a \<Rightarrow> bytes"
    and get :: "('e, 'a) reader"
    and valid :: "'a \<Rightarrow> bool"
  assumes get_put: "valid a \<Longrightarrow> get (put a @ rest) = Inr (a, rest)"
begin

lemma get_put_end: "valid a \<Longrightarrow> get (put a) = Inr (a, [])"
  using get_put [of a "[]"] by simp

lemma get_many_put:
  "\<forall>a \<in> set as. valid a \<Longrightarrow>
     rd_many (length as) get (concat (map put as) @ rest) = Inr (as, rest)"
  by (induction as) (simp_all add: rd_bind_def get_put)

text \<open>The format is uniquely decodable: no encoding is a proper prefix of another one
  followed by other data.\<close>

lemma put_unique:
  assumes "valid a" and "valid b" and "put a @ r = put b @ s"
  shows "a = b \<and> r = s"
proof -
  have "Inr (a, r) = get (put a @ r)" by (rule get_put [OF assms(1), symmetric])
  also have "\<dots> = get (put b @ s)" by (simp only: assms(3))
  also have "\<dots> = Inr (b, s)" by (rule get_put [OF assms(2)])
  finally show ?thesis by simp
qed

lemma put_stream_unique:
  assumes "\<forall>a \<in> set as. valid a" and "\<forall>b \<in> set bs. valid b"
    and "length as = length bs"
    and "concat (map put as) @ r = concat (map put bs) @ s"
  shows "as = bs \<and> r = s"
proof -
  have "Inr (as, r) = rd_many (length as) get (concat (map put as) @ r)"
    by (rule get_many_put [OF assms(1), symmetric])
  also have "\<dots> = rd_many (length bs) get (concat (map put bs) @ s)"
    by (simp only: assms(3,4))
  also have "\<dots> = Inr (bs, s)" by (rule get_many_put [OF assms(2)])
  finally show ?thesis by simp
qed

end

section \<open>Fixed-width big-endian integers\<close>

definition u32_to_be_bytes :: "u32 \<Rightarrow> bytes" where
  "u32_to_be_bytes x = [ucast (drop_bit 24 x), ucast (drop_bit 16 x), ucast (drop_bit 8 x), ucast x]"

definition u32_from_be_bytes :: "u8 \<Rightarrow> u8 \<Rightarrow> u8 \<Rightarrow> u8 \<Rightarrow> u32" where
  "u32_from_be_bytes a b c d =
     push_bit 24 (ucast a) OR push_bit 16 (ucast b) OR push_bit 8 (ucast c) OR ucast d"

lemma length_u32_to_be_bytes [simp]: "length (u32_to_be_bytes x) = 4"
  by (simp add: u32_to_be_bytes_def)

lemma u32_from_to_be_bytes [simp]:
  "u32_from_be_bytes (ucast (drop_bit 24 x)) (ucast (drop_bit 16 x)) (ucast (drop_bit 8 x)) (ucast x) = x"
proof (rule bit_word_eqI)
  fix n
  assume "n < LENGTH(32)"
  then consider "n < 8" | "8 \<le> n" "n < 16" | "16 \<le> n" "n < 24" | "24 \<le> n" "n < 32"
    by force
  then show "bit (u32_from_be_bytes (ucast (drop_bit 24 x)) (ucast (drop_bit 16 x))
      (ucast (drop_bit 8 x)) (ucast x)) n = bit x n"
    by cases (auto simp: u32_from_be_bytes_def bit_simps)
qed

lemma byte_bit_ge [simp]: "8 \<le> n \<Longrightarrow> \<not> bit (b::u8) n"
  by (auto dest: bit_imp_le_length)

lemma u32_to_from_be_bytes [simp]: "u32_to_be_bytes (u32_from_be_bytes a b c d) = [a, b, c, d]"
  by (auto simp: u32_to_be_bytes_def u32_from_be_bytes_def bit_simps intro!: bit_word_eqI)

definition read_u32_be :: "(io_error, u32) reader" where
  "read_u32_be = rd_bind (read_exact 4)
     (\<lambda>bs. rd_return (u32_from_be_bytes (bs ! 0) (bs ! 1) (bs ! 2) (bs ! 3)))"

interpretation u32_be: wire_codec u32_to_be_bytes read_u32_be "\<lambda>_. True"
  by unfold_locales
    (simp add: read_u32_be_def rd_bind_def read_exact_def u32_to_be_bytes_def)

lemma prefix_reader_u32_be [intro!]: "prefix_reader read_u32_be"
  unfolding read_u32_be_def by (intro prefix_reader_bind prefix_reader_exact prefix_reader_return)

section \<open>UTF-8\<close>

text \<open>\<open>String::from_utf8\<close> accepts exactly the well-formed byte sequences of the Unicode
  standard (Table 3-7); a \<open>String\<close> is modelled by its bytes.\<close>

definition utf8_cont :: "u8 \<Rightarrow> bool" where
  "utf8_cont b \<longleftrightarrow> 0x80 \<le> b \<and> b \<le> 0xBF"

fun valid_utf8 :: "bytes \<Rightarrow> bool" where
  "valid_utf8 [] = True"
| "valid_utf8 (b # r) =
     (if b < 0x80 then valid_utf8 r
      else if 0xC2 \<le> b \<and> b \<le> 0xDF then
        (case r of c # r' \<Rightarrow> utf8_cont c \<and> valid_utf8 r' | _ \<Rightarrow> False)
      else if 0xE0 \<le> b \<and> b \<le> 0xEF then
        (case r of c # d # r' \<Rightarrow>
            utf8_cont c \<and> (b = 0xE0 \<longrightarrow> 0xA0 \<le> c) \<and> (b = 0xED \<longrightarrow> c \<le> 0x9F)
            \<and> utf8_cont d \<and> valid_utf8 r' | _ \<Rightarrow> False)
      else if 0xF0 \<le> b \<and> b \<le> 0xF4 then
        (case r of c # d # e # r' \<Rightarrow>
            utf8_cont c \<and> (b = 0xF0 \<longrightarrow> 0x90 \<le> c) \<and> (b = 0xF4 \<longrightarrow> c \<le> 0x8F)
            \<and> utf8_cont d \<and> utf8_cont e \<and> valid_utf8 r' | _ \<Rightarrow> False)
      else False)"

text \<open>\<open>from_utf8\<close> inside a reader: the \<open>map_err(InvalidData)\<close> of the call sites.\<close>

definition from_utf8 :: "bytes \<Rightarrow> (io_error, bytes) reader" where
  "from_utf8 bs = (if valid_utf8 bs then rd_return bs else rd_fail InvalidData)"

lemma prefix_reader_utf8 [intro!]: "prefix_reader (from_utf8 bs)"
  by (auto simp: from_utf8_def)

end
