(* ===== verification/Vlq.thy ===== *)
theory Vlq
  imports Node_Prelude
begin

text \<open>
  The variable-length integer codec of the P2P wire format, \<open>p2p/src/transport/vlq.rs\<close>:
  VLQ of a \<open>u64\<close>, ZigZag for signed values, and length-prefixed strings. The loops are
  the source's: one byte per iteration, seven payload bits, the high bit as the
  continuation flag. \<open>read_vlq\<close> keeps the source's accumulator and shift.
\<close>

section \<open>Definitions\<close>

function write_vlq :: "u64 \<Rightarrow> bytes" where
  "write_vlq value =
     (let byte = ucast (value AND 0x7f) :: u8; value' = drop_bit 7 value in
      if value' = 0 then [byte] else (byte OR 0x80) # write_vlq value')"
  by pat_completeness auto
termination
proof (relation "measure unat")
  fix v v' :: u64 and b :: u8
  assume "v' = drop_bit 7 v" and "v' \<noteq> 0"
  then show "(v', v) \<in> measure unat"
    by (auto simp: drop_bit_eq_div unat_div_distrib word_unat_eq_iff)
qed simp

declare write_vlq.simps [simp del]

fun read_vlq_loop :: "u64 \<Rightarrow> nat \<Rightarrow> (io_error, u64) reader" where
  "read_vlq_loop result shift [] = Inl UnexpectedEof"
| "read_vlq_loop result shift (b # r) =
     (let result' = result OR push_bit shift (ucast (b AND 0x7f)) in
      if b AND 0x80 = 0 then Inr (result', r)
      else if shift + 7 > 63 then Inl InvalidData
      else read_vlq_loop result' (shift + 7) r)"

definition read_vlq :: "(io_error, u64) reader" where
  "read_vlq = read_vlq_loop 0 0"

definition MAX_VLQ_LENGTH :: u64 where
  "MAX_VLQ_LENGTH = 16388608"

definition read_vlq_length :: "(io_error, nat) reader" where
  "read_vlq_length = rd_bind read_vlq
     (\<lambda>val. if val > MAX_VLQ_LENGTH then rd_fail InvalidData else rd_return (unat val))"

definition zigzag_encode :: "i32 \<Rightarrow> u32" where
  "zigzag_encode value = push_bit 1 value XOR signed_drop_bit 31 value"

definition zigzag_decode :: "u32 \<Rightarrow> i32" where
  "zigzag_decode value = drop_bit 1 value XOR (- (value AND 1))"

definition zigzag_encode_i64 :: "i64 \<Rightarrow> u64" where
  "zigzag_encode_i64 value = push_bit 1 value XOR signed_drop_bit 63 value"

definition zigzag_decode_i64 :: "u64 \<Rightarrow> i64" where
  "zigzag_decode_i64 value = drop_bit 1 value XOR (- (value AND 1))"

text \<open>The length byte is \<open>s.len() as u8\<close>: it wraps for strings of 256 bytes or more.\<close>

definition write_short_string :: "bytes \<Rightarrow> bytes" where
  "write_short_string s = of_nat (length s) # s"

definition read_short_string :: "(io_error, bytes) reader" where
  "read_short_string = rd_bind read_u8 (\<lambda>len.
     rd_bind (read_exact (unat len)) from_utf8)"

section \<open>VLQ round trip\<close>

text \<open>Bits of \<open>v\<close> at and above \<open>64 - s\<close> are clear: shifting left by \<open>s\<close> loses nothing.\<close>

definition fits_shift :: "nat \<Rightarrow> u64 \<Rightarrow> bool" where
  "fits_shift s v \<longleftrightarrow> (\<forall>n. bit v n \<longrightarrow> s + n < 64)"

lemma bit_7f [simp]: "bit (0x7f :: int) k \<longleftrightarrow> k < 7"
proof -
  have "(0x7f :: int) = mask 7" by (simp add: mask_eq_exp_minus_1)
  then show ?thesis by (simp only: bit_mask_iff) simp
qed

lemma bit_80 [simp]: "bit (0x80 :: int) k \<longleftrightarrow> k = 7"
proof -
  have "(0x80 :: int) = push_bit 7 1" by simp
  then show ?thesis by (simp only: bit_push_bit_iff) (auto simp: bit_simps)
qed

lemma vlq_split:
  "push_bit s (ucast (ucast (v AND 0x7f) :: u8)) OR push_bit (s + 7) (drop_bit 7 v) = push_bit s (v::u64)"
proof (rule bit_word_eqI)
  fix n
  show "bit (push_bit s (ucast (ucast (v AND 0x7f) :: u8)) OR push_bit (s + 7) (drop_bit 7 v)) n
      = bit (push_bit s v) n"
    by (cases "s + 7 \<le> n") (auto simp: bit_simps)
qed

lemma vlq_last_byte: "(ucast (v AND 0x7f :: u64) :: u8) AND 0x80 = 0"
  by (rule bit_word_eqI) (auto simp: bit_simps)

lemma vlq_last_payload: "(ucast (v AND 0x7f :: u64) :: u8) AND 0x7f = ucast (v AND 0x7f)"
  by (rule bit_word_eqI) (auto simp: bit_simps)

lemma vlq_more_byte: "(b OR 0x80 :: u8) AND 0x80 \<noteq> 0"
proof -
  have "bit ((b OR 0x80) AND 0x80 :: u8) 7" by (simp add: bit_simps bit_80)
  then show ?thesis by force
qed

lemma vlq_more_payload:
  "((ucast (v AND 0x7f :: u64) :: u8) OR 0x80) AND 0x7f = ucast (v AND 0x7f)"
  by (rule bit_word_eqI) (auto simp: bit_simps)

lemma fits_shift_more:
  assumes "fits_shift s v" and "drop_bit 7 v \<noteq> 0"
  shows "s + 7 \<le> 63" and "fits_shift (s + 7) (drop_bit 7 v)"
proof -
  from assms(2) obtain n where "bit (drop_bit 7 v) n"
    by (auto simp: bit_eq_iff)
  with assms(1) have "s + (7 + n) < 64" by (auto simp: fits_shift_def bit_simps)
  then show "s + 7 \<le> 63" by simp
  from assms(1) show "fits_shift (s + 7) (drop_bit 7 v)"
    by (auto simp: fits_shift_def bit_simps algebra_simps)
qed

lemma fits_shift_small: "drop_bit 7 (v::u64) = 0 \<Longrightarrow> (ucast (ucast (v AND 0x7f) :: u8) :: u64) = v"
proof (rule bit_word_eqI)
  fix n
  assume "drop_bit 7 v = 0"
  then have "\<not> bit (drop_bit 7 v) (n - 7)" by simp
  then have "\<not> bit v n" if "7 \<le> n"
    using that by (simp add: bit_simps)
  then show "bit (ucast (ucast (v AND 0x7f) :: u8) :: u64) n = bit v n"
    by (cases "7 \<le> n") (auto simp: bit_simps)
qed

lemma read_vlq_loop_write:
  "fits_shift s v \<Longrightarrow> read_vlq_loop res s (write_vlq v @ rest) = Inr (res OR push_bit s v, rest)"
proof (induction v arbitrary: s res rule: write_vlq.induct)
  case (1 v)
  show ?case
  proof (cases "drop_bit 7 v = 0")
    case True
    then show ?thesis
      by (simp add: write_vlq.simps [of v] vlq_last_byte vlq_last_payload fits_shift_small)
  next
    case False
    note more = fits_shift_more [OF 1(2) False]
    have "read_vlq_loop res s (write_vlq v @ rest)
        = read_vlq_loop (res OR push_bit s (ucast (ucast (v AND 0x7f) :: u8))) (s + 7)
            (write_vlq (drop_bit 7 v) @ rest)"
      using False more(1)
      by (simp add: write_vlq.simps [of v] vlq_more_byte vlq_more_payload Let_def)
    also have "\<dots> = Inr ((res OR push_bit s (ucast (ucast (v AND 0x7f) :: u8)))
        OR push_bit (s + 7) (drop_bit 7 v), rest)"
      using 1(1) [OF refl refl False more(2)] .
    finally show ?thesis by (simp only: or.assoc vlq_split)
  qed
qed

lemma read_vlq_write: "read_vlq (write_vlq v @ rest) = Inr (v, rest)"
proof -
  have "fits_shift 0 v" by (auto simp: fits_shift_def dest: bit_imp_le_length)
  then show ?thesis by (simp add: read_vlq_def read_vlq_loop_write)
qed

interpretation vlq: wire_codec write_vlq read_vlq "\<lambda>_. True"
  by unfold_locales (rule read_vlq_write)

lemmas [codec_simps] = vlq.get_put

subsection \<open>Sizes\<close>

lemma unat_drop_7: "unat (drop_bit 7 (v::u64)) = unat v div 128"
  by (simp add: drop_bit_eq_div unat_div_distrib)

lemma write_vlq_length_aux: "unat v < 2 ^ (7 * n) \<Longrightarrow> 0 < n \<Longrightarrow> length (write_vlq v) \<le> n"
proof (induction v arbitrary: n rule: write_vlq.induct)
  case (1 v)
  show ?case
  proof (cases "drop_bit 7 v = 0")
    case True
    with 1(3) show ?thesis by (simp add: write_vlq.simps [of v])
  next
    case False
    from 1(3) obtain m where n: "n = Suc m" by (cases n) auto
    with 1(2) have "unat (drop_bit 7 v) < 2 ^ (7 * m)"
      by (simp add: unat_drop_7 less_mult_imp_div_less power_add mult.commute)
    moreover from this have "m \<noteq> 0" using False by (cases "m = 0") (simp_all add: unsigned_eq_0_iff)
    ultimately have "length (write_vlq (drop_bit 7 v)) \<le> m"
      using 1(1) [OF refl refl False, of m] by simp
    with False n show ?thesis by (simp add: write_vlq.simps [of v] Let_def)
  qed
qed

lemma write_vlq_nonempty: "write_vlq v \<noteq> []"
  by (subst write_vlq.simps) (simp add: Let_def)

lemma write_vlq_length: "1 \<le> length (write_vlq v) \<and> length (write_vlq v) \<le> 10"
proof -
  have "unat v < 2 ^ 64" using unsigned_less [of v] by simp
  then have "unat v < 2 ^ (7 * 10)" by simp
  then have "length (write_vlq v) \<le> 10" by (rule write_vlq_length_aux) simp
  with write_vlq_nonempty [of v] show ?thesis by (cases "write_vlq v") simp_all
qed

text \<open>A success consumes between one and ten bytes, ignores what follows, and every one of
  the consumed bytes is needed.\<close>

lemma read_vlq_loop_used:
  "read_vlq_loop res s r = Inr (v, r') \<Longrightarrow> s \<le> 63 \<Longrightarrow>
     \<exists>used. r = used @ r' \<and> 0 < length used \<and> s + 7 * length used \<le> 70
       \<and> (\<forall>rest. read_vlq_loop res s (used @ rest) = Inr (v, rest))
       \<and> (\<forall>x y. used = x @ y \<and> y \<noteq> [] \<longrightarrow> read_vlq_loop res s x = Inl UnexpectedEof)"
proof (induction r arbitrary: res s)
  case Nil
  then show ?case by simp
next
  case (Cons b r)
  show ?case
  proof (cases "b AND 0x80 = 0")
    case True
    with Cons.prems show ?thesis by (intro exI [of _ "[b]"]) (auto simp: Cons_eq_append_conv)
  next
    case False
    let ?res = "res OR push_bit s (ucast (b AND 0x7f))"
    from False Cons.prems(1) have s: "s + 7 \<le> 63" and "read_vlq_loop ?res (s + 7) r = Inr (v, r')"
      by (auto simp: Let_def split: if_splits)
    from Cons.IH [OF this(2) s] obtain u where "r = u @ r'" "0 < length u"
      "s + 7 + 7 * length u \<le> 70"
      "\<forall>rest. read_vlq_loop ?res (s + 7) (u @ rest) = Inr (v, rest)"
      "\<forall>x y. u = x @ y \<and> y \<noteq> [] \<longrightarrow> read_vlq_loop ?res (s + 7) x = Inl UnexpectedEof"
      by blast
    moreover have "read_vlq_loop res s (b # x) = read_vlq_loop ?res (s + 7) x" for x
      using False s by (simp add: Let_def)
    ultimately show ?thesis
      by (intro exI [of _ "b # u"]) (auto simp: Cons_eq_append_conv simp del: read_vlq_loop.simps(2))
  qed
qed

lemma prefix_reader_vlq [intro!]: "prefix_reader read_vlq"
  unfolding prefix_reader_def read_vlq_def using read_vlq_loop_used [of 0 0] by blast

lemma prefix_reader_vlq_length [intro!]: "prefix_reader read_vlq_length"
  unfolding read_vlq_length_def by (intro prefix_reader_bind prefix_reader_vlq) auto

subsection \<open>Lengths and strings\<close>

definition vlq_len_ok :: "nat \<Rightarrow> bool" where
  "vlq_len_ok n \<longleftrightarrow> n \<le> 16388608"

lemma unat_of_nat_len [simp]: "vlq_len_ok n \<Longrightarrow> unat (of_nat n :: u64) = n"
  by (simp add: vlq_len_ok_def unat_of_nat)

interpretation vlq_length: wire_codec "\<lambda>n. write_vlq (of_nat n)" read_vlq_length vlq_len_ok
proof
  fix n rest
  assume n: "vlq_len_ok n"
  then have "\<not> (of_nat n :: u64) > MAX_VLQ_LENGTH"
    by (simp add: MAX_VLQ_LENGTH_def word_less_nat_alt) (simp add: vlq_len_ok_def)
  with n show "read_vlq_length (write_vlq (of_nat n) @ rest) = Inr (n, rest)"
    by (simp add: read_vlq_length_def rd_bind_def read_vlq_write)
qed

lemmas [codec_simps] = vlq_length.get_put

lemma read_vlq_length_bound: "read_vlq_length r = Inr (n, r') \<Longrightarrow> n \<le> 16388608"
  by (auto simp: read_vlq_length_def rd_bind_Inr_iff MAX_VLQ_LENGTH_def word_less_nat_alt
      split: if_splits)

definition short_string_ok :: "bytes \<Rightarrow> bool" where
  "short_string_ok s \<longleftrightarrow> length s \<le> 255 \<and> valid_utf8 s"

interpretation short_string: wire_codec write_short_string read_short_string short_string_ok
  by unfold_locales
    (simp add: write_short_string_def read_short_string_def short_string_ok_def rd_bind_def
      read_exact_append from_utf8_def unat_of_nat)

lemmas [codec_simps] = short_string.get_put

lemma read_short_string_ok: "read_short_string r = Inr (s, r') \<Longrightarrow> short_string_ok s"
proof -
  assume "read_short_string r = Inr (s, r')"
  then obtain b r1 where "length s = unat (b::u8)" "valid_utf8 s"
    by (auto simp: read_short_string_def rd_bind_Inr_iff read_exact_Inr_iff from_utf8_def
        split: if_splits)
  moreover have "unat b < 256" using unsigned_less [of b] by simp
  ultimately show ?thesis by (simp add: short_string_ok_def)
qed

lemma prefix_reader_short_string [intro!]: "prefix_reader read_short_string"
  unfolding read_short_string_def by (intro prefix_reader_bind) auto

section \<open>ZigZag\<close>

lemma signed_drop_bit_sign:
  "signed_drop_bit (LENGTH('a) - 1) (v :: 'a::len word) = (if bit v (LENGTH('a) - 1) then - 1 else 0)"
proof (rule bit_word_eqI)
  show "bit (signed_drop_bit (LENGTH('a) - 1) v) n
      = bit (if bit v (LENGTH('a) - 1) then - 1 else 0 :: 'a word) n" if "n < LENGTH('a)" for n
    using that by (cases n) (auto simp: bit_signed_drop_bit_iff)
qed

lemma zigzag_bits:
  fixes v :: "'a::len word"
  defines "e \<equiv> push_bit 1 v XOR signed_drop_bit (LENGTH('a) - 1) v"
  shows "bit e n \<longleftrightarrow> n < LENGTH('a) \<and>
    ((0 < n \<and> bit v (n - 1)) \<noteq> bit v (LENGTH('a) - 1))"
  unfolding e_def signed_drop_bit_sign
  by (auto simp: bit_simps simp del: push_bit_Suc)

lemma minus_low_bit: "- (x AND 1 :: 'a::len word) = (if bit x 0 then - 1 else 0)"
  by (simp add: and_one_eq mod_2_eq_odd bit_0)

lemma zigzag_decode_encode_gen:
  fixes v :: "'a::len word"
  defines "e \<equiv> push_bit 1 v XOR signed_drop_bit (LENGTH('a) - 1) v"
  shows "drop_bit 1 e XOR (- (e AND 1)) = v"
proof (rule bit_word_eqI)
  fix n
  assume n: "n < LENGTH('a)"
  have e: "bit e k \<longleftrightarrow> k < LENGTH('a) \<and> ((0 < k \<and> bit v (k - 1)) \<noteq> bit v (LENGTH('a) - 1))" for k
    unfolding e_def by (rule zigzag_bits)
  have last: "n = LENGTH('a) - 1" if "\<not> Suc n < LENGTH('a)" using that n by simp
  show "bit (drop_bit 1 e XOR (- (e AND 1))) n = bit v n"
    unfolding minus_low_bit using n last
    by (cases "Suc n < LENGTH('a)") (auto simp: bit_simps e simp del: drop_bit_Suc)
qed

lemma zigzag_encode_decode_gen:
  fixes u :: "'a::len word"
  defines "d \<equiv> drop_bit 1 u XOR (- (u AND 1))"
  shows "push_bit 1 d XOR signed_drop_bit (LENGTH('a) - 1) d = u"
proof (rule bit_word_eqI)
  fix n
  assume n: "n < LENGTH('a)"
  have d: "bit d k \<longleftrightarrow> k < LENGTH('a) \<and> (bit u (Suc k) \<noteq> bit u 0)" for k
    unfolding d_def minus_low_bit
    by (auto simp: bit_simps simp del: drop_bit_Suc dest: bit_imp_le_length)
  have "\<not> bit u (LENGTH('a))" by (auto dest: bit_imp_le_length)
  with n show "bit (push_bit 1 d XOR signed_drop_bit (LENGTH('a) - 1) d) n = bit u n"
    unfolding zigzag_bits by (cases n) (auto simp: d)
qed

lemma zigzag_decode_encode: "zigzag_decode (zigzag_encode v) = v"
  using zigzag_decode_encode_gen [of v] by (simp only: zigzag_decode_def zigzag_encode_def) simp

lemma zigzag_decode_encode_i64: "zigzag_decode_i64 (zigzag_encode_i64 v) = v"
  using zigzag_decode_encode_gen [of v]
  by (simp only: zigzag_decode_i64_def zigzag_encode_i64_def) simp

lemma zigzag_encode_decode: "zigzag_encode (zigzag_decode u) = u"
  using zigzag_encode_decode_gen [of u] by (simp only: zigzag_decode_def zigzag_encode_def) simp

lemma zigzag_encode_decode_i64: "zigzag_encode_i64 (zigzag_decode_i64 u) = u"
  using zigzag_encode_decode_gen [of u]
  by (simp only: zigzag_decode_i64_def zigzag_encode_i64_def) simp

text \<open>The order of the codes is the documented one: \<open>0, -1, 1, -2, 2, ...\<close>.\<close>

lemma zigzag_encode_value_gen:
  fixes v :: "'a::len word"
  shows "uint (push_bit 1 v XOR signed_drop_bit (LENGTH('a) - 1) v)
    = (if 0 \<le> sint v then 2 * sint v else - 2 * sint v - 1)" (is "uint ?e = ?k")
proof -
  have v: "v = of_int (sint v)" by simp
  have dbl: "push_bit 1 v = 2 * v" by (simp add: push_bit_eq_mult)
  have "?e = (if 0 \<le> sint v then 2 * v else - (2 * v) - 1)"
    unfolding signed_drop_bit_sign dbl
    by (simp add: bit_last_iff not_less not_eq_complement [symmetric] bit.xor_cancel_right)
  also have "\<dots> = of_int ?k" by (subst (1 2) v) simp
  finally have "uint ?e = take_bit LENGTH('a) ?k" by (simp add: unsigned_of_int)
  moreover have "0 \<le> ?k \<and> ?k < 2 ^ LENGTH('a)"
  proof -
    have "- (2 ^ (LENGTH('a) - 1)) \<le> sint v" and "sint v < 2 ^ (LENGTH('a) - 1)"
      by (rule sint_ge, rule sint_lt)
    moreover have "(2::int) ^ LENGTH('a) = 2 * 2 ^ (LENGTH('a) - 1)"
      by (simp add: power_eq_if)
    ultimately show ?thesis by auto
  qed
  ultimately show ?thesis by (simp add: take_bit_int_eq_self)
qed

section \<open>Properties\<close>

text \<open>(C17) Every \<open>u64\<close> is encoded in one to ten bytes, and \<open>read_vlq\<close> reads exactly those
  bytes back from the front of any buffer.\<close>

theorem vlq_roundtrip:
  "read_vlq (write_vlq v @ rest) = Inr (v, rest)
   \<and> 1 \<le> length (write_vlq v) \<and> length (write_vlq v) \<le> 10"
  using write_vlq_length [of v] by (simp add: vlq.get_put)

text \<open>ZigZag maps the signed range onto the unsigned one without loss, in both
  widths: decoding inverts encoding, encoding inverts decoding, and a non-negative \<open>n\<close>
  has code \<open>2n\<close>, a negative one \<open>-2n - 1\<close>.\<close>

theorem zigzag_bijective:
  "zigzag_decode (zigzag_encode v) = v \<and> zigzag_encode (zigzag_decode u) = u
   \<and> zigzag_decode_i64 (zigzag_encode_i64 w) = w \<and> zigzag_encode_i64 (zigzag_decode_i64 x) = x
   \<and> uint (zigzag_encode v) = (if 0 \<le> sint v then 2 * sint v else - 2 * sint v - 1)
   \<and> uint (zigzag_encode_i64 w) = (if 0 \<le> sint w then 2 * sint w else - 2 * sint w - 1)"
  using zigzag_encode_value_gen [of v] zigzag_encode_value_gen [of w]
  by (simp only: zigzag_decode_encode zigzag_encode_decode zigzag_decode_encode_i64
      zigzag_encode_decode_i64) (simp add: zigzag_encode_def zigzag_encode_i64_def del: push_bit_Suc)

text \<open>The tenth byte is shifted by 63 and its upper six payload bits are dropped without
  an error: the ten-byte sequence whose payload is \<open>2 ^ 64\<close> reads as \<open>0\<close>.\<close>

lemma read_vlq_truncates: "read_vlq (replicate 9 0x80 @ [0x02]) = Inr (0, [])"
  by code_simp

end
