(* ===== verification/Frame.thy ===== *)
theory Frame
  imports Node_Prelude
begin

text \<open>
  Message frames and the sockets they arrive on, \<open>p2p/src/transport/frame.rs\<close>, with the
  session blacklist of \<open>p2p/src/blacklist.rs\<close> and the address and network types of
  \<open>p2p/src/types.rs\<close>. A frame is \<open>magic(4) code(1) length(4, big endian)\<close>, followed by
  \<open>checksum(4) body\<close> when the body is not empty. Blake2b-256 is a parameter
  (\<open>blake\<close>); the round trips need only that a digest is 32 bytes long.

  \<open>read_frame\<close> works on the unread bytes of the socket and threads the two pieces of
  shared state it changes: the blacklist, and the frames handed to the capture tap.
\<close>

section \<open>Addresses, networks, the blacklist\<close>

datatype ip_addr = IpV4 bytes | IpV6 bytes

fun octets :: "ip_addr \<Rightarrow> bytes" where
  "octets (IpV4 os) = os"
| "octets (IpV6 os) = os"

text \<open>\<open>Ipv4Addr\<close> holds four octets and \<open>Ipv6Addr\<close> sixteen.\<close>

fun wf_ip :: "ip_addr \<Rightarrow> bool" where
  "wf_ip (IpV4 os) \<longleftrightarrow> length os = 4"
| "wf_ip (IpV6 os) \<longleftrightarrow> length os = 16"

record socket_addr =
  ip :: ip_addr
  port :: u16

datatype network = Mainnet | Testnet

fun magic :: "network \<Rightarrow> bytes" where
  "magic Mainnet = [1, 0, 2, 4]"
| "magic Testnet = [2, 3, 2, 3]"

lemma length_magic [simp]: "length (magic n) = 4"
  by (cases n) simp_all

text \<open>The \<open>HashSet<SocketAddr>\<close> as a list without repetitions.\<close>

type_synonym blacklist = "socket_addr list"

definition blacklist_new :: blacklist where
  "blacklist_new = []"

definition record_permanent :: "socket_addr \<Rightarrow> blacklist \<Rightarrow> blacklist" where
  "record_permanent addr bl = List.insert addr bl"

definition blacklist_contains :: "blacklist \<Rightarrow> socket_addr \<Rightarrow> bool" where
  "blacklist_contains bl addr \<longleftrightarrow> addr \<in> set bl"

lemma record_permanent_set [simp]: "set (record_permanent addr bl) = insert addr (set bl)"
  by (simp add: record_permanent_def)

lemma record_permanent_distinct: "distinct bl \<Longrightarrow> distinct (record_permanent addr bl)"
  by (simp add: record_permanent_def)

section \<open>Frames\<close>

definition MIN_HEADER_SIZE :: nat where "MIN_HEADER_SIZE = 9"
definition HEADER_SIZE :: nat where "HEADER_SIZE = 13"
definition MAX_BODY_SIZE :: u32 where "MAX_BODY_SIZE = 16388608"

record frame =
  code :: u8
  body :: bytes

definition encode :: "(bytes \<Rightarrow> bytes) \<Rightarrow> bytes \<Rightarrow> frame \<Rightarrow> bytes" where
  "encode blake mgc f =
     mgc @ [code f] @ u32_to_be_bytes (of_nat (length (body f)))
     @ (if body f \<noteq> [] then take 4 (blake (body f)) @ body f else [])"

definition decode :: "(bytes \<Rightarrow> bytes) \<Rightarrow> bytes \<Rightarrow> bytes \<Rightarrow> io_error + frame" where
  "decode blake mgc data =
     (if length data < MIN_HEADER_SIZE then Inl InvalidData
      else if take 4 data \<noteq> mgc then Inl InvalidData
      else
        let cd = data ! 4;
            body_len = u32_from_be_bytes (data ! 5) (data ! 6) (data ! 7) (data ! 8) in
        if body_len > MAX_BODY_SIZE then Inl InvalidData
        else if body_len = 0 then Inr \<lparr>code = cd, body = []\<rparr>
        else
          let expected_total = HEADER_SIZE + unat body_len in
          if length data < expected_total then Inl InvalidData
          else
            let checksum = take 4 (drop 9 data);
                bdy = take (expected_total - HEADER_SIZE) (drop HEADER_SIZE data) in
            if take 4 (blake bdy) \<noteq> checksum then Inl InvalidData
            else Inr \<lparr>code = cd, body = bdy\<rparr>)"

text \<open>What \<open>read_frame\<close> returns besides its result: the unread bytes, the blacklist, and
  the wire bytes captured by the tap, newest last.\<close>

record conn =
  unread :: bytes
  banned :: blacklist
  captured :: "(socket_addr \<times> bytes) list"

definition capture :: "bool \<Rightarrow> socket_addr \<Rightarrow> bytes \<Rightarrow> conn \<Rightarrow> conn" where
  "capture tap peer wire c = (if tap then c\<lparr>captured := captured c @ [(peer, wire)]\<rparr> else c)"

definition ban :: "socket_addr \<Rightarrow> conn \<Rightarrow> conn" where
  "ban peer c = c\<lparr>banned := record_permanent peer (banned c)\<rparr>"

text \<open>The tail of \<open>read_frame\<close>, for a non-empty body.\<close>

definition read_checked_body ::
  "(bytes \<Rightarrow> bytes) \<Rightarrow> socket_addr \<Rightarrow> bool \<Rightarrow> bytes \<Rightarrow> u32 \<Rightarrow> conn \<Rightarrow> (io_error + frame) \<times> conn" where
  "read_checked_body blake peer tap prefix body_len c =
     (case read_exact 4 (unread c) of
        Inl e \<Rightarrow> (Inl e, c)
      | Inr (checksum, r2) \<Rightarrow>
          (case read_exact (unat body_len) r2 of
             Inl e \<Rightarrow> (Inl e, c\<lparr>unread := r2\<rparr>)
           | Inr (bdy, r3) \<Rightarrow>
               if take 4 (blake bdy) \<noteq> checksum then (Inl InvalidData, ban peer (c\<lparr>unread := r3\<rparr>))
               else (Inr \<lparr>code = prefix ! 4, body = bdy\<rparr>,
                     capture tap peer (prefix @ checksum @ bdy) (c\<lparr>unread := r3\<rparr>))))"

definition read_frame ::
  "(bytes \<Rightarrow> bytes) \<Rightarrow> bytes \<Rightarrow> socket_addr \<Rightarrow> bool \<Rightarrow> conn \<Rightarrow> (io_error + frame) \<times> conn" where
  "read_frame blake mgc peer tap c =
     (case read_exact 9 (unread c) of
        Inl e \<Rightarrow> (Inl e, c)
      | Inr (prefix, r1) \<Rightarrow>
          let c1 = c\<lparr>unread := r1\<rparr>;
              body_len = u32_from_be_bytes (prefix ! 5) (prefix ! 6) (prefix ! 7) (prefix ! 8) in
          if take 4 prefix \<noteq> mgc then (Inl InvalidData, ban peer c1)
          else if body_len > MAX_BODY_SIZE then (Inl InvalidData, ban peer c1)
          else if body_len = 0 then
            (Inr \<lparr>code = prefix ! 4, body = []\<rparr>, capture tap peer prefix c1)
          else read_checked_body blake peer tap prefix body_len c1)"

text \<open>\<open>write_frame\<close>: the bytes put on the wire, and the tap's copy.\<close>

definition write_frame ::
  "(bytes \<Rightarrow> bytes) \<Rightarrow> bytes \<Rightarrow> frame \<Rightarrow> socket_addr \<Rightarrow> bool \<Rightarrow> conn \<Rightarrow> bytes \<times> conn" where
  "write_frame blake mgc f peer tap c =
     (let wire = encode blake mgc f in (wire, capture tap peer wire c))"

text \<open>Reading \<open>n\<close> frames off one connection, stopping at the first error.\<close>

fun read_frames ::
  "nat \<Rightarrow> (bytes \<Rightarrow> bytes) \<Rightarrow> bytes \<Rightarrow> socket_addr \<Rightarrow> bool \<Rightarrow> conn \<Rightarrow> (io_error + frame list) \<times> conn" where
  "read_frames 0 blake mgc peer tap c = (Inr [], c)"
| "read_frames (Suc n) blake mgc peer tap c =
     (case read_frame blake mgc peer tap c of
        (Inl e, c') \<Rightarrow> (Inl e, c')
      | (Inr f, c') \<Rightarrow>
          (case read_frames n blake mgc peer tap c' of
             (Inl e, c'') \<Rightarrow> (Inl e, c'')
           | (Inr fs, c'') \<Rightarrow> (Inr (f # fs), c'')))"

section \<open>Encoding and decoding\<close>

definition frame_ok :: "frame \<Rightarrow> bool" where
  "frame_ok f \<longleftrightarrow> length (body f) \<le> 16388608"

definition blake_32 :: "(bytes \<Rightarrow> bytes) \<Rightarrow> bool" where
  "blake_32 blake \<longleftrightarrow> (\<forall>b. length (blake b) = 32)"

lemma blake_32_take [simp]: "blake_32 blake \<Longrightarrow> length (take 4 (blake b)) = 4"
  by (simp add: blake_32_def)

lemma length4E:
  assumes "length xs = 4"
  obtains a b c d where "xs = [a, b, c, d]"
  using assms by (auto simp: numeral_eq_Suc length_Suc_conv)

lemma length9E:
  assumes "length xs = 9"
  obtains a b c d e f g h i where "xs = [a, b, c, d, e, f, g, h, i]"
  using assms by (auto simp: numeral_eq_Suc length_Suc_conv)

lemma unat_body_len: "frame_ok f \<Longrightarrow> unat (of_nat (length (body f)) :: u32) = length (body f)"
  by (simp add: frame_ok_def unat_of_nat)

lemma body_len_not_oversized: "frame_ok f \<Longrightarrow> \<not> (of_nat (length (body f)) :: u32) > MAX_BODY_SIZE"
  by (simp add: MAX_BODY_SIZE_def word_less_nat_alt unat_body_len) (simp add: frame_ok_def)

lemma body_len_zero_iff: "frame_ok f \<Longrightarrow> (of_nat (length (body f)) :: u32) = 0 \<longleftrightarrow> body f = []"
  using unat_body_len [of f] by (auto simp flip: unsigned_eq_0_iff)

text \<open>The nine bytes every frame starts with.\<close>

definition frame_prefix :: "bytes \<Rightarrow> frame \<Rightarrow> bytes" where
  "frame_prefix mgc f = mgc @ [code f] @ u32_to_be_bytes (of_nat (length (body f)))"

lemma encode_prefix:
  "encode blake mgc f = frame_prefix mgc f
     @ (if body f \<noteq> [] then take 4 (blake (body f)) @ body f else [])"
  by (simp add: encode_def frame_prefix_def)

lemma frame_prefix_parts:
  assumes "length mgc = 4"
  shows "length (frame_prefix mgc f) = 9" and "take 4 (frame_prefix mgc f) = mgc"
    and "frame_prefix mgc f ! 4 = code f"
    and "u32_from_be_bytes (frame_prefix mgc f ! 5) (frame_prefix mgc f ! 6)
      (frame_prefix mgc f ! 7) (frame_prefix mgc f ! 8) = of_nat (length (body f))"
proof -
  from assms obtain a b c d where [simp]: "mgc = [a, b, c, d]" by (rule length4E)
  show "length (frame_prefix mgc f) = 9" and "take 4 (frame_prefix mgc f) = mgc"
    and "frame_prefix mgc f ! 4 = code f"
    and "u32_from_be_bytes (frame_prefix mgc f ! 5) (frame_prefix mgc f ! 6)
      (frame_prefix mgc f ! 7) (frame_prefix mgc f ! 8) = of_nat (length (body f))"
    by (simp_all add: frame_prefix_def u32_to_be_bytes_def)
qed

text \<open>A nine-byte prefix that announces the body length of \<open>f\<close> is the prefix of \<open>f\<close>.\<close>

lemma frame_prefix_unique:
  assumes "length p = 9"
    and "u32_from_be_bytes (p ! 5) (p ! 6) (p ! 7) (p ! 8) = of_nat (length (body f))"
    and "code f = p ! 4"
  shows "p = frame_prefix (take 4 p) f"
proof -
  from assms(1) obtain a b c d e g h i j where p: "p = [a, b, c, d, e, g, h, i, j]"
    by (rule length9E)
  then have "u32_to_be_bytes (of_nat (length (body f))) = [g, h, i, j]"
    using assms(2) by (simp flip: assms(2))
  then show ?thesis using assms(3) p by (simp add: frame_prefix_def)
qed

subsection \<open>The stream reader\<close>

lemma read_checked_body_Inr_iff:
  "read_checked_body blake peer tap p n c = (Inr f, c') \<longleftrightarrow>
     (\<exists>r3. unread c = take 4 (blake (body f)) @ body f @ r3 \<and> 4 \<le> length (blake (body f))
       \<and> length (body f) = unat n \<and> code f = p ! 4
       \<and> c' = capture tap peer (p @ take 4 (blake (body f)) @ body f) (c\<lparr>unread := r3\<rparr>))"
  (is "?L \<longleftrightarrow> ?R")
proof
  assume L: ?L
  then obtain ck r2 where ck: "read_exact 4 (unread c) = Inr (ck, r2)"
    by (auto simp: read_checked_body_def split: sum.splits)
  with L obtain bdy r3 where bdy: "read_exact (unat n) r2 = Inr (bdy, r3)"
    by (auto simp: read_checked_body_def split: sum.splits)
  have "take 4 (blake bdy) = ck" "f = \<lparr>code = p ! 4, body = bdy\<rparr>"
    "c' = capture tap peer (p @ ck @ bdy) (c\<lparr>unread := r3\<rparr>)"
    using L ck bdy by (simp_all add: read_checked_body_def split: if_split_asm)
  moreover have "unread c = ck @ bdy @ r3" "length ck = 4" "length bdy = unat n"
    using ck bdy by (simp_all add: read_exact_Inr_iff)
  ultimately show ?R by auto
next
  assume ?R
  then obtain r3 where r: "unread c = take 4 (blake (body f)) @ body f @ r3"
    "length (take 4 (blake (body f))) = 4" "length (body f) = unat n" "code f = p ! 4"
    "c' = capture tap peer (p @ take 4 (blake (body f)) @ body f) (c\<lparr>unread := r3\<rparr>)"
    by auto
  have "read_exact 4 (unread c) = Inr (take 4 (blake (body f)), body f @ r3)"
    "read_exact (unat n) (body f @ r3) = Inr (body f, r3)"
    unfolding r(1) by (rule read_exact_append [OF r(2) [symmetric]], rule read_exact_append [OF r(3) [symmetric]])
  with r(4,5) show ?L by (simp add: read_checked_body_def)
qed

text \<open>\<open>read_frame\<close> on the encoding of a frame.\<close>

lemma read_frame_encode:
  assumes mgc: "length mgc = 4" and ok: "frame_ok f" and blake: "blake_32 blake"
    and c: "unread c = encode blake mgc f @ rest"
  shows "read_frame blake mgc peer tap c
    = (Inr f, capture tap peer (encode blake mgc f) (c\<lparr>unread := rest\<rparr>))"
proof -
  note parts = frame_prefix_parts [OF mgc, of f]
  let ?tl = "if body f \<noteq> [] then take 4 (blake (body f)) @ body f else []"
  have rd: "read_exact 9 (unread c) = Inr (frame_prefix mgc f, ?tl @ rest)"
    using read_exact_append [OF parts(1) [symmetric]] by (simp add: c encode_prefix)
  show ?thesis
  proof (cases "body f = []")
    case True
    then show ?thesis
      using rd parts ok by (simp add: read_frame_def Let_def body_len_not_oversized encode_prefix)
  next
    case False
    have "read_frame blake mgc peer tap c = read_checked_body blake peer tap (frame_prefix mgc f)
        (of_nat (length (body f))) (c\<lparr>unread := ?tl @ rest\<rparr>)"
      using rd parts ok False
      by (simp add: read_frame_def Let_def body_len_not_oversized body_len_zero_iff)
    also have "\<dots> = (Inr f, capture tap peer (encode blake mgc f) (c\<lparr>unread := rest\<rparr>))"
      using False blake parts(3) ok
      by (auto simp: read_checked_body_Inr_iff encode_prefix unat_body_len blake_32_def)
    finally show ?thesis .
  qed
qed

text \<open>The inverse: whatever \<open>read_frame\<close> accepts is the encoding of what it returns.\<close>

lemma read_frame_accepts:
  assumes "read_frame blake mgc peer tap c = (Inr f, c')"
  shows "unread c = encode blake mgc f @ unread c' \<and> frame_ok f \<and> length mgc = 4
    \<and> banned c' = banned c
    \<and> captured c' = captured c @ (if tap then [(peer, encode blake mgc f)] else [])"
proof -
  from assms obtain p r1 where p: "read_exact 9 (unread c) = Inr (p, r1)"
    by (auto simp: read_frame_def split: sum.splits)
  then have up: "unread c = p @ r1" and lp: "length p = 9" by (simp_all add: read_exact_Inr_iff)
  let ?n = "u32_from_be_bytes (p ! 5) (p ! 6) (p ! 7) (p ! 8)"
  have mgc: "take 4 p = mgc" and n: "\<not> ?n > MAX_BODY_SIZE"
    using assms p by (simp_all add: read_frame_def Let_def split: if_split_asm)
  have len: "?n = 0 \<Longrightarrow> length (body f) = unat ?n \<and> code f = p ! 4 \<and> body f = []
      \<and> c' = capture tap peer p (c\<lparr>unread := r1\<rparr>)"
    using assms p mgc n by (auto simp: read_frame_def Let_def)
  have rcb: "?n \<noteq> 0 \<Longrightarrow> read_checked_body blake peer tap p ?n (c\<lparr>unread := r1\<rparr>) = (Inr f, c')"
    using assms p mgc n by (simp add: read_frame_def Let_def)
  have cb: "?n \<noteq> 0 \<Longrightarrow> length (body f) = unat ?n \<and> code f = p ! 4"
    using rcb unfolding read_checked_body_Inr_iff by blast
  have flen: "length (body f) = unat ?n" and fcode: "code f = p ! 4"
    using len cb by blast+
  have pre: "p = frame_prefix mgc f"
    using frame_prefix_unique [OF lp, of f] fcode mgc flen by simp
  have ok: "frame_ok f" using n flen
    by (simp add: frame_ok_def MAX_BODY_SIZE_def word_le_nat_alt not_less)
  have lm: "length mgc = 4" using mgc lp by auto
  show ?thesis
  proof (cases "?n = 0")
    case True
    with len pre up lm ok show ?thesis by (simp add: encode_prefix capture_def)
  next
    case False
    with flen have "body f \<noteq> []" by (auto simp: unsigned_eq_0_iff)
    with rcb [OF False] pre up lm ok show ?thesis
      by (auto simp: encode_prefix read_checked_body_Inr_iff capture_def)
  qed
qed

subsection \<open>The buffer decoder\<close>

lemma nth_data: "9 \<le> length (data :: bytes) \<Longrightarrow>
    take 9 data ! 4 = data ! 4 \<and> take 9 data ! 5 = data ! 5 \<and> take 9 data ! 6 = data ! 6
    \<and> take 9 data ! 7 = data ! 7 \<and> take 9 data ! 8 = data ! 8 \<and> take 4 (take 9 data) = take 4 data"
  by simp

lemma read_checked_body_fst:
  assumes "9 \<le> length data"
  shows "fst (read_checked_body blake peer tap (take 9 data) n (c\<lparr>unread := drop 9 data\<rparr>)) =
    (if length data < 13 + unat n then Inl UnexpectedEof
     else if take 4 (blake (take (unat n) (drop 13 data))) \<noteq> take 4 (drop 9 data) then Inl InvalidData
     else Inr \<lparr>code = data ! 4, body = take (unat n) (drop 13 data)\<rparr>)"
proof (cases "length data < 13")
  case True
  then have "length data - 9 < 4" by arith
  with True show ?thesis by (simp add: read_checked_body_def read_exact_def)
next
  case False
  then have "read_exact 4 (drop 9 data) = Inr (take 4 (drop 9 data), drop 13 data)"
    by (simp add: read_exact_def)
  moreover have "length (drop 13 data) < unat n \<longleftrightarrow> length data < 13 + unat n" using False by auto
  ultimately show ?thesis
    using False assms by (simp add: read_checked_body_def read_exact_def)
qed

lemma read_frame_fst:
  "decode blake mgc (unread c) = Inr f \<longleftrightarrow> fst (read_frame blake mgc peer tap c) = Inr f"
proof (cases "length (unread c) < 9")
  case True
  then show ?thesis by (simp add: decode_def read_frame_def read_exact_def MIN_HEADER_SIZE_def)
next
  case False
  then have "read_exact 9 (unread c) = Inr (take 9 (unread c), drop 9 (unread c))"
    by (simp add: read_exact_def)
  with False show ?thesis
    using nth_data [of "unread c"] read_checked_body_fst [of "unread c" blake peer tap _ c]
    by (simp add: decode_def read_frame_def Let_def MIN_HEADER_SIZE_def HEADER_SIZE_def)
qed

lemma decode_iff:
  assumes "length mgc = 4" and "blake_32 blake"
  shows "decode blake mgc data = Inr f \<longleftrightarrow> frame_ok f \<and> (\<exists>rest. data = encode blake mgc f @ rest)"
proof -
  let ?c = "\<lparr>unread = data, banned = blacklist_new, captured = []\<rparr>"
  let ?p = "\<lparr>ip = IpV4 [], port = 0\<rparr> :: socket_addr"
  have "decode blake mgc data = Inr f \<longleftrightarrow> (\<exists>c'. read_frame blake mgc ?p False ?c = (Inr f, c'))"
    using read_frame_fst [of blake mgc ?c f ?p False] by (cases "read_frame blake mgc ?p False ?c") simp
  also have "\<dots> \<longleftrightarrow> frame_ok f \<and> (\<exists>rest. data = encode blake mgc f @ rest)"
    using read_frame_accepts [of blake mgc ?p False ?c f]
      read_frame_encode [OF assms(1) _ assms(2), of f ?c _ ?p False] by fastforce
  finally show ?thesis .
qed

lemma read_checked_body_err:
  "read_checked_body blake peer tap p n c = (Inl e, c') \<Longrightarrow>
     e \<noteq> ConnectionReset \<and> captured c' = captured c \<and> banned c' = (if e = InvalidData then record_permanent peer (banned c) else banned c)"
  by (auto simp: read_checked_body_def ban_def read_exact_def split: sum.splits if_split_asm)

lemma read_frame_err:
  "read_frame blake mgc peer tap c = (Inl e, c') \<Longrightarrow>
     e \<noteq> ConnectionReset \<and> captured c' = captured c \<and> banned c' = (if e = InvalidData then record_permanent peer (banned c) else banned c)"
  by (auto simp: read_frame_def ban_def read_exact_def Let_def
      split: sum.splits if_split_asm dest!: read_checked_body_err)

lemma read_frames_encode:
  assumes "length mgc = 4" and "blake_32 blake" and "list_all frame_ok fs"
    and "unread c = concat (map (encode blake mgc) fs) @ rest"
  shows "read_frames (length fs) blake mgc peer tap c =
    (Inr fs, c\<lparr>unread := rest,
       captured := captured c @ (if tap then map (\<lambda>f. (peer, encode blake mgc f)) fs else [])\<rparr>)"
  using assms(3,4)
proof (induction fs arbitrary: c)
  case (Cons f fs)
  let ?c1 = "capture tap peer (encode blake mgc f) (c\<lparr>unread := concat (map (encode blake mgc) fs) @ rest\<rparr>)"
  have "read_frame blake mgc peer tap c = (Inr f, ?c1)"
    using Cons.prems by (intro read_frame_encode [OF assms(1) _ assms(2)]) simp_all
  moreover have "unread ?c1 = concat (map (encode blake mgc) fs) @ rest" by (simp add: capture_def)
  moreover have "list_all frame_ok fs" using Cons.prems by simp
  ultimately show ?case
    using Cons.IH [of ?c1] by (simp add: capture_def)
qed simp

section \<open>Properties\<close>

text \<open>(C10) A buffer decodes to a frame exactly when it starts with the encoding of that frame and
  the body is within the size limit; so encoding round-trips (with any bytes behind it), and no
  other bytes, in particular no second encoding, are accepted for that frame. BLAKE2b-256 is a
  parameter of which only the digest length is used.\<close>

theorem decode_exactly_encodings:
  assumes "length mgc = 4" and "blake_32 blake"
  shows "decode blake mgc data = Inr f \<longleftrightarrow>
    length (body f) \<le> unat MAX_BODY_SIZE \<and> (\<exists>rest. data = encode blake mgc f @ rest)"
  using decode_iff [OF assms] by (simp add: frame_ok_def MAX_BODY_SIZE_def)

theorem decode_exactly_encodings_witness:
  "length (magic Mainnet) = 4 \<and> blake_32 (\<lambda>b. replicate 32 7) \<and>
   decode (\<lambda>b. replicate 32 7) (magic Mainnet)
     (encode (\<lambda>b. replicate 32 7) (magic Mainnet) \<lparr>code = 1, body = [5, 6]\<rparr> @ [9])
   = Inr \<lparr>code = 1, body = [5, 6]\<rparr>"
proof -
  have *: "length (magic Mainnet) = 4" "blake_32 (\<lambda>b. replicate 32 7)"
    by (simp_all add: blake_32_def)
  show ?thesis
    using * decode_exactly_encodings [OF *, of _ "\<lparr>code = 1, body = [5, 6]\<rparr>"]
    by (auto simp: MAX_BODY_SIZE_def)
qed

text \<open>(C15) The streaming reader refines the buffer decoder, and its effects are exactly: on
  success the bytes consumed are the encoding of the frame, the blacklist is unchanged and the tap
  holds that one encoding; at end of stream nothing is banned or captured; on any rejected frame
  (bad magic, oversized, bad checksum) the peer's address, and no other, is added to the
  blacklist and nothing is captured.\<close>

theorem read_frame_refines_decode:
  "(decode blake mgc (unread c) = Inr f \<longleftrightarrow> fst (read_frame blake mgc peer tap c) = Inr f) \<and>
   (case read_frame blake mgc peer tap c of
      (Inr g, c') \<Rightarrow> unread c = encode blake mgc g @ unread c' \<and> banned c' = banned c
        \<and> captured c' = captured c @ (if tap then [(peer, encode blake mgc g)] else [])
    | (Inl ConnectionReset, c') \<Rightarrow> False
    | (Inl UnexpectedEof, c') \<Rightarrow> banned c' = banned c \<and> captured c' = captured c
    | (Inl InvalidData, c') \<Rightarrow> captured c' = captured c
        \<and> (\<forall>a. blacklist_contains (banned c') a = (a = peer \<or> blacklist_contains (banned c) a)))"
proof -
  obtain r c' where r: "read_frame blake mgc peer tap c = (r, c')" by (cases "read_frame blake mgc peer tap c")
  show ?thesis
    using read_frame_fst [of blake mgc c f peer tap] r
      read_frame_accepts [of blake mgc peer tap c _ c'] read_frame_err [of blake mgc peer tap c _ c']
    by (auto simp: blacklist_contains_def split: sum.split io_error.split)
qed

text \<open>(C16) A connection carrying the encodings of well-sized frames back to back is read frame by
  frame to exactly those frames: the reader stays aligned, leaves the bytes after them unread, bans
  nobody, and the tap captures each frame's bytes in order.\<close>

theorem read_frames_stays_aligned:
  assumes "length mgc = 4" and "blake_32 blake" and "list_all frame_ok fs"
    and "unread c = concat (map (encode blake mgc) fs) @ rest"
  shows "read_frames (length fs) blake mgc peer tap c =
    (Inr fs, c\<lparr>unread := rest,
       captured := captured c @ (if tap then map (\<lambda>f. (peer, encode blake mgc f)) fs else [])\<rparr>)"
  by (rule read_frames_encode [OF assms])

theorem read_frames_stays_aligned_witness:
  "let blake = (\<lambda>b. replicate 32 7); m = magic Testnet; peer = \<lparr>ip = IpV4 [1, 2, 3, 4], port = 9030\<rparr>;
       fs = [\<lparr>code = 1, body = [5, 6]\<rparr>, \<lparr>code = 2, body = []\<rparr>];
       c = \<lparr>unread = concat (map (encode blake m) fs) @ [8], banned = blacklist_new, captured = []\<rparr>
   in fst (read_frames 2 blake m peer True c) = Inr fs
      \<and> unread (snd (read_frames 2 blake m peer True c)) = [8]"
  using read_frames_stays_aligned [of "magic Testnet" "\<lambda>b. replicate 32 7"
      "[\<lparr>code = 1, body = [5, 6]\<rparr>, \<lparr>code = 2, body = []\<rparr>]"
      "\<lparr>unread = concat (map (encode (\<lambda>b. replicate 32 7) (magic Testnet))
          [\<lparr>code = 1, body = [5, 6]\<rparr>, \<lparr>code = 2, body = []\<rparr>]) @ [8],
        banned = blacklist_new, captured = []\<rparr>" "[8]" "\<lparr>ip = IpV4 [1, 2, 3, 4], port = 9030\<rparr>" True]
  by (simp add: Let_def blake_32_def frame_ok_def numeral_2_eq_2 del: read_frames.simps)

end
