(* ===== verification/Handshake.thy ===== *)
theory Handshake
  imports Vlq Frame
begin

text \<open>
  The handshake of \<open>p2p/src/transport/handshake.rs\<close>: building the bytes from the node's
  configuration, parsing a peer's specification, measuring a handshake on a byte stream and the
  version/network check. The clock (milliseconds) and the random session id are arguments of
  \<open>build\<close>. A \<open>debug_assert\<close> of the source is not part of the release code and becomes a
  well-formedness condition of the theorems.
\<close>

section \<open>Data\<close>

text \<open>\<open>Version\<close> derives its order field by field.\<close>

datatype version = Version (major: u8) (minor: u8) (patch: u8)

instantiation version :: linorder
begin

definition less_eq_version :: "version \<Rightarrow> version \<Rightarrow> bool" where
  "less_eq_version a b \<longleftrightarrow> major a < major b \<or> major a = major b \<and>
     (minor a < minor b \<or> minor a = minor b \<and> patch a \<le> patch b)"

definition less_version :: "version \<Rightarrow> version \<Rightarrow> bool" where
  "less_version a b \<longleftrightarrow> major a < major b \<or> major a = major b \<and>
     (minor a < minor b \<or> minor a = minor b \<and> patch a < patch b)"

instance
  by standard (auto simp: less_eq_version_def less_version_def version.expand)

end

definition EIP37_MIN :: version where
  "EIP37_MIN = Version 4 0 100"

datatype proxy_mode = Full | Light

record mode_config =
  state_type_id :: u8
  verifying :: bool
  blocks_to_keep :: i32

definition mode_config_default :: mode_config where
  "mode_config_default = \<lparr>state_type_id = 0, verifying = True, blocks_to_keep = - 1\<rparr>"

record handshake_config =
  agent_name :: bytes
  peer_name :: bytes
  hs_version :: version
  hs_network :: network
  hs_mode :: proxy_mode
  declared_address :: "socket_addr option"
  hs_mode_config :: mode_config

record feature =
  f_id :: u8
  f_body :: bytes

record peer_spec =
  spec_agent :: bytes
  spec_version :: version
  spec_name :: bytes
  spec_address :: "socket_addr option"
  spec_features :: "feature list"

definition FEATURE_MODE :: u8 where
  "FEATURE_MODE = 16"

definition FEATURE_SESSION :: u8 where
  "FEATURE_SESSION = 3"

section \<open>Building\<close>

fun write_declared_address :: "socket_addr option \<Rightarrow> bytes" where
  "write_declared_address None = [0x00]"
| "write_declared_address (Some addr) =
     [0x01] @ [of_nat (length (octets (ip addr)) + 4)] @ octets (ip addr)
       @ write_vlq (ucast (port addr))"

definition write_feature :: "feature \<Rightarrow> bytes" where
  "write_feature f = [f_id f] @ write_vlq (of_nat (length (f_body f))) @ f_body f"

definition serialize_peer_entry :: "peer_spec \<Rightarrow> bytes" where
  "serialize_peer_entry spec =
     write_short_string (spec_agent spec)
     @ [major (spec_version spec), minor (spec_version spec), patch (spec_version spec)]
     @ write_short_string (spec_name spec)
     @ write_declared_address (spec_address spec)
     @ [of_nat (length (spec_features spec))]
     @ concat (map write_feature (spec_features spec))"

definition build_mode_body :: "handshake_config \<Rightarrow> bytes" where
  "build_mode_body config =
     (let mc = hs_mode_config config in
      [state_type_id mc] @ [if verifying mc then 0x01 else 0x00]
      @ (case hs_mode config of
           Full \<Rightarrow> [0x00]
         | Light \<Rightarrow> [0x01] @ write_vlq (zigzag_encode_i64 1))
      @ write_vlq (zigzag_encode_i64 (scast (blocks_to_keep mc))))"

definition build_session_body :: "network \<Rightarrow> u64 \<Rightarrow> bytes" where
  "build_session_body net session_id = magic net @ write_vlq (zigzag_encode_i64 session_id)"

definition write_peer_entry_from_config :: "handshake_config \<Rightarrow> u64 \<Rightarrow> bytes" where
  "write_peer_entry_from_config config session_id =
     write_short_string (agent_name config)
     @ [major (hs_version config), minor (hs_version config), patch (hs_version config)]
     @ write_short_string (peer_name config)
     @ write_declared_address (declared_address config)
     @ [2]
     @ [FEATURE_MODE]
     @ (let mode_body = build_mode_body config in write_vlq (of_nat (length mode_body)) @ mode_body)
     @ [FEATURE_SESSION]
     @ (let session_body = build_session_body (hs_network config) session_id in
        write_vlq (of_nat (length session_body)) @ session_body)"

definition build :: "handshake_config \<Rightarrow> u64 \<Rightarrow> u64 \<Rightarrow> bytes" where
  "build config now session_id = write_vlq now @ write_peer_entry_from_config config session_id"

section \<open>Parsing\<close>

definition parse_address :: "(io_error, socket_addr option) reader" where
  "parse_address = rd_bind read_u8 (\<lambda>addr_len.
     let ip_len = unat addr_len - 4 in
     rd_bind (read_exact ip_len) (\<lambda>ip_bytes.
     rd_bind read_vlq (\<lambda>p.
     rd_return
       (if ip_len = 4 then Some \<lparr>ip = IpV4 ip_bytes, port = ucast p\<rparr>
        else if ip_len = 16 then Some \<lparr>ip = IpV6 ip_bytes, port = ucast p\<rparr>
        else None))))"

definition parse_feature :: "(io_error, feature) reader" where
  "parse_feature = rd_bind read_u8 (\<lambda>fid.
     rd_bind read_vlq_length (\<lambda>flen.
     rd_bind (read_exact flen) (\<lambda>fbody.
     rd_return \<lparr>f_id = fid, f_body = fbody\<rparr>)))"

definition parse_features :: "(io_error, feature list) reader" where
  "parse_features = rd_bind read_u8 (\<lambda>feat_count. rd_many (unat feat_count) parse_feature)"

definition parse_peer_entry :: "(io_error, peer_spec) reader" where
  "parse_peer_entry =
     rd_bind read_short_string (\<lambda>agent.
     rd_bind (read_exact 3) (\<lambda>ver.
     rd_bind read_short_string (\<lambda>name.
     rd_bind read_u8 (\<lambda>has_addr.
     rd_bind (if has_addr \<noteq> 0 then parse_address else rd_return None) (\<lambda>address.
     rd_bind parse_features (\<lambda>features.
     rd_return \<lparr>spec_agent = agent, spec_version = Version (ver ! 0) (ver ! 1) (ver ! 2),
       spec_name = name, spec_address = address, spec_features = features\<rparr>))))))"

definition parse_cursor :: "(io_error, peer_spec) reader" where
  "parse_cursor =
     rd_bind read_vlq (\<lambda>timestamp.
     rd_bind read_short_string (\<lambda>agent.
     rd_bind (read_exact 3) (\<lambda>ver.
     rd_bind read_short_string (\<lambda>name.
     rd_bind read_u8 (\<lambda>has_addr.
     rd_bind (if has_addr \<noteq> 0 then parse_address else rd_return None) (\<lambda>address.
     rd_bind parse_features (\<lambda>features.
     rd_return \<lparr>spec_agent = agent, spec_version = Version (ver ! 0) (ver ! 1) (ver ! 2),
       spec_name = name, spec_address = address, spec_features = features\<rparr>)))))))"

definition parse :: "bytes \<Rightarrow> io_error + peer_spec" where
  "parse = rd_run parse_cursor"

definition validate_peer :: "peer_spec \<Rightarrow> network \<Rightarrow> string + unit" where
  "validate_peer spec net =
     (if spec_version spec < EIP37_MIN then Inl ''Peer version is below minimum (EIP-37)''
      else case find (\<lambda>f. f_id f = FEATURE_SESSION) (spec_features spec) of
        None \<Rightarrow> Inr ()
      | Some session \<Rightarrow>
          if length (f_body session) \<ge> 4 then
            (if take 4 (f_body session) \<noteq> magic net then Inl ''Session magic mismatch'' else Inr ())
          else Inr ())"

definition rest_api_url :: "peer_spec \<Rightarrow> bytes option" where
  "rest_api_url spec =
     Option.bind (find (\<lambda>f. f_id f = 4) (spec_features spec)) (\<lambda>f.
       case f_body f of
         [] \<Rightarrow> None
       | l # r \<Rightarrow>
           let len = unat l in
           if length (f_body f) < 1 + len then None
           else if valid_utf8 (take len r) then Some (take len r) else None)"

definition measure_feature :: "(io_error, unit) reader" where
  "measure_feature = rd_bind read_u8 (\<lambda>fid.
     rd_bind read_vlq_length (\<lambda>flen.
     rd_bind (read_exact flen) (\<lambda>fbody. rd_return ())))"

definition measure_address :: "(io_error, unit) reader" where
  "measure_address = rd_bind read_u8 (\<lambda>addr_len.
     let ip_len = unat addr_len - 4 in
     rd_bind (read_exact ip_len) (\<lambda>ip_bytes.
     rd_bind read_vlq (\<lambda>p. rd_return ())))"

definition measure_cursor :: "(io_error, unit) reader" where
  "measure_cursor =
     rd_bind read_vlq (\<lambda>timestamp.
     rd_bind read_short_string (\<lambda>agent.
     rd_bind (read_exact 3) (\<lambda>ver.
     rd_bind read_short_string (\<lambda>name.
     rd_bind read_u8 (\<lambda>has_addr.
     rd_bind (if has_addr \<noteq> 0 then measure_address else rd_return ()) (\<lambda>_.
     rd_bind read_u8 (\<lambda>feat_count.
     rd_bind (rd_many (unat feat_count) measure_feature) (\<lambda>_.
     rd_return ()))))))))"

definition measure_size :: "bytes \<Rightarrow> io_error + nat" where
  "measure_size data = and_then (measure_cursor data) (\<lambda>(_, unread). Inr (length data - length unread))"

section \<open>Connecting\<close>

text \<open>\<open>read_handshake\<close> of \<open>p2p/src/transport/connection.rs\<close>: one byte at a time from the
  stream until the buffer parses. It returns the bytes it left in the stream.\<close>

definition HANDSHAKE_MAX_SIZE :: nat where
  "HANDSHAKE_MAX_SIZE = 8192"

fun read_handshake_loop :: "bytes \<Rightarrow> bytes \<Rightarrow> io_error + peer_spec \<times> nat \<times> bytes" where
  "read_handshake_loop buf [] = Inl (if buf = [] then ConnectionReset else UnexpectedEof)"
| "read_handshake_loop buf (byte # stream) =
     (let buf' = buf @ [byte] in
      if length buf' > HANDSHAKE_MAX_SIZE then Inl InvalidData
      else case parse buf' of
        Inr spec \<Rightarrow> Inr (spec, length buf', stream)
      | Inl e \<Rightarrow> if e = UnexpectedEof then read_handshake_loop buf' stream else Inl e)"

definition read_handshake :: "bytes \<Rightarrow> io_error + peer_spec \<times> nat \<times> bytes" where
  "read_handshake stream = read_handshake_loop [] stream"

text \<open>The bytes written to the socket and the two handshake byte counters; the timeout of 30
  seconds around \<open>read_handshake\<close> is left out (it can only turn a result into an error).\<close>

record hs_io =
  sent :: bytes
  handshake_out :: u64
  handshake_in :: u64

definition send_handshake :: "bytes \<Rightarrow> hs_io \<Rightarrow> hs_io" where
  "send_handshake hs io = io\<lparr>sent := sent io @ hs,
     handshake_out := handshake_out io + of_nat (length hs)\<rparr>"

definition outbound ::
  "handshake_config \<Rightarrow> u64 \<Rightarrow> u64 \<Rightarrow> bytes \<Rightarrow> hs_io \<Rightarrow> (io_error + peer_spec \<times> bytes) \<times> hs_io" where
  "outbound config now session_id stream io =
     (let io1 = send_handshake (build config now session_id) io in
      case read_handshake stream of
        Inl e \<Rightarrow> (Inl e, io1)
      | Inr (spec, n, stream') \<Rightarrow>
          let io2 = io1\<lparr>handshake_in := handshake_in io1 + of_nat n\<rparr> in
          (case validate_peer spec (hs_network config) of
             Inl e \<Rightarrow> (Inl InvalidData, io2)
           | Inr _ \<Rightarrow> (Inr (spec, stream'), io2)))"

definition inbound ::
  "handshake_config \<Rightarrow> u64 \<Rightarrow> u64 \<Rightarrow> bytes \<Rightarrow> hs_io \<Rightarrow> (io_error + peer_spec \<times> bytes) \<times> hs_io" where
  "inbound config now session_id stream io =
     (case read_handshake stream of
        Inl e \<Rightarrow> (Inl e, io)
      | Inr (spec, n, stream') \<Rightarrow>
          let io1 = io\<lparr>handshake_in := handshake_in io + of_nat n\<rparr> in
          (case validate_peer spec (hs_network config) of
             Inl e \<Rightarrow> (Inl InvalidData, io1)
           | Inr _ \<Rightarrow> (Inr (spec, stream'), send_handshake (build config now session_id) io1)))"

section \<open>The peer entry codec\<close>

definition address_ok :: "socket_addr option \<Rightarrow> bool" where
  "address_ok a \<longleftrightarrow> (case a of None \<Rightarrow> True | Some x \<Rightarrow> wf_ip (ip x))"

definition feature_ok :: "feature \<Rightarrow> bool" where
  "feature_ok f \<longleftrightarrow> vlq_len_ok (length (f_body f))"

definition spec_ok :: "peer_spec \<Rightarrow> bool" where
  "spec_ok s \<longleftrightarrow> short_string_ok (spec_agent s) \<and> short_string_ok (spec_name s)
     \<and> address_ok (spec_address s) \<and> length (spec_features s) \<le> 255
     \<and> (\<forall>f \<in> set (spec_features s). feature_ok f)"

lemma ucast_ucast_port [simp]: "ucast (ucast (p :: u16) :: u64) = p"
  by (rule bit_word_eqI) (simp add: bit_simps)

lemma octets_len_byte: "wf_ip i \<Longrightarrow> unat (of_nat (length (octets i)) + 4 :: u8) - 4 = length (octets i)"
  by (cases i) simp_all

lemma wf_ip_octets: "wf_ip i \<Longrightarrow>
    (length (octets i) = 4 \<and> i = IpV4 (octets i)) \<or> (length (octets i) = 16 \<and> i = IpV6 (octets i))"
  by (cases i) simp_all

lemma parse_address_write [codec_simps]:
  assumes "wf_ip (ip a)"
  shows "parse_address ((of_nat (length (octets (ip a)) + 4)) # octets (ip a)
    @ write_vlq (ucast (port a)) @ rest) = Inr (Some a, rest)"
  using assms octets_len_byte [OF assms] wf_ip_octets [OF assms]
  by (auto simp: parse_address_def rd_bind_def Let_def read_exact_append vlq.get_put)

interpretation feature_codec: wire_codec write_feature parse_feature feature_ok
  by unfold_locales
    (simp add: write_feature_def parse_feature_def feature_ok_def rd_bind_def read_exact_append
      vlq_length.get_put)

lemma parse_features_write [codec_simps]:
  "length fs \<le> 255 \<Longrightarrow> \<forall>f \<in> set fs. feature_ok f \<Longrightarrow>
     parse_features (of_nat (length fs) # concat (map write_feature fs) @ rest) = Inr (fs, rest)"
  by (simp add: parse_features_def rd_bind_def unat_of_nat feature_codec.get_many_put)

lemma read_version [codec_simps]:
  "read_exact 3 (a # b # c # rest) = Inr ([a, b, c], rest)"
  by (simp add: read_exact_def numeral_3_eq_3)

interpretation peer_entry: wire_codec serialize_peer_entry parse_peer_entry spec_ok
proof
  fix s rest
  assume "spec_ok s"
  then show "parse_peer_entry (serialize_peer_entry s @ rest) = Inr (s, rest)"
    by (cases "spec_address s")
      (simp_all add: spec_ok_def address_ok_def serialize_peer_entry_def parse_peer_entry_def
        rd_bind_def short_string.get_put read_version parse_features_write parse_address_write
        del: of_nat_add of_nat_numeral)
qed

lemma parse_cursor_eq: "parse_cursor = rd_bind read_vlq (\<lambda>_. parse_peer_entry)"
  by (simp add: parse_cursor_def parse_peer_entry_def)

lemma prefix_reader_address [intro!]: "prefix_reader parse_address"
  unfolding parse_address_def Let_def by (intro prefix_reader_bind) auto

lemma prefix_reader_feature [intro!]: "prefix_reader parse_feature"
  unfolding parse_feature_def by (intro prefix_reader_bind) auto

lemma prefix_reader_peer_entry [intro!]: "prefix_reader parse_peer_entry"
  unfolding parse_peer_entry_def parse_features_def
  by (intro prefix_reader_bind prefix_reader_if prefix_reader_many) auto

lemma prefix_reader_parse [intro!]: "prefix_reader parse_cursor"
  unfolding parse_cursor_eq by (intro prefix_reader_bind) auto

section \<open>Measuring\<close>

definition forget :: "(io_error, 'a) reader \<Rightarrow> (io_error, unit) reader" where
  "forget p = rd_bind p (\<lambda>_. rd_return ())"

lemma rd_bind_assoc: "rd_bind (rd_bind p f) g = rd_bind p (\<lambda>a. rd_bind (f a) g)"
proof (rule ext)
  show "rd_bind (rd_bind p f) g r = rd_bind p (\<lambda>a. rd_bind (f a) g) r" for r
    by (cases "p r") (auto simp: rd_bind_def)
qed

lemma rd_bind_return [simp]: "rd_bind (rd_return a) f = f a"
  by (simp add: rd_bind_def fun_eq_iff)

lemma forget_many: "forget (rd_many n p) = forget (rd_many n (forget p))"
proof (induction n)
  case (Suc n)
  have "forget (rd_many (Suc n) q) = rd_bind q (\<lambda>_. forget (rd_many n q))"
    for q :: "(io_error, 'b) reader"
    by (simp add: forget_def rd_bind_assoc del: rd_return_run)
  with Suc show ?case by (simp add: forget_def rd_bind_assoc del: rd_return_run)
qed (simp add: forget_def del: rd_return_run)

lemma forget_feature: "forget parse_feature = measure_feature"
  by (simp add: forget_def parse_feature_def measure_feature_def rd_bind_assoc del: rd_return_run)

lemma forget_address: "forget parse_address = measure_address"
  by (simp add: forget_def parse_address_def measure_address_def rd_bind_assoc Let_def del: rd_return_run)

lemma measure_cursor_eq: "measure_cursor = forget parse_cursor"
proof -
  have addr: "rd_bind (if h then parse_address else rd_return None) (\<lambda>_. k)
      = rd_bind (if h then measure_address else rd_return ()) (\<lambda>_. k)"
    for h and k :: "(io_error, unit) reader"
    by (simp add: forget_def rd_bind_assoc flip: forget_address)
  have feats: "rd_bind (rd_many n measure_feature) (\<lambda>_. rd_return ())
      = rd_bind (rd_many n parse_feature) (\<lambda>_. rd_return ())" for n
    using forget_many [of n parse_feature] by (simp add: forget_feature) (simp add: forget_def)
  show ?thesis
    by (simp add: measure_cursor_def parse_cursor_def parse_features_def forget_def rd_bind_assoc
        addr feats del: rd_return_run)
qed

lemma measure_size_iff:
  "measure_size data = Inr n \<longleftrightarrow>
     (\<exists>spec rest. parse_cursor data = Inr (spec, rest) \<and> n = length data - length rest)"
  by (auto simp: measure_size_def measure_cursor_eq forget_def rd_bind_def and_then_Inr_iff)

lemma parse_iff: "parse data = Inr spec \<longleftrightarrow> (\<exists>rest. parse_cursor data = Inr (spec, rest))"
  by (auto simp: parse_def rd_run_def and_then_Inr_iff)

lemma parse_eof: "parse_cursor data = Inl e \<Longrightarrow> parse data = Inl e"
  by (simp add: parse_def rd_run_def)

text \<open>The bytes a handshake occupies: nothing behind them matters, and none of them can be missing.\<close>

lemma parse_cursor_used:
  assumes "parse_cursor data = Inr (spec, rest)"
  obtains used where "data = used @ rest" and "used \<noteq> []" and "\<And>r. parse (used @ r) = Inr spec"
    and "\<And>u v. used = u @ v \<Longrightarrow> v \<noteq> [] \<Longrightarrow> parse u = Inl UnexpectedEof"
proof -
  from prefix_reader_parse assms obtain used where u: "data = used @ rest"
    "\<And>r. parse_cursor (used @ r) = Inr (spec, r)"
    "\<And>u v. used = u @ v \<Longrightarrow> v \<noteq> [] \<Longrightarrow> parse_cursor u = Inl UnexpectedEof"
    by (rule prefix_readerE) blast
  have "parse_cursor [] \<noteq> Inr (spec, [])"
    by (simp add: parse_cursor_eq rd_bind_def read_vlq_def)
  with u(2) [of "[]"] have "used \<noteq> []" by auto
  with u show thesis using that by (auto simp: parse_iff intro: parse_eof)
qed

lemma read_handshake_loop_exact:
  assumes "used = buf @ x" and "x \<noteq> []" and "length used \<le> HANDSHAKE_MAX_SIZE"
    and "parse used = Inr spec"
    and "\<And>u v. used = u @ v \<Longrightarrow> v \<noteq> [] \<Longrightarrow> parse u = Inl UnexpectedEof"
  shows "read_handshake_loop buf (x @ rest) = Inr (spec, length used, rest)"
  using assms
proof (induction x arbitrary: buf)
  case (Cons b x)
  show ?case
  proof (cases "x = []")
    case True
    with Cons.prems show ?thesis by simp
  next
    case False
    with Cons.prems have "parse (buf @ [b]) = Inl UnexpectedEof" by simp
    moreover have "read_handshake_loop (buf @ [b]) (x @ rest) = Inr (spec, length used, rest)"
      using Cons.prems(1,3,4) by (intro Cons.IH [OF _ False _ _ Cons.prems(5)]) simp_all
    ultimately show ?thesis using Cons.prems(1,3) by (simp add: Let_def)
  qed
qed simp

lemma read_handshake_exact:
  assumes "parse_cursor stream = Inr (spec, rest)" and "length stream - length rest \<le> HANDSHAKE_MAX_SIZE"
  shows "read_handshake stream = Inr (spec, length stream - length rest, rest)"
proof -
  from assms(1) obtain used where u: "stream = used @ rest" "used \<noteq> []" "\<And>r. parse (used @ r) = Inr spec"
    "\<And>u v. used = u @ v \<Longrightarrow> v \<noteq> [] \<Longrightarrow> parse u = Inl UnexpectedEof"
    by (rule parse_cursor_used) blast
  have "read_handshake_loop [] (used @ rest) = Inr (spec, length used, rest)"
    using u(2,4) u(3) [of "[]"] assms(2) u(1) by (intro read_handshake_loop_exact) simp_all
  with u(1) show ?thesis by (simp add: read_handshake_def)
qed

section \<open>Building and connecting\<close>

definition spec_of :: "handshake_config \<Rightarrow> u64 \<Rightarrow> peer_spec" where
  "spec_of config session_id = \<lparr>spec_agent = agent_name config, spec_version = hs_version config,
     spec_name = peer_name config, spec_address = declared_address config,
     spec_features = [\<lparr>f_id = FEATURE_MODE, f_body = build_mode_body config\<rparr>,
       \<lparr>f_id = FEATURE_SESSION, f_body = build_session_body (hs_network config) session_id\<rparr>]\<rparr>"

definition config_ok :: "handshake_config \<Rightarrow> bool" where
  "config_ok config \<longleftrightarrow> short_string_ok (agent_name config) \<and> short_string_ok (peer_name config)
     \<and> address_ok (declared_address config)"

lemma length_mode_body: "length (build_mode_body config) \<le> 23"
  using write_vlq_length [of "zigzag_encode_i64 1"]
    write_vlq_length [of "zigzag_encode_i64 (scast (blocks_to_keep (hs_mode_config config)))"]
  by (auto simp: build_mode_body_def Let_def split: proxy_mode.split)

lemma length_session_body:
  "4 \<le> length (build_session_body net sid) \<and> length (build_session_body net sid) \<le> 14"
  using write_vlq_length [of "zigzag_encode_i64 sid"] by (simp add: build_session_body_def)

lemma write_peer_entry_from_config_eq:
  "write_peer_entry_from_config config sid = serialize_peer_entry (spec_of config sid)"
  by (simp add: write_peer_entry_from_config_def serialize_peer_entry_def spec_of_def Let_def
      write_feature_def)

lemma spec_of_ok: "config_ok config \<Longrightarrow> spec_ok (spec_of config sid)"
  using length_mode_body [of config] length_session_body [of "hs_network config" sid]
  by (auto simp: config_ok_def spec_ok_def spec_of_def feature_ok_def vlq_len_ok_def)

lemma parse_cursor_build:
  "config_ok config \<Longrightarrow> parse_cursor (build config now sid @ rest) = Inr (spec_of config sid, rest)"
  by (simp add: build_def write_peer_entry_from_config_eq parse_cursor_eq rd_bind_def vlq.get_put
      peer_entry.get_put spec_of_ok)

lemma length_declared_address: "address_ok a \<Longrightarrow> length (write_declared_address a) \<le> 28"
  using write_vlq_length [of "ucast (port (the a))"]
  by (cases a; cases "ip (the a)") (auto simp: address_ok_def)

lemma length_build:
  assumes "config_ok config"
  shows "length (build config now sid) \<le> 700"
proof -
  have "length (write_declared_address (declared_address config)) \<le> 28"
    using assms by (intro length_declared_address) (simp add: config_ok_def)
  then show ?thesis
    using assms length_mode_body [of config] length_session_body [of "hs_network config" sid]
      write_vlq_length [of now] write_vlq_length [of "of_nat (length (build_mode_body config))"]
      write_vlq_length [of "of_nat (length (build_session_body (hs_network config) sid))"]
    by (simp add: build_def write_peer_entry_from_config_def Let_def config_ok_def
        short_string_ok_def write_short_string_def)
qed

lemma read_handshake_build:
  assumes "config_ok config"
  shows "read_handshake (build config now sid @ rest)
    = Inr (spec_of config sid, length (build config now sid), rest)"
  using read_handshake_exact [OF parse_cursor_build [OF assms, of now sid rest]]
    length_build [OF assms, of now sid] by (simp add: HANDSHAKE_MAX_SIZE_def)

lemma validate_spec_of:
  "validate_peer (spec_of config sid) net = Inr ()
     \<longleftrightarrow> EIP37_MIN \<le> hs_version config \<and> magic net = magic (hs_network config)"
  using length_session_body [of "hs_network config" sid]
  by (auto simp: validate_peer_def spec_of_def FEATURE_MODE_def FEATURE_SESSION_def
      build_session_body_def not_less)

lemma magic_inj: "magic a = magic b \<longleftrightarrow> a = b"
  by (cases a; cases b) simp_all

section \<open>Properties\<close>

text \<open>(C18) Two nodes on the same network, both at least at the EIP-37 version, complete the
  handshake in both roles: each side obtains exactly the other's specification (agent, version,
  name, declared address, Mode and Session features), and the frames already behind the handshake
  on the stream are left unread, byte for byte.\<close>

theorem handshake_connects:
  assumes "config_ok a" and "config_ok b" and "hs_network a = hs_network b"
    and "EIP37_MIN \<le> hs_version a" and "EIP37_MIN \<le> hs_version b"
  shows "fst (outbound a t s (build b t' s' @ frames_b) io) = Inr (spec_of b s', frames_b)
    \<and> fst (inbound b t' s' (build a t s @ frames_a) io') = Inr (spec_of a s, frames_a)
    \<and> sent (snd (outbound a t s (build b t' s' @ frames_b) io)) = sent io @ build a t s
    \<and> sent (snd (inbound b t' s' (build a t s @ frames_a) io')) = sent io' @ build b t' s'"
  using assms validate_spec_of [of b s' "hs_network a"] validate_spec_of [of a s "hs_network b"]
  by (simp add: outbound_def inbound_def Let_def read_handshake_build send_handshake_def)

definition sample_config :: handshake_config where
  "sample_config = \<lparr>agent_name = [101, 114, 103, 111], peer_name = [110], hs_version = Version 6 0 1,
     hs_network = Mainnet, hs_mode = Light,
     declared_address = Some \<lparr>ip = IpV4 [203, 0, 113, 7], port = 9030\<rparr>,
     hs_mode_config = mode_config_default\<rparr>"

theorem handshake_connects_witness:
  "config_ok sample_config \<and>
   fst (outbound sample_config 1 2 (build sample_config 3 4 @ [1, 0, 2, 4])
     \<lparr>sent = [], handshake_out = 0, handshake_in = 0\<rparr>) = Inr (spec_of sample_config 4, [1, 0, 2, 4])"
proof -
  have ok: "config_ok sample_config"
    by (simp add: config_ok_def sample_config_def short_string_ok_def address_ok_def)
  moreover have "EIP37_MIN \<le> hs_version sample_config"
    by (simp add: sample_config_def EIP37_MIN_def less_eq_version_def)
  ultimately show ?thesis using handshake_connects [of sample_config sample_config] by simp
qed

text \<open>\<open>measure_size\<close> succeeds exactly when \<open>parse\<close> does, and then gives the size of the
  handshake: the specification is determined by that many bytes whatever follows them, and any
  shorter part is reported as incomplete (\<open>UnexpectedEof\<close>), never as another handshake and never
  as malformed.\<close>

theorem measure_size_exact:
  "((\<exists>n. measure_size data = Inr n) = (\<exists>spec. parse data = Inr spec)) \<and>
   (measure_size data = Inr n \<longrightarrow> n \<le> length data \<and>
      (\<exists>spec. \<forall>rest. parse (take n data @ rest) = Inr spec) \<and>
      (\<forall>m. m < n \<longrightarrow> parse (take m data) = Inl UnexpectedEof))"
proof (rule conjI)
  show "(\<exists>n. measure_size data = Inr n) = (\<exists>spec. parse data = Inr spec)"
    by (auto simp: measure_size_iff parse_iff)
  show "measure_size data = Inr n \<longrightarrow> n \<le> length data \<and>
      (\<exists>spec. \<forall>rest. parse (take n data @ rest) = Inr spec) \<and>
      (\<forall>m. m < n \<longrightarrow> parse (take m data) = Inl UnexpectedEof)"
  proof
    assume "measure_size data = Inr n"
    then obtain spec rest where "parse_cursor data = Inr (spec, rest)" "n = length data - length rest"
      by (auto simp: measure_size_iff)
    from this(1) obtain used where u: "data = used @ rest" "\<And>r. parse (used @ r) = Inr spec"
      "\<And>u v. used = u @ v \<Longrightarrow> v \<noteq> [] \<Longrightarrow> parse u = Inl UnexpectedEof"
      by (rule parse_cursor_used) blast
    have n: "n = length used" using u(1) \<open>n = length data - length rest\<close> by simp
    moreover have "parse (take m data) = Inl UnexpectedEof" if "m < n" for m
      using u(3) [of "take m used" "drop m used"] that n u(1) by simp
    ultimately show "n \<le> length data \<and> (\<exists>spec. \<forall>rest. parse (take n data @ rest) = Inr spec) \<and>
        (\<forall>m. m < n \<longrightarrow> parse (take m data) = Inl UnexpectedEof)"
      using u(1,2) by auto
  qed
qed

theorem measure_size_exact_witness:
  "measure_size [0, 0, 4, 0, 100, 0, 0, 0, 77] = Inr 8
   \<and> parse (take 7 [0, 0, 4, 0, 100, 0, 0, 0, 77]) = Inl UnexpectedEof"
proof -
  have "measure_size [0, 0, 4, 0, 100, 0, 0, 0, 77] = Inr 8" by code_simp
  moreover have "(7::nat) < 8" by simp
  ultimately show ?thesis using measure_size_exact [of "[0, 0, 4, 0, 100, 0, 0, 0, 77]" 8] by blast
qed


end
