(* ===== verification/Messages.thy ===== *)
theory Messages
  imports Handshake
begin

text \<open>
  Typed protocol messages, \<open>p2p/src/protocol/messages.rs\<close>: the message enum, its conversion from and
  to frames, and the bodies of \<open>Inv\<close>, \<open>ModifierRequest\<close>, \<open>ModifierResponse\<close> and \<open>Peers\<close>. A modifier
  id is the list of its 32 bytes. The parser of a \<open>ModifierResponse\<close> keeps the running total of
  declared payload sizes the source keeps, saturating at the width of \<open>usize\<close>.
\<close>

section \<open>Definitions\<close>

definition MAX_INV_OBJECTS :: nat where
  "MAX_INV_OBJECTS = 400"

definition GET_PEERS :: u8 where "GET_PEERS = 1"
definition PEERS :: u8 where "PEERS = 2"
definition MODIFIER_REQUEST :: u8 where "MODIFIER_REQUEST = 22"
definition MODIFIER_RESPONSE :: u8 where "MODIFIER_RESPONSE = 33"
definition INV :: u8 where "INV = 55"
definition SYNC_INFO :: u8 where "SYNC_INFO = 65"

lemmas message_codes = GET_PEERS_def PEERS_def MODIFIER_REQUEST_def MODIFIER_RESPONSE_def
  INV_def SYNC_INFO_def

datatype protocol_message =
    GetPeers
  | Peers bytes
  | Inv u8 "bytes list"
  | ModifierRequest u8 "bytes list"
  | ModifierResponse u8 "(bytes \<times> bytes) list"
  | SyncInfo bytes
  | Unknown u8 bytes

definition parse_inv_cursor :: "(io_error, u8 \<times> bytes list) reader" where
  "parse_inv_cursor = rd_bind read_u8 (\<lambda>type_byte.
     rd_bind read_vlq_length (\<lambda>count.
     if count > MAX_INV_OBJECTS then rd_fail InvalidData
     else rd_bind (rd_many count (read_exact 32)) (\<lambda>ids. rd_return (type_byte, ids))))"

definition parse_inv_body :: "bytes \<Rightarrow> io_error + u8 \<times> bytes list" where
  "parse_inv_body data = rd_run parse_inv_cursor data"

definition encode_inv_body :: "u8 \<Rightarrow> bytes list \<Rightarrow> bytes" where
  "encode_inv_body modifier_type ids =
     [modifier_type] @ write_vlq (of_nat (length ids)) @ concat ids"

definition usize_saturating_add :: "nat \<Rightarrow> nat \<Rightarrow> nat" where
  "usize_saturating_add a b = min (a + b) (2 ^ 64 - 1)"

text \<open>The loop over the declared entries; \<open>allocated\<close> is the payload declared so far.\<close>

fun parse_modifiers :: "nat \<Rightarrow> nat \<Rightarrow> nat \<Rightarrow> (io_error, (bytes \<times> bytes) list) reader" where
  "parse_modifiers body_size allocated 0 = rd_return []"
| "parse_modifiers body_size allocated (Suc count) =
     rd_bind (read_exact 32) (\<lambda>id.
     rd_bind read_vlq_length (\<lambda>data_len.
     let allocated' = usize_saturating_add allocated data_len in
     if allocated' > body_size then rd_fail InvalidData
     else rd_bind (read_exact data_len) (\<lambda>mod_data.
          rd_bind (parse_modifiers body_size allocated' count) (\<lambda>ms.
          rd_return ((id, mod_data) # ms)))))"

definition parse_modifier_response_cursor :: "nat \<Rightarrow> (io_error, u8 \<times> (bytes \<times> bytes) list) reader" where
  "parse_modifier_response_cursor body_size = rd_bind read_u8 (\<lambda>type_byte.
     rd_bind read_vlq_length (\<lambda>count.
     if count > MAX_INV_OBJECTS then rd_fail InvalidData
     else rd_bind (parse_modifiers body_size 0 count) (\<lambda>ms. rd_return (type_byte, ms))))"

definition parse_modifier_response_body :: "bytes \<Rightarrow> io_error + u8 \<times> (bytes \<times> bytes) list" where
  "parse_modifier_response_body data = rd_run (parse_modifier_response_cursor (length data)) data"

definition encode_modifier_response_body :: "u8 \<Rightarrow> (bytes \<times> bytes) list \<Rightarrow> bytes" where
  "encode_modifier_response_body modifier_type modifiers =
     [modifier_type] @ write_vlq (of_nat (length modifiers))
     @ concat (map (\<lambda>(id, data). id @ write_vlq (of_nat (length data)) @ data) modifiers)"

definition from_frame :: "frame \<Rightarrow> io_error + protocol_message" where
  "from_frame f =
     (if code f = GET_PEERS then Inr GetPeers
      else if code f = PEERS then Inr (Peers (body f))
      else if code f = INV then and_then (parse_inv_body (body f)) (\<lambda>(t, ids). Inr (Inv t ids))
      else if code f = MODIFIER_REQUEST then
        and_then (parse_inv_body (body f)) (\<lambda>(t, ids). Inr (ModifierRequest t ids))
      else if code f = MODIFIER_RESPONSE then
        and_then (parse_modifier_response_body (body f)) (\<lambda>(t, ms). Inr (ModifierResponse t ms))
      else if code f = SYNC_INFO then Inr (SyncInfo (body f))
      else Inr (Unknown (code f) (body f)))"

fun to_frame :: "protocol_message \<Rightarrow> frame" where
  "to_frame GetPeers = \<lparr>code = GET_PEERS, body = []\<rparr>"
| "to_frame (Peers b) = \<lparr>code = PEERS, body = b\<rparr>"
| "to_frame (Inv t ids) = \<lparr>code = INV, body = encode_inv_body t ids\<rparr>"
| "to_frame (ModifierRequest t ids) = \<lparr>code = MODIFIER_REQUEST, body = encode_inv_body t ids\<rparr>"
| "to_frame (ModifierResponse t ms) =
     \<lparr>code = MODIFIER_RESPONSE, body = encode_modifier_response_body t ms\<rparr>"
| "to_frame (SyncInfo b) = \<lparr>code = SYNC_INFO, body = b\<rparr>"
| "to_frame (Unknown c b) = \<lparr>code = c, body = b\<rparr>"

definition parse_peers_cursor :: "nat \<Rightarrow> (io_error, peer_spec list) reader" where
  "parse_peers_cursor cap = rd_bind read_vlq_length (\<lambda>count.
     if count > cap then rd_fail InvalidData else rd_many count parse_peer_entry)"

definition parse_peers_body :: "bytes \<Rightarrow> nat \<Rightarrow> io_error + peer_spec list" where
  "parse_peers_body bdy cap = rd_run (parse_peers_cursor cap) bdy"

definition build_peers_body :: "peer_spec list \<Rightarrow> bytes" where
  "build_peers_body specs = write_vlq (of_nat (length specs)) @ concat (map serialize_peer_entry specs)"

section \<open>Bodies\<close>

definition id_ok :: "bytes \<Rightarrow> bool" where
  "id_ok i \<longleftrightarrow> length i = 32"

interpretation id_codec: wire_codec "\<lambda>i. i" "read_exact 32" id_ok
  by unfold_locales (simp add: read_exact_append id_ok_def)

lemma parse_inv_encode:
  assumes "length ids \<le> MAX_INV_OBJECTS" and "\<forall>i \<in> set ids. id_ok i"
  shows "parse_inv_body (encode_inv_body t ids) = Inr (t, ids)"
  using assms id_codec.get_many_put [of ids "[]"]
  by (simp add: parse_inv_body_def parse_inv_cursor_def encode_inv_body_def rd_run_def rd_bind_def
      vlq_length.get_put vlq_len_ok_def MAX_INV_OBJECTS_def)

lemma parse_inv_bounds:
  "parse_inv_body data = Inr (t, ids) \<Longrightarrow> length ids \<le> MAX_INV_OBJECTS \<and> (\<forall>i \<in> set ids. id_ok i)"
proof -
  have ids: "rd_many n (read_exact 32) r = Inr (xs, r') \<Longrightarrow> \<forall>i \<in> set xs. id_ok i" for n r xs r'
    by (induction n arbitrary: r xs) (auto simp: rd_bind_Inr_iff read_exact_Inr_iff id_ok_def)
  assume "parse_inv_body data = Inr (t, ids)"
  then obtain n r r' where "n \<le> MAX_INV_OBJECTS" "rd_many n (read_exact 32) r = Inr (ids, r')"
    by (auto simp: parse_inv_body_def parse_inv_cursor_def rd_run_def rd_bind_Inr_iff
        and_then_Inr_iff not_less split: if_splits)
  then show ?thesis using ids rd_many_length by fastforce
qed

definition entry_bytes :: "bytes \<times> bytes \<Rightarrow> bytes" where
  "entry_bytes = (\<lambda>(id, data). id @ write_vlq (of_nat (length data)) @ data)"

definition entry_ok :: "bytes \<times> bytes \<Rightarrow> bool" where
  "entry_ok e \<longleftrightarrow> id_ok (fst e) \<and> vlq_len_ok (length (snd e))"

definition payload :: "(bytes \<times> bytes) list \<Rightarrow> nat" where
  "payload ms = (\<Sum>e\<leftarrow>ms. length (snd e))"

lemma payload_simps [simp]: "payload [] = 0" "payload (e # ms) = length (snd e) + payload ms"
  by (simp_all add: payload_def)

lemma payload_le_encoding: "payload ms \<le> length (concat (map entry_bytes ms))"
  by (induction ms) (auto simp: entry_bytes_def split_beta)

lemma parse_modifiers_encode:
  assumes "list_all entry_ok ms" and "allocated + payload ms \<le> body_size" and "body_size < 2 ^ 64"
  shows "parse_modifiers body_size allocated (length ms) (concat (map entry_bytes ms) @ rest)
    = Inr (ms, rest)"
  using assms
proof (induction ms arbitrary: allocated)
  case (Cons e ms)
  obtain i d where e: "e = (i, d)" by (cases e)
  have "usize_saturating_add allocated (length d) = allocated + length d"
    using Cons.prems e by (simp add: usize_saturating_add_def)
  with Cons e show ?case
    by (simp add: rd_bind_def entry_bytes_def entry_ok_def id_ok_def read_exact_append
        vlq_length.get_put Let_def)
qed simp

lemma parse_modifiers_bounds:
  "parse_modifiers body_size allocated n r = Inr (ms, r') \<Longrightarrow> allocated \<le> body_size \<Longrightarrow>
     body_size < 2 ^ 64 - 1 \<Longrightarrow>
     length ms = n \<and> list_all entry_ok ms \<and> allocated + payload ms \<le> body_size"
proof (induction n arbitrary: allocated r ms)
  case (Suc n)
  from Suc.prems(1) obtain i r1 l r2 d r3 ms' where
    i: "read_exact 32 r = Inr (i, r1)" and l: "read_vlq_length r1 = Inr (l, r2)"
    and le: "usize_saturating_add allocated l \<le> body_size" and d: "read_exact l r2 = Inr (d, r3)"
    and ms': "parse_modifiers body_size (usize_saturating_add allocated l) n r3 = Inr (ms', r')"
    and ms: "ms = (i, d) # ms'"
    by (auto simp: rd_bind_Inr_iff Let_def split: if_splits)
  have add: "usize_saturating_add allocated l = allocated + l"
    using le Suc.prems(3) by (auto simp: usize_saturating_add_def min_def split: if_splits)
  from Suc.IH [OF ms' le Suc.prems(3)] read_vlq_length_bound [OF l] i d ms add show ?case
    by (simp add: entry_ok_def id_ok_def vlq_len_ok_def read_exact_Inr_iff)
qed simp

lemma encode_modifier_response_entries:
  "encode_modifier_response_body t ms =
     t # write_vlq (of_nat (length ms)) @ concat (map entry_bytes ms)"
  by (simp add: encode_modifier_response_body_def entry_bytes_def)

lemma parse_modifier_response_encode:
  assumes "length ms \<le> MAX_INV_OBJECTS" and "list_all entry_ok ms"
    and "length (encode_modifier_response_body t ms) < 2 ^ 64"
  shows "parse_modifier_response_body (encode_modifier_response_body t ms) = Inr (t, ms)"
proof -
  let ?n = "length (encode_modifier_response_body t ms)"
  have "payload ms \<le> ?n"
    using payload_le_encoding [of ms] by (simp add: encode_modifier_response_entries)
  then have "parse_modifiers ?n 0 (length ms) (concat (map entry_bytes ms)) = Inr (ms, [])"
    using parse_modifiers_encode [of ms 0 ?n "[]"] assms by simp
  then have "parse_modifier_response_cursor ?n (encode_modifier_response_body t ms) = Inr ((t, ms), [])"
    using assms(1) unfolding parse_modifier_response_cursor_def
    by (simp only: encode_modifier_response_entries rd_bind_def)
      (simp add: vlq_length.get_put vlq_len_ok_def MAX_INV_OBJECTS_def rd_bind_def)
  then show ?thesis by (simp add: parse_modifier_response_body_def rd_run_def)
qed

lemma parse_modifier_response_bounds:
  assumes "parse_modifier_response_body data = Inr (t, ms)" and "length data < 2 ^ 64 - 1"
  shows "length ms \<le> MAX_INV_OBJECTS \<and> list_all entry_ok ms \<and> payload ms \<le> length data"
proof -
  from assms(1) obtain n r r' where "n \<le> MAX_INV_OBJECTS"
    and "parse_modifiers (length data) 0 n r = Inr (ms, r')"
    by (auto simp: parse_modifier_response_body_def parse_modifier_response_cursor_def rd_run_def
        rd_bind_Inr_iff and_then_Inr_iff not_less split: if_splits)
  then show ?thesis using parse_modifiers_bounds [of "length data" 0 n r ms r'] assms(2) by auto
qed

lemma parse_build_peers:
  assumes "length specs \<le> cap" and "vlq_len_ok (length specs)" and "\<forall>s \<in> set specs. spec_ok s"
  shows "parse_peers_body (build_peers_body specs) cap = Inr specs"
  using assms peer_entry.get_many_put [of specs "[]"]
  by (simp add: parse_peers_body_def parse_peers_cursor_def build_peers_body_def rd_run_def rd_bind_def
      vlq_length.get_put)

section \<open>Messages\<close>

text \<open>The messages the node can put on the wire: at most 400 objects, 32-byte ids, payloads within
  the length limit; an \<open>Unknown\<close> message has a code of its own.\<close>

fun msg_ok :: "protocol_message \<Rightarrow> bool" where
  "msg_ok (Inv t ids) \<longleftrightarrow> length ids \<le> MAX_INV_OBJECTS \<and> (\<forall>i \<in> set ids. id_ok i)"
| "msg_ok (ModifierRequest t ids) \<longleftrightarrow> length ids \<le> MAX_INV_OBJECTS \<and> (\<forall>i \<in> set ids. id_ok i)"
| "msg_ok (ModifierResponse t ms) \<longleftrightarrow> length ms \<le> MAX_INV_OBJECTS \<and> list_all entry_ok ms"
| "msg_ok (Unknown c b) \<longleftrightarrow>
     c \<notin> {GET_PEERS, PEERS, MODIFIER_REQUEST, MODIFIER_RESPONSE, INV, SYNC_INFO}"
| "msg_ok _ \<longleftrightarrow> True"

lemma from_to_frame:
  "msg_ok m \<Longrightarrow> length (body (to_frame m)) < 2 ^ 64 \<Longrightarrow> from_frame (to_frame m) = Inr m"
  by (cases m) (simp_all add: from_frame_def message_codes parse_inv_encode
      parse_modifier_response_encode)

lemma from_frame_msg_ok:
  "from_frame f = Inr m \<Longrightarrow> length (body f) < 2 ^ 64 - 1 \<Longrightarrow> msg_ok m"
  by (auto simp: from_frame_def and_then_Inr_iff dest: parse_inv_bounds parse_modifier_response_bounds
      split: if_splits)

section \<open>Properties\<close>

text \<open>(C20) Typed messages survive the wire: a message within the protocol's limits, serialised into a
  frame, encoded and decoded again (with other bytes behind it), is parsed back to itself.\<close>

theorem message_wire_roundtrip:
  assumes "msg_ok m" and "frame_ok (to_frame m)" and "length mgc = 4" and "blake_32 blake"
  shows "and_then (decode blake mgc (encode blake mgc (to_frame m) @ rest)) from_frame = Inr m"
proof -
  have "decode blake mgc (encode blake mgc (to_frame m) @ rest) = Inr (to_frame m)"
    using assms by (auto simp: decode_iff)
  moreover have "length (body (to_frame m)) < 2 ^ 64" using assms(2) by (simp add: frame_ok_def)
  ultimately show ?thesis using assms(1) by (simp add: from_to_frame)
qed

theorem message_wire_roundtrip_witness:
  "let m = ModifierResponse 102 [(replicate 32 7, [1, 2, 3])]; blake = (\<lambda>b. replicate 32 9) in
   and_then (decode blake (magic Testnet) (encode blake (magic Testnet) (to_frame m) @ [0])) from_frame
   = Inr m"
proof -
  have "frame_ok (to_frame (ModifierResponse 102 [(replicate 32 7, [1, 2, 3])]))"
    using write_vlq_length [of 1] write_vlq_length [of 3]
    by (simp add: frame_ok_def encode_modifier_response_body_def)
  then show ?thesis unfolding Let_def
    by (intro message_wire_roundtrip)
      (simp_all add: blake_32_def MAX_INV_OBJECTS_def entry_ok_def id_ok_def vlq_len_ok_def)
qed

text \<open>(C21) Whatever a peer sends, a frame the transport accepted parses to a message within the
  limits (at most 400 objects, ids of 32 bytes) whose payloads together are no longer than the frame
  body that carried them, and its code decides the kind of message.\<close>

theorem parsed_message_bounded:
  assumes "from_frame f = Inr m" and "frame_ok f"
  shows "msg_ok m \<and> code (to_frame m) = code f
    \<and> (\<forall>t ms. m = ModifierResponse t ms \<longrightarrow> payload ms \<le> length (body f))"
proof -
  have len: "length (body f) < 2 ^ 64 - 1" using assms(2) by (simp add: frame_ok_def)
  moreover have "code (to_frame m) = code f"
    using assms(1) by (auto simp: from_frame_def and_then_Inr_iff split: if_splits)
  moreover have "payload ms \<le> length (body f)" if "m = ModifierResponse t ms" for t ms
    using assms(1) that len parse_modifier_response_bounds [of "body f" t ms]
    by (auto simp: from_frame_def and_then_Inr_iff split: if_splits)
  ultimately show ?thesis using from_frame_msg_ok [OF assms(1) len] by blast
qed

theorem parsed_message_bounded_witness:
  "from_frame \<lparr>code = 55, body = [101, 1] @ replicate 32 3\<rparr> = Inr (Inv 101 [replicate 32 3])
   \<and> msg_ok (Inv 101 [replicate 32 3])"
proof -
  have *: "from_frame \<lparr>code = 55, body = [101, 1] @ replicate 32 3\<rparr> = Inr (Inv 101 [replicate 32 3])"
    by code_simp
  then show ?thesis using parsed_message_bounded [OF *] by (simp add: frame_ok_def)
qed

text \<open>A \<open>Peers\<close> body built from well-formed specifications parses back to them under any cap that
  admits their number, and under a smaller cap it is rejected as \<open>InvalidData\<close>.\<close>

theorem peers_body_roundtrip:
  assumes "length specs \<le> 16388608" and "\<forall>s \<in> set specs. spec_ok s"
  shows "parse_peers_body (build_peers_body specs) cap =
    (if length specs \<le> cap then Inr specs else Inl InvalidData)"
proof (cases "length specs \<le> cap")
  case True
  with assms show ?thesis by (simp add: parse_build_peers vlq_len_ok_def)
next
  case False
  with assms(1) show ?thesis
    by (simp add: parse_peers_body_def parse_peers_cursor_def build_peers_body_def rd_run_def rd_bind_def
        vlq_length.get_put vlq_len_ok_def)
qed

theorem peers_body_roundtrip_witness:
  "parse_peers_body (build_peers_body [spec_of sample_config 5]) 64 = Inr [spec_of sample_config 5]"
proof -
  have "spec_ok (spec_of sample_config 5)"
    by (intro spec_of_ok) (simp add: config_ok_def sample_config_def short_string_ok_def address_ok_def)
  then show ?thesis using peers_body_roundtrip [of "[spec_of sample_config 5]" 64] by simp
qed

end
