(* ===== verification/Ordered_Map.thy ===== *)
theory Ordered_Map
  imports Node_Prelude
begin

text \<open>
  The standard library's maps as the node uses them. A \<open>BTreeMap\<close> is the list of its entries in
  key order; keys are compared only by \<open>Ord::cmp\<close>, so two keys that compare \<open>Equal\<close> are one key even
  when they differ as values (inserting over an equal key keeps the old key and replaces the value).
  A \<open>HashMap\<close> is an association list with distinct keys; its iteration order is unspecified in Rust,
  so nothing is proved about it.
\<close>

section \<open>Comparison\<close>

datatype ordering = Less | Equal | Greater

definition cmp_of :: "'a::linorder \<Rightarrow> 'a \<Rightarrow> ordering" where
  "cmp_of a b = (if a < b then Less else if a = b then Equal else Greater)"

text \<open>\<open>Ordering::then\<close>\<close>

fun cmp_then :: "ordering \<Rightarrow> ordering \<Rightarrow> ordering" where
  "cmp_then Less b = Less"
| "cmp_then Greater b = Greater"
| "cmp_then Equal b = b"

section \<open>\<open>BTreeMap\<close>\<close>

type_synonym ('k, 'v) btree = "('k \<times> 'v) list"

fun bt_insert :: "('k \<Rightarrow> 'k \<Rightarrow> ordering) \<Rightarrow> 'k \<Rightarrow> 'v \<Rightarrow> ('k, 'v) btree \<Rightarrow> ('k, 'v) btree" where
  "bt_insert cmp k v [] = [(k, v)]"
| "bt_insert cmp k v ((k', v') # m) =
     (case cmp k k' of
        Less \<Rightarrow> (k, v) # (k', v') # m
      | Equal \<Rightarrow> (k', v) # m
      | Greater \<Rightarrow> (k', v') # bt_insert cmp k v m)"

definition bt_get :: "('k \<Rightarrow> 'k \<Rightarrow> ordering) \<Rightarrow> 'k \<Rightarrow> ('k, 'v) btree \<Rightarrow> ('k \<times> 'v) option" where
  "bt_get cmp k m = find (\<lambda>(k', v). cmp k k' = Equal) m"

definition bt_remove :: "('k \<Rightarrow> 'k \<Rightarrow> ordering) \<Rightarrow> 'k \<Rightarrow> ('k, 'v) btree \<Rightarrow> ('k, 'v) btree" where
  "bt_remove cmp k m = filter (\<lambda>(k', v). cmp k k' \<noteq> Equal) m"

text \<open>\<open>get_mut\<close>: change the value under a key in place.\<close>

definition bt_modify :: "('k \<Rightarrow> 'k \<Rightarrow> ordering) \<Rightarrow> 'k \<Rightarrow> ('v \<Rightarrow> 'v) \<Rightarrow> ('k, 'v) btree \<Rightarrow> ('k, 'v) btree" where
  "bt_modify cmp k f m = map (\<lambda>(k', v). (k', if cmp k k' = Equal then f v else v)) m"

definition bt_sorted :: "('k \<Rightarrow> 'k \<Rightarrow> ordering) \<Rightarrow> ('k, 'v) btree \<Rightarrow> bool" where
  "bt_sorted cmp m = sorted_wrt (\<lambda>a b. cmp a b = Less) (map fst m)"

lemma bt_sorted_simps [simp]:
  "bt_sorted cmp []"
  "bt_sorted cmp ((k, v) # m) \<longleftrightarrow> (\<forall>k' \<in> fst ` set m. cmp k k' = Less) \<and> bt_sorted cmp m"
  by (simp_all add: bt_sorted_def)

lemma bt_modify_keys [simp]: "map fst (bt_modify cmp k f m) = map fst m"
  by (induction m) (auto simp: bt_modify_def)

lemma bt_sorted_modify [simp]: "bt_sorted cmp (bt_modify cmp k f m) = bt_sorted cmp m"
  by (simp add: bt_sorted_def)

lemma length_bt_modify [simp]: "length (bt_modify cmp k f m) = length m"
  by (simp add: bt_modify_def)

lemma bt_sorted_filter: "bt_sorted cmp m \<Longrightarrow> bt_sorted cmp (filter P m)"
  by (induction m) auto

lemma bt_sorted_remove: "bt_sorted cmp m \<Longrightarrow> bt_sorted cmp (bt_remove cmp k m)"
  unfolding bt_remove_def by (rule bt_sorted_filter)

text \<open>What \<open>Ord\<close> asks of an implementation.\<close>

locale total_cmp =
  fixes cmp :: "'k \<Rightarrow> 'k \<Rightarrow> ordering"
  assumes cmp_refl: "cmp a a = Equal"
    and cmp_swap: "cmp a b = Less \<longleftrightarrow> cmp b a = Greater"
    and cmp_less_trans: "cmp a b = Less \<Longrightarrow> cmp b c = Less \<Longrightarrow> cmp a c = Less"
    and cmp_equal_cong: "cmp a b = Equal \<Longrightarrow> cmp a c = cmp b c"
begin

lemma cmp_equal_sym: "cmp a b = Equal \<Longrightarrow> cmp b a = Equal"
  using cmp_equal_cong [of a b a] by (simp add: cmp_refl)

lemma cmp_not_less_self: "cmp a a \<noteq> Less"
  by (simp add: cmp_refl)

text \<open>A strictly sorted map has at most one entry under each key.\<close>

lemma sorted_unique:
  "bt_sorted cmp m \<Longrightarrow> (k, v) \<in> set m \<Longrightarrow> (k', v') \<in> set m \<Longrightarrow> cmp k k' = Equal \<Longrightarrow> (k, v) = (k', v')"
proof (induction m)
  case (Cons e m)
  obtain j u where e: "e = (j, u)" by (cases e)
  from Cons.prems(1) e have lt: "\<And>k v. (k, v) \<in> set m \<Longrightarrow> cmp j k = Less" by force
  show ?case
  proof (cases "(k, v) = e \<or> (k', v') = e")
    case True
    with Cons.prems e lt [of k v] lt [of k' v'] show ?thesis
      by (auto dest: cmp_equal_sym)
  next
    case False
    with Cons e show ?thesis by auto
  qed
qed simp

lemma sorted_distinct: "bt_sorted cmp m \<Longrightarrow> distinct (map fst m)"
proof (induction m)
  case (Cons e m)
  obtain j u where e: "e = (j, u)" by (cases e)
  from Cons.prems e have "j \<notin> fst ` set m" using cmp_not_less_self by force
  with Cons e show ?case by auto
qed simp

lemma get_iff:
  assumes "bt_sorted cmp m"
  shows "bt_get cmp k m = Some (k', v) \<longleftrightarrow> (k', v) \<in> set m \<and> cmp k k' = Equal"
proof
  assume "bt_get cmp k m = Some (k', v)"
  then show "(k', v) \<in> set m \<and> cmp k k' = Equal"
    by (auto simp: bt_get_def find_Some_iff in_set_conv_nth)
next
  assume r: "(k', v) \<in> set m \<and> cmp k k' = Equal"
  then obtain e where e: "bt_get cmp k m = Some e" unfolding bt_get_def
    by (cases "find (\<lambda>(k', v). cmp k k' = Equal) m") (auto simp: find_None_iff)
  then have "e \<in> set m \<and> cmp k (fst e) = Equal"
    by (auto simp: bt_get_def find_Some_iff split_beta)
  then have "e = (k', v)"
    using sorted_unique [OF assms, of "fst e" "snd e" k' v] r cmp_equal_cong [of k "fst e" k'] by simp
  with e show "bt_get cmp k m = Some (k', v)" by simp
qed

lemma get_member: "bt_sorted cmp m \<Longrightarrow> (k, v) \<in> set m \<Longrightarrow> bt_get cmp k m = Some (k, v)"
  by (simp add: get_iff cmp_refl)

lemma remove_set:
  assumes "bt_sorted cmp m" and "(k, v) \<in> set m"
  shows "set (bt_remove cmp k m) = set m - {(k, v)}"
  using sorted_unique [OF assms(1,2)] by (auto simp: bt_remove_def cmp_refl)

lemma remove_length:
  assumes "bt_sorted cmp m" and "(k, v) \<in> set m"
  shows "Suc (length (bt_remove cmp k m)) = length m"
proof -
  have d: "distinct m" and d': "distinct (bt_remove cmp k m)"
    using sorted_distinct [OF assms(1)] by (auto simp: bt_remove_def distinct_map)
  have "length (bt_remove cmp k m) = card (set m - {(k, v)})"
    using distinct_card [OF d'] remove_set [OF assms] by simp
  also have "\<dots> = length m - 1" using assms(2) distinct_card [OF d] by (simp add: card_Diff_singleton)
  finally show ?thesis using assms(2) by (cases m) auto
qed

lemma modify_set:
  assumes "bt_sorted cmp m" and "(k, v) \<in> set m"
  shows "set (bt_modify cmp k f m) = insert (k, f v) (set m - {(k, v)})"
proof -
  have mem: "(a, b) \<in> set (bt_modify cmp k f m) \<longleftrightarrow>
      (\<exists>x. (a, x) \<in> set m \<and> b = (if cmp k a = Equal then f x else x))" for a b
    by (induction m) (auto simp: bt_modify_def)
  have eq: "cmp k a = Equal \<longleftrightarrow> a = k \<and> x = v" if "(a, x) \<in> set m" for a x
    using sorted_unique [OF assms that] cmp_refl by blast
  have "(a, b) \<in> set (bt_modify cmp k f m) \<longleftrightarrow> (a, b) \<in> insert (k, f v) (set m - {(k, v)})" for a b
  proof (cases "a = k")
    case True
    have "(k, x) \<in> set m \<longleftrightarrow> x = v" for x using eq [of k x] assms(2) by (auto simp: cmp_refl)
    with True show ?thesis unfolding mem by (simp add: cmp_refl)
  next
    case False
    with eq have "(a, x) \<in> set m \<Longrightarrow> cmp k a \<noteq> Equal" for x by blast
    with False show ?thesis unfolding mem by auto
  qed
  then show ?thesis by auto
qed

lemma insert_fresh_set:
  assumes "\<And>k' v'. (k', v') \<in> set m \<Longrightarrow> cmp k k' \<noteq> Equal"
  shows "set (bt_insert cmp k v m) = insert (k, v) (set m)"
  using assms
proof (induction m)
  case (Cons e m)
  obtain j u where "e = (j, u)" by (cases e)
  with Cons show ?case by (auto split: ordering.split)
qed simp

lemma insert_fresh_length:
  assumes "\<And>k' v'. (k', v') \<in> set m \<Longrightarrow> cmp k k' \<noteq> Equal"
  shows "length (bt_insert cmp k v m) = Suc (length m)"
  using assms
proof (induction m)
  case (Cons e m)
  obtain j u where "e = (j, u)" by (cases e)
  with Cons show ?case by (auto split: ordering.split)
qed simp

lemma insert_sorted:
  assumes "bt_sorted cmp m" and "\<And>k' v'. (k', v') \<in> set m \<Longrightarrow> cmp k k' \<noteq> Equal"
  shows "bt_sorted cmp (bt_insert cmp k v m)"
  using assms
proof (induction m)
  case (Cons e m)
  obtain j u where e: "e = (j, u)" by (cases e)
  show ?case
  proof (cases "cmp k j")
    case Less
    with Cons.prems(1) e have "\<forall>k' \<in> fst ` set m. cmp k k' = Less"
      using cmp_less_trans [OF Less] by simp
    with Less Cons.prems(1) e show ?thesis by simp
  next
    case Equal
    with Cons.prems(2) [of j u] e show ?thesis by simp
  next
    case Greater
    then have "cmp j k = Less" by (simp add: cmp_swap)
    moreover have "set (bt_insert cmp k v m) = insert (k, v) (set m)"
      using Cons.prems(2) e by (intro insert_fresh_set) auto
    moreover have "bt_sorted cmp (bt_insert cmp k v m)"
      using Cons.prems e by (intro Cons.IH) auto
    ultimately show ?thesis using Greater Cons.prems(1) e by auto
  qed
qed simp

end

section \<open>\<open>HashMap\<close>\<close>

type_synonym ('k, 'v) hmap = "('k \<times> 'v) list"

definition keys_distinct :: "('k, 'v) hmap \<Rightarrow> bool" where
  "keys_distinct m = distinct (map fst m)"

definition hm_insert :: "'k \<Rightarrow> 'v \<Rightarrow> ('k, 'v) hmap \<Rightarrow> ('k, 'v) hmap" where
  "hm_insert k v m = AList.update k v m"

definition hm_remove :: "'k \<Rightarrow> ('k, 'v) hmap \<Rightarrow> ('k, 'v) hmap" where
  "hm_remove k m = AList.delete k m"

definition hm_retain :: "('k \<Rightarrow> 'v \<Rightarrow> bool) \<Rightarrow> ('k, 'v) hmap \<Rightarrow> ('k, 'v) hmap" where
  "hm_retain P m = filter (\<lambda>(k, v). P k v) m"

definition hm_map :: "('v \<Rightarrow> 'v) \<Rightarrow> ('k, 'v) hmap \<Rightarrow> ('k, 'v) hmap" where
  "hm_map f m = map (\<lambda>(k, v). (k, f v)) m"

lemma keys_distinct_Nil [simp]: "keys_distinct []"
  by (simp add: keys_distinct_def)

lemma keys_distinct_insert [simp]: "keys_distinct m \<Longrightarrow> keys_distinct (hm_insert k v m)"
  by (simp add: keys_distinct_def hm_insert_def distinct_update)

lemma keys_distinct_remove [simp]: "keys_distinct m \<Longrightarrow> keys_distinct (hm_remove k m)"
  by (simp add: keys_distinct_def hm_remove_def distinct_delete)

lemma keys_distinct_retain [simp]: "keys_distinct m \<Longrightarrow> keys_distinct (hm_retain P m)"
  unfolding keys_distinct_def hm_retain_def by (induction m) (auto simp: image_iff)

lemma keys_distinct_map [simp]: "keys_distinct (hm_map f m) = keys_distinct m"
  by (simp add: keys_distinct_def hm_map_def comp_def split_beta)

lemma hm_get_insert [simp]: "map_of (hm_insert k v m) k' = (if k' = k then Some v else map_of m k')"
  by (simp add: hm_insert_def update_conv')

lemma hm_get_remove [simp]: "map_of (hm_remove k m) k' = (if k' = k then None else map_of m k')"
  by (simp add: hm_remove_def delete_conv')

lemma hm_get_map [simp]: "map_of (hm_map f m) k = map_option f (map_of m k)"
  by (simp add: hm_map_def map_of_map)

lemma hm_get_retain:
  "keys_distinct m \<Longrightarrow> map_of (hm_retain P m) k =
     (case map_of m k of None \<Rightarrow> None | Some v \<Rightarrow> if P k v then Some v else None)"
proof (induction m)
  case (Cons e m)
  obtain j v where e: "e = (j, v)" by (cases e)
  with Cons have "map_of m j = None" by (auto simp: keys_distinct_def map_of_eq_None_iff)
  with Cons e show ?case by (auto simp: keys_distinct_def hm_retain_def)
qed (simp add: hm_retain_def)

lemma hm_get_retain_Some:
  "keys_distinct m \<Longrightarrow> map_of (hm_retain P m) k = Some v \<longleftrightarrow> map_of m k = Some v \<and> P k v"
  by (auto simp: hm_get_retain split: option.split)

end
