(* ===== verification/Chain_Types.thy ===== *)
theory Chain_Types
  imports Ordered_Map
begin

text \<open>
  Boxes and transactions. The types are those of the external \<open>ergo_lib\<close>; they are modelled by the
  fields the node reads. A box id and a transaction id are the 32-byte digests the library computes;
  an \<open>ErgoTree\<close> is its bytes. \<open>Duration\<close> and \<open>Instant\<close> are nanoseconds.
\<close>

type_synonym instant = nat
type_synonym duration = nat

definition from_secs :: "nat \<Rightarrow> duration" where
  "from_secs s = s * 1000000000"

definition as_secs :: "duration \<Rightarrow> nat" where
  "as_secs d = d div 1000000000"

definition as_millis :: "duration \<Rightarrow> nat" where
  "as_millis d = d div 1000000"

record ergo_box =
  box_id :: id32
  box_value :: u64
  box_tree :: bytes
  box_creation_height :: u32
  box_tokens :: "(id32 \<times> u64) list"

record transaction =
  tx_ident :: id32
  tx_inputs :: "id32 list"
  tx_data_inputs :: "id32 list option"
  tx_outputs :: "ergo_box list"

text \<open>The ids of a transaction's outputs with the boxes (\<open>output_boxes\<close> of
  \<open>mempool/src/process.rs\<close>).\<close>

definition output_boxes :: "transaction \<Rightarrow> (id32 \<times> ergo_box) list" where
  "output_boxes t = map (\<lambda>b. (box_id b, b)) (tx_outputs t)"

text \<open>\<open>u64::try_from(x).unwrap_or(u64::MAX)\<close> on a \<open>u128\<close>\<close>

definition saturating_u64 :: "u128 \<Rightarrow> u64" where
  "saturating_u64 v = (if v \<le> 0xFFFFFFFFFFFFFFFF then ucast v else - 1)"

lemma unat_saturating_u64: "unat (saturating_u64 v) = min (unat v) (2 ^ 64 - 1)"
proof -
  have le: "v \<le> 0xFFFFFFFFFFFFFFFF \<longleftrightarrow> unat v \<le> 2 ^ 64 - 1"
    by (simp add: word_le_nat_alt)
  show ?thesis
  proof (cases "v \<le> 0xFFFFFFFFFFFFFFFF")
    case True
    then have "unat v < 2 ^ 64" unfolding le by simp
    then have "unat (ucast v :: u64) = unat v"
      by (simp add: unsigned_ucast_eq take_bit_nat_eq_self)
    with True le show ?thesis by (simp add: saturating_u64_def min_def)
  next
    case False
    then have "min (unat v) (2 ^ 64 - 1) = 2 ^ 64 - 1" unfolding le by simp
    moreover have "unat (- 1 :: u64) = 2 ^ 64 - 1"
      by (simp add: unsigned_minus_1_eq_mask mask_eq_exp_minus_1)
    ultimately show ?thesis using False by (simp add: saturating_u64_def)
  qed
qed

end
