(* ===== verification/Pool.thy ===== *)
theory Pool
  imports Chain_Types
begin

text \<open>
  The ordered transaction pool of the mempool crate: \<open>weight.rs\<close> (the ordering key), the pool entry of
  \<open>types.rs\<close>, \<open>pool.rs\<close> (the pool and its four secondary indexes, among them the byte index of
  \<open>reader.rs\<close>), and \<open>family.rs\<close> (weight propagation to unconfirmed ancestors). The pool's invariant
  ties every index to the primary store; each operation is shown to preserve it and to refine the
  corresponding update of a finite map from transaction ids to entries.
\<close>

section \<open>Weights\<close>

record tx_weight =
  weight :: u64
  fee_per_factor :: u64
  tx_id :: id32

definition weight_cmp :: "tx_weight \<Rightarrow> tx_weight \<Rightarrow> ordering" where
  "weight_cmp self other =
     cmp_then (cmp_of (weight other) (weight self)) (cmp_of (tx_id self) (tx_id other))"

datatype fee_strategy = FeePerByte | FeePerCycle

definition FAKE_COST :: u32 where
  "FAKE_COST = 1000"

definition tx_weight_new :: "id32 \<Rightarrow> u64 \<Rightarrow> nat \<Rightarrow> u32 \<Rightarrow> fee_strategy \<Rightarrow> tx_weight" where
  "tx_weight_new i fee tx_byte_size cost strategy =
     (let fee_factor = (case strategy of
            FeePerByte \<Rightarrow> of_nat tx_byte_size :: u64
          | FeePerCycle \<Rightarrow> if cost = 0 then ucast FAKE_COST else ucast cost);
          fpf = (if fee_factor = 0 then 0
                 else saturating_u64 ((ucast fee * 1024) div ucast fee_factor))
      in \<lparr>weight = fpf, fee_per_factor = fpf, tx_id = i\<rparr>)"

section \<open>The pool\<close>

record unconfirmed_tx =
  utx_tx :: transaction
  utx_bytes :: bytes
  utx_fee :: u64
  utx_cost :: u32
  utx_validation_cost :: "u64 option"
  utx_created :: instant
  utx_last_checked :: instant
  utx_source :: "u64 option"

record ordered_pool =
  ordered :: "(tx_weight, unconfirmed_tx) btree"
  by_id :: "(id32, tx_weight) hmap"
  by_input :: "(id32, tx_weight) hmap"
  by_output :: "(id32, tx_weight \<times> ergo_box) hmap"
  bytes_index :: "(id32, bytes) hmap"
  pool_capacity :: nat

definition pool_new :: "nat \<Rightarrow> ordered_pool" where
  "pool_new capacity = \<lparr>ordered = [], by_id = [], by_input = [], by_output = [], bytes_index = [],
     pool_capacity = capacity\<rparr>"

definition pool_len :: "ordered_pool \<Rightarrow> nat" where
  "pool_len p = length (ordered p)"

definition pool_is_empty :: "ordered_pool \<Rightarrow> bool" where
  "pool_is_empty p \<longleftrightarrow> ordered p = []"

definition is_full :: "ordered_pool \<Rightarrow> bool" where
  "is_full p \<longleftrightarrow> pool_len p \<ge> pool_capacity p"

definition pool_insert ::
  "tx_weight \<Rightarrow> unconfirmed_tx \<Rightarrow> id32 list \<Rightarrow> (id32 \<times> ergo_box) list \<Rightarrow> ordered_pool \<Rightarrow> ordered_pool" where
  "pool_insert w utx input_ids outputs p =
     p\<lparr>by_id := hm_insert (tx_id w) w (by_id p),
       bytes_index := hm_insert (tx_id w) (utx_bytes utx) (bytes_index p),
       by_input := fold (\<lambda>i m. hm_insert i w m) input_ids (by_input p),
       by_output := fold (\<lambda>(i, b) m. hm_insert i (w, b) m) outputs (by_output p),
       ordered := bt_insert weight_cmp w utx (ordered p)\<rparr>"

definition pool_remove :: "id32 \<Rightarrow> ordered_pool \<Rightarrow> unconfirmed_tx option \<times> ordered_pool" where
  "pool_remove i p =
     (case map_of (by_id p) i of
        None \<Rightarrow> (None, p)
      | Some w \<Rightarrow>
          let p1 = p\<lparr>by_id := hm_remove i (by_id p), bytes_index := hm_remove i (bytes_index p)\<rparr> in
          (case bt_get weight_cmp w (ordered p1) of
             None \<Rightarrow> (None, p1)
           | Some (_, utx) \<Rightarrow>
               (Some utx,
                p1\<lparr>ordered := bt_remove weight_cmp w (ordered p1),
                   by_input := hm_retain (\<lambda>_ w'. tx_id w' \<noteq> i) (by_input p1),
                   by_output := hm_retain (\<lambda>_ (w', _). tx_id w' \<noteq> i) (by_output p1)\<rparr>)))"

definition get_weighted :: "id32 \<Rightarrow> ordered_pool \<Rightarrow> (tx_weight \<times> unconfirmed_tx) option" where
  "get_weighted i p = Option.bind (map_of (by_id p) i) (\<lambda>w. bt_get weight_cmp w (ordered p))"

definition pool_get :: "id32 \<Rightarrow> ordered_pool \<Rightarrow> unconfirmed_tx option" where
  "pool_get i p =
     Option.bind (map_of (by_id p) i) (\<lambda>w. map_option snd (bt_get weight_cmp w (ordered p)))"

text \<open>\<open>get_mut\<close> with the change the caller makes through it.\<close>

definition pool_modify :: "id32 \<Rightarrow> (unconfirmed_tx \<Rightarrow> unconfirmed_tx) \<Rightarrow> ordered_pool \<Rightarrow> ordered_pool" where
  "pool_modify i f p =
     (case map_of (by_id p) i of
        None \<Rightarrow> p
      | Some w \<Rightarrow> p\<lparr>ordered := bt_modify weight_cmp w f (ordered p)\<rparr>)"

definition pool_contains :: "id32 \<Rightarrow> ordered_pool \<Rightarrow> bool" where
  "pool_contains i p \<longleftrightarrow> map_of (by_id p) i \<noteq> None"

text \<open>\<open>MempoolReader::tx_bytes\<close>, the serving path.\<close>

definition reader_tx_bytes :: "id32 \<Rightarrow> ordered_pool \<Rightarrow> bytes option" where
  "reader_tx_bytes i p = map_of (bytes_index p) i"

definition spending_tx :: "id32 \<Rightarrow> ordered_pool \<Rightarrow> tx_weight option" where
  "spending_tx b p = map_of (by_input p) b"

definition unconfirmed_box :: "id32 \<Rightarrow> ordered_pool \<Rightarrow> ergo_box option" where
  "unconfirmed_box b p = map_option snd (map_of (by_output p) b)"

definition pool_top :: "nat \<Rightarrow> ordered_pool \<Rightarrow> unconfirmed_tx list" where
  "pool_top limit p = take limit (map snd (ordered p))"

definition all_prioritized :: "ordered_pool \<Rightarrow> unconfirmed_tx list" where
  "all_prioritized p = map snd (ordered p)"

definition evict_lowest :: "ordered_pool \<Rightarrow> (id32 \<times> ordered_pool) option" where
  "evict_lowest p =
     (if ordered p = [] then None
      else let i = tx_id (fst (last (ordered p))) in Some (i, snd (pool_remove i p)))"

definition lowest_weight :: "ordered_pool \<Rightarrow> u64 option" where
  "lowest_weight p = (if ordered p = [] then None else Some (weight (fst (last (ordered p)))))"

definition update_weight :: "id32 \<Rightarrow> u64 \<Rightarrow> ordered_pool \<Rightarrow> ordered_pool" where
  "update_weight i new_weight p =
     (case map_of (by_id p) i of
        None \<Rightarrow> p
      | Some old_weight \<Rightarrow>
          (case bt_get weight_cmp old_weight (ordered p) of
             None \<Rightarrow> p
           | Some (_, utx) \<Rightarrow>
               let updated = old_weight\<lparr>weight := new_weight\<rparr>;
                   upd = (\<lambda>w. if tx_id w = i then updated else w) in
               p\<lparr>by_id := hm_insert i updated (by_id p),
                 by_input := hm_map upd (by_input p),
                 by_output := hm_map (\<lambda>(w, b). (upd w, b)) (by_output p),
                 ordered := bt_insert weight_cmp updated utx (bt_remove weight_cmp old_weight (ordered p))\<rparr>))"

definition spent_inputs :: "ordered_pool \<Rightarrow> id32 list" where
  "spent_inputs p = map fst (by_input p)"

definition pool_tx_ids :: "ordered_pool \<Rightarrow> id32 list" where
  "pool_tx_ids p = map fst (by_id p)"

section \<open>Family weights\<close>

definition MAX_PARENT_SCAN_DEPTH :: nat where
  "MAX_PARENT_SCAN_DEPTH = 500"

definition MAX_PARENT_SCAN_MS :: nat where
  "MAX_PARENT_SCAN_MS = 500"

text \<open>The parents of a set of inputs, pushed on the visit stack (its top is the head of the list) with
  the weight to add.\<close>

definition push_parents ::
  "ordered_pool \<Rightarrow> id32 list \<Rightarrow> u64 \<Rightarrow> (id32 \<times> u64) list \<Rightarrow> (id32 \<times> u64) list" where
  "push_parents p input_ids w stack =
     fold (\<lambda>i st. case map_of (by_output p) i of
             None \<Rightarrow> st
           | Some (parent, _) \<Rightarrow> (tx_id parent, w) # st) input_ids stack"

text \<open>\<open>elapsed k\<close> is the time in milliseconds the clock shows at the \<open>k\<close>-th check.\<close>

function propagate_loop ::
  "(nat \<Rightarrow> nat) \<Rightarrow> nat \<Rightarrow> nat \<Rightarrow> (id32 \<times> u64) list \<Rightarrow> ordered_pool \<Rightarrow> ordered_pool" where
  "propagate_loop elapsed k depth [] p = p"
| "propagate_loop elapsed k depth ((parent_id, weight_to_add) # to_visit) p =
     (if depth \<ge> MAX_PARENT_SCAN_DEPTH then p
      else if elapsed k \<ge> MAX_PARENT_SCAN_MS then p
      else case map_of (by_id p) parent_id of
        None \<Rightarrow> propagate_loop elapsed (Suc k) depth to_visit p
      | Some w \<Rightarrow>
          let p' = update_weight parent_id (weight w + weight_to_add) p;
              to_visit' = (case pool_get parent_id p' of
                None \<Rightarrow> to_visit
              | Some parent_utx \<Rightarrow> push_parents p' (tx_inputs (utx_tx parent_utx)) weight_to_add to_visit)
          in propagate_loop elapsed (Suc k) (Suc depth) to_visit' p')"
  by pat_completeness auto
termination
  by (relation "measures [\<lambda>(_, _, depth, _). MAX_PARENT_SCAN_DEPTH - depth, \<lambda>(_, _, _, st, _). length st]")
    auto

definition propagate_family_weight ::
  "(nat \<Rightarrow> nat) \<Rightarrow> id32 list \<Rightarrow> u64 \<Rightarrow> ordered_pool \<Rightarrow> ordered_pool" where
  "propagate_family_weight elapsed child_input_ids child_fee_per_factor p =
     propagate_loop elapsed 0 0 (push_parents p child_input_ids child_fee_per_factor []) p"

section \<open>The order\<close>

lemma cmp_of_simps [simp]:
  "cmp_of a b = Less \<longleftrightarrow> a < b" "cmp_of a b = Equal \<longleftrightarrow> a = b" "cmp_of a b = Greater \<longleftrightarrow> b < a"
  by (auto simp: cmp_of_def)

lemma cmp_then_iff:
  "cmp_then a b = Less \<longleftrightarrow> a = Less \<or> a = Equal \<and> b = Less"
  "cmp_then a b = Equal \<longleftrightarrow> a = Equal \<and> b = Equal"
  "cmp_then a b = Greater \<longleftrightarrow> a = Greater \<or> a = Equal \<and> b = Greater"
  by (cases a; simp)+

lemma weight_cmp_iff:
  "weight_cmp a b = Less \<longleftrightarrow> weight b < weight a \<or> weight a = weight b \<and> tx_id a < tx_id b"
  "weight_cmp a b = Equal \<longleftrightarrow> weight a = weight b \<and> tx_id a = tx_id b"
  "weight_cmp a b = Greater \<longleftrightarrow> weight a < weight b \<or> weight a = weight b \<and> tx_id b < tx_id a"
  by (auto simp: weight_cmp_def cmp_then_iff)

interpretation wcmp: total_cmp weight_cmp
proof
  show "weight_cmp a b = Equal \<Longrightarrow> weight_cmp a c = weight_cmp b c" for a b c
    by (simp add: weight_cmp_iff) (simp add: weight_cmp_def)
qed (auto simp: weight_cmp_iff)

section \<open>The invariant\<close>

text \<open>What each index must say about the entries \<open>E\<close> of the primary store.\<close>

type_synonym pool_entry = "tx_weight \<times> unconfirmed_tx"

definition idx_id :: "(id32, tx_weight) hmap \<Rightarrow> pool_entry set \<Rightarrow> bool" where
  "idx_id m E \<longleftrightarrow> (\<forall>i w. map_of m i = Some w \<longleftrightarrow> tx_id w = i \<and> (\<exists>u. (w, u) \<in> E))"

definition idx_input :: "(id32, tx_weight) hmap \<Rightarrow> pool_entry set \<Rightarrow> bool" where
  "idx_input m E \<longleftrightarrow> (\<forall>b w. map_of m b = Some w \<longleftrightarrow> (\<exists>u. (w, u) \<in> E \<and> b \<in> set (tx_inputs (utx_tx u))))"

definition idx_output :: "(id32, tx_weight \<times> ergo_box) hmap \<Rightarrow> pool_entry set \<Rightarrow> bool" where
  "idx_output m E \<longleftrightarrow> (\<forall>b w x. map_of m b = Some (w, x) \<longleftrightarrow>
     (\<exists>u. (w, u) \<in> E \<and> (b, x) \<in> set (output_boxes (utx_tx u))))"

definition idx_bytes :: "(id32, bytes) hmap \<Rightarrow> pool_entry set \<Rightarrow> bool" where
  "idx_bytes m E \<longleftrightarrow> (\<forall>i bs. map_of m i = Some bs \<longleftrightarrow> (\<exists>w u. (w, u) \<in> E \<and> tx_id w = i \<and> utx_bytes u = bs))"

definition ids_agree :: "pool_entry set \<Rightarrow> bool" where
  "ids_agree E \<longleftrightarrow> (\<forall>(w, u) \<in> E. tx_id w = tx_ident (utx_tx u))"

definition pool_inv :: "ordered_pool \<Rightarrow> bool" where
  "pool_inv p \<longleftrightarrow> bt_sorted weight_cmp (ordered p)
     \<and> keys_distinct (by_id p) \<and> keys_distinct (by_input p) \<and> keys_distinct (by_output p)
     \<and> keys_distinct (bytes_index p)
     \<and> ids_agree (set (ordered p)) \<and> idx_id (by_id p) (set (ordered p))
     \<and> idx_input (by_input p) (set (ordered p)) \<and> idx_output (by_output p) (set (ordered p))
     \<and> idx_bytes (bytes_index p) (set (ordered p))"

lemmas idx_defs = idx_id_def idx_input_def idx_output_def idx_bytes_def

definition one_per_id :: "pool_entry set \<Rightarrow> bool" where
  "one_per_id E \<longleftrightarrow> (\<forall>w u w' u'. (w, u) \<in> E \<longrightarrow> (w', u') \<in> E \<longrightarrow> tx_id w = tx_id w' \<longrightarrow> w = w' \<and> u = u')"

lemma one_per_idD: "one_per_id E \<Longrightarrow> (w, u) \<in> E \<Longrightarrow> (w', u') \<in> E \<Longrightarrow> tx_id w = tx_id w' \<Longrightarrow> w = w' \<and> u = u'"
  by (auto simp: one_per_id_def)

lemma idx_id_get: "idx_id m E \<Longrightarrow> (w, u) \<in> E \<Longrightarrow> map_of m (tx_id w) = Some w"
  by (auto simp: idx_id_def)

lemma pool_invD:
  assumes "pool_inv p"
  shows "bt_sorted weight_cmp (ordered p)" and "ids_agree (set (ordered p))"
    and "idx_id (by_id p) (set (ordered p))" and "idx_input (by_input p) (set (ordered p))"
    and "idx_output (by_output p) (set (ordered p))" and "idx_bytes (bytes_index p) (set (ordered p))"
    and "keys_distinct (by_id p)" and "keys_distinct (by_input p)" and "keys_distinct (by_output p)"
    and "keys_distinct (bytes_index p)"
  using assms by (simp_all add: pool_inv_def)

lemma pool_inv_by_id: "pool_inv p \<Longrightarrow> (w, u) \<in> set (ordered p) \<Longrightarrow> map_of (by_id p) (tx_id w) = Some w"
  by (rule idx_id_get [OF pool_invD(3)])

lemma pool_inv_one_per_id:
  assumes "pool_inv p"
  shows "one_per_id (set (ordered p))"
  unfolding one_per_id_def
proof (intro allI impI)
  fix w u w' u'
  assume e: "(w, u) \<in> set (ordered p)" "(w', u') \<in> set (ordered p)" "tx_id w = tx_id w'"
  have "Some w = map_of (by_id p) (tx_id w)" by (rule pool_inv_by_id [OF assms e(1), symmetric])
  also have "\<dots> = map_of (by_id p) (tx_id w')" by (simp only: e(3))
  also have "\<dots> = Some w'" by (rule pool_inv_by_id [OF assms e(2)])
  finally have "w = w'" by simp
  with e(1,2) show "w = w' \<and> u = u'"
    using wcmp.sorted_unique [of "ordered p" w u w' u'] assms by (simp add: pool_inv_def wcmp.cmp_refl)
qed

lemma pool_inv_fresh_key:
  assumes "pool_inv p" and "\<not> pool_contains i p" and "(w, u) \<in> set (ordered p)"
  shows "tx_id w \<noteq> i"
proof -
  have "map_of (by_id p) (tx_id w) = Some w" by (rule pool_inv_by_id [OF assms(1,3)])
  with assms(2) show ?thesis by (auto simp: pool_contains_def)
qed

lemma get_weighted_iff:
  assumes "pool_inv p"
  shows "get_weighted i p = Some (w, u) \<longleftrightarrow> (w, u) \<in> set (ordered p) \<and> tx_id w = i"
proof -
  have s: "bt_sorted weight_cmp (ordered p)" and i: "idx_id (by_id p) (set (ordered p))"
    by (rule pool_invD [OF assms])+
  have "get_weighted i p = Some (w, u) \<longleftrightarrow> map_of (by_id p) i = Some w \<and> (w, u) \<in> set (ordered p)"
  proof -
    have "bt_get weight_cmp w' (ordered p) = Some (w, u) \<longleftrightarrow> w' = w \<and> (w, u) \<in> set (ordered p)"
      if "map_of (by_id p) i = Some w'" for w'
      using that i wcmp.get_iff [OF s, of w' w u] wcmp.sorted_unique [OF s, of w' _ w u]
      by (auto simp: idx_id_def wcmp.cmp_refl)
    then show ?thesis by (cases "map_of (by_id p) i") (auto simp: get_weighted_def)
  qed
  also have "\<dots> \<longleftrightarrow> (w, u) \<in> set (ordered p) \<and> tx_id w = i"
    using i unfolding idx_id_def by blast
  finally show ?thesis .
qed

lemma pool_get_weighted: "pool_get i p = map_option snd (get_weighted i p)"
  by (cases "map_of (by_id p) i") (auto simp: pool_get_def get_weighted_def)

lemma pool_contains_iff:
  assumes "pool_inv p"
  shows "pool_contains i p \<longleftrightarrow> get_weighted i p \<noteq> None"
proof -
  have "pool_contains i p \<longleftrightarrow> (\<exists>w u. (w, u) \<in> set (ordered p) \<and> tx_id w = i)"
    using pool_invD(3) [OF assms] by (auto simp: pool_contains_def idx_id_def)
  then show ?thesis using get_weighted_iff [OF assms, of i] by (cases "get_weighted i p") auto
qed

lemma pool_new_inv: "pool_inv (pool_new capacity)"
  by (simp add: pool_inv_def pool_new_def ids_agree_def idx_defs)

subsection \<open>Insertion\<close>

lemma fold_hm_insert [simp]:
  "map_of (fold (\<lambda>i m. hm_insert i w m) is m) b = (if b \<in> set is then Some w else map_of m b)"
  by (induction "is" arbitrary: m) simp_all

lemma keys_distinct_fold [simp]:
  "keys_distinct m \<Longrightarrow> keys_distinct (fold (\<lambda>i m. hm_insert i w m) is m)"
  by (induction "is" arbitrary: m) simp_all

lemma keys_distinct_fold_pairs [simp]:
  "keys_distinct m \<Longrightarrow> keys_distinct (fold (\<lambda>(i, b) m. hm_insert i (w, b) m) os m)"
  by (induction os arbitrary: m) (simp_all add: split_beta)

lemma fold_hm_insert_pairs:
  "distinct (map fst os) \<Longrightarrow>
     map_of (fold (\<lambda>(i, b) m. hm_insert i (w, b) m) os m) k =
       (case map_of os k of Some b \<Rightarrow> Some (w, b) | None \<Rightarrow> map_of m k)"
proof (induction os arbitrary: m)
  case (Cons e os)
  obtain i b where e: "e = (i, b)" by (cases e)
  with Cons.prems have "map_of os i = None" by (simp add: map_of_eq_None_iff)
  with Cons e show ?case by (auto split: option.split)
qed simp

text \<open>The conditions under which an entry may be added: nobody in the pool has its id or spends one of
  its inputs, and its output boxes are new. The last is what box ids being digests of the creating
  transaction and the output index gives.\<close>

definition fresh_outputs :: "transaction \<Rightarrow> ordered_pool \<Rightarrow> bool" where
  "fresh_outputs t p \<longleftrightarrow> distinct (map box_id (tx_outputs t))
     \<and> (\<forall>b \<in> set (tx_outputs t). unconfirmed_box (box_id b) p = None)"

definition no_conflict :: "transaction \<Rightarrow> ordered_pool \<Rightarrow> bool" where
  "no_conflict t p \<longleftrightarrow> (\<forall>b \<in> set (tx_inputs t). spending_tx b p = None)"

lemma map_of_output_boxes:
  "distinct (map box_id (tx_outputs t)) \<Longrightarrow>
     map_of (output_boxes t) k = Some x \<longleftrightarrow> (k, x) \<in> set (output_boxes t)"
  by (intro map_of_eq_Some_iff) (simp add: output_boxes_def comp_def)

definition insert_utx :: "tx_weight \<Rightarrow> unconfirmed_tx \<Rightarrow> ordered_pool \<Rightarrow> ordered_pool" where
  "insert_utx w u p = pool_insert w u (tx_inputs (utx_tx u)) (output_boxes (utx_tx u)) p"

lemma ordered_insert:
  assumes "pool_inv p" and "\<not> pool_contains (tx_id w) p"
  shows "set (ordered (insert_utx w u p)) = insert (w, u) (set (ordered p))"
    and "bt_sorted weight_cmp (ordered (insert_utx w u p))"
    and "length (ordered (insert_utx w u p)) = Suc (length (ordered p))"
proof -
  have "weight_cmp w k \<noteq> Equal" if "(k, v) \<in> set (ordered p)" for k v
    using pool_inv_fresh_key [OF assms that] by (auto simp: weight_cmp_iff)
  with assms(1) show "set (ordered (insert_utx w u p)) = insert (w, u) (set (ordered p))"
    and "bt_sorted weight_cmp (ordered (insert_utx w u p))"
    and "length (ordered (insert_utx w u p)) = Suc (length (ordered p))"
    by (simp_all add: insert_utx_def pool_insert_def wcmp.insert_fresh_set wcmp.insert_sorted
        wcmp.insert_fresh_length pool_inv_def)
qed

definition fresh_id :: "id32 \<Rightarrow> pool_entry set \<Rightarrow> bool" where
  "fresh_id i E \<longleftrightarrow> (\<forall>w u. (w, u) \<in> E \<longrightarrow> tx_id w \<noteq> i)"

lemma idx_id_insert:
  assumes "idx_id m E" and "fresh_id (tx_id w) E"
  shows "idx_id (hm_insert (tx_id w) w m) (insert (w, u) E)"
  unfolding idx_id_def
proof (intro allI)
  fix i v
  have m: "map_of m i = Some v \<longleftrightarrow> tx_id v = i \<and> (\<exists>x. (v, x) \<in> E)" for i v
    using assms(1) by (simp add: idx_id_def)
  show "map_of (hm_insert (tx_id w) w m) i = Some v \<longleftrightarrow> tx_id v = i \<and> (\<exists>x. (v, x) \<in> insert (w, u) E)"
  proof (cases "i = tx_id w")
    case True
    with assms(2) show ?thesis by (auto simp: fresh_id_def)
  next
    case False
    then show ?thesis by (auto simp: m)
  qed
qed

lemma idx_bytes_insert:
  assumes "idx_bytes m E" and "fresh_id (tx_id w) E"
  shows "idx_bytes (hm_insert (tx_id w) (utx_bytes u) m) (insert (w, u) E)"
  unfolding idx_bytes_def
proof (intro allI)
  fix i bs
  have m: "map_of m i = Some bs \<longleftrightarrow> (\<exists>w u. (w, u) \<in> E \<and> tx_id w = i \<and> utx_bytes u = bs)" for i bs
    using assms(1) by (simp add: idx_bytes_def)
  show "map_of (hm_insert (tx_id w) (utx_bytes u) m) i = Some bs \<longleftrightarrow>
      (\<exists>w' u'. (w', u') \<in> insert (w, u) E \<and> tx_id w' = i \<and> utx_bytes u' = bs)"
  proof (cases "i = tx_id w")
    case True
    with assms(2) show ?thesis by (auto simp: fresh_id_def)
  next
    case False
    then show ?thesis by (auto simp: m)
  qed
qed

lemma idx_input_insert:
  assumes "idx_input m E" and "\<And>b. b \<in> set (tx_inputs (utx_tx u)) \<Longrightarrow> map_of m b = None"
  shows "idx_input (fold (\<lambda>i m. hm_insert i w m) (tx_inputs (utx_tx u)) m) (insert (w, u) E)"
  unfolding idx_input_def
proof (intro allI)
  fix b v
  have m: "map_of m b = Some v \<longleftrightarrow> (\<exists>u. (v, u) \<in> E \<and> b \<in> set (tx_inputs (utx_tx u)))" for b v
    using assms(1) by (simp add: idx_input_def)
  have old: "\<not> (\<exists>u'. (v, u') \<in> E \<and> b \<in> set (tx_inputs (utx_tx u')))" if "b \<in> set (tx_inputs (utx_tx u))" for v
    using m [of b v] assms(2) [OF that] by simp
  show "map_of (fold (\<lambda>i m. hm_insert i w m) (tx_inputs (utx_tx u)) m) b = Some v \<longleftrightarrow>
      (\<exists>u'. (v, u') \<in> insert (w, u) E \<and> b \<in> set (tx_inputs (utx_tx u')))"
    using old by (cases "b \<in> set (tx_inputs (utx_tx u))") (auto simp: m)
qed

lemma idx_output_insert:
  assumes "idx_output m E" and "distinct (map box_id (tx_outputs (utx_tx u)))"
    and "\<And>b. b \<in> box_id ` set (tx_outputs (utx_tx u)) \<Longrightarrow> map_of m b = None"
  shows "idx_output (fold (\<lambda>(i, b) m. hm_insert i (w, b) m) (output_boxes (utx_tx u)) m) (insert (w, u) E)"
  unfolding idx_output_def
proof (intro allI)
  fix b v x
  let ?os = "output_boxes (utx_tx u)"
  have d: "distinct (map fst ?os)" using assms(2) by (simp add: output_boxes_def comp_def)
  have dom: "map_of ?os b = None \<or> map_of m b = None"
    using assms(3) [of b] by (auto simp: map_of_eq_None_iff output_boxes_def image_iff)
  have m: "map_of m b = Some (v, x) \<longleftrightarrow> (\<exists>u. (v, u) \<in> E \<and> (b, x) \<in> set (output_boxes (utx_tx u)))"
    using assms(1) by (simp add: idx_output_def)
  have os: "map_of ?os b = Some x \<longleftrightarrow> (b, x) \<in> set ?os" by (rule map_of_output_boxes [OF assms(2)])
  have "map_of (fold (\<lambda>(i, b) m. hm_insert i (w, b) m) ?os m) b = Some (v, x) \<longleftrightarrow>
      v = w \<and> map_of ?os b = Some x \<or> map_of m b = Some (v, x)"
    unfolding fold_hm_insert_pairs [OF d] using dom by (auto split: option.split)
  then show "map_of (fold (\<lambda>(i, b) m. hm_insert i (w, b) m) ?os m) b = Some (v, x) \<longleftrightarrow>
      (\<exists>u'. (v, u') \<in> insert (w, u) E \<and> (b, x) \<in> set (output_boxes (utx_tx u')))"
    unfolding os m by auto
qed

lemma pool_insert_inv:
  assumes inv: "pool_inv p" and new: "\<not> pool_contains (tx_id w) p"
    and nc: "no_conflict (utx_tx u) p" and fo: "fresh_outputs (utx_tx u) p"
    and id: "tx_id w = tx_ident (utx_tx u)"
  shows "pool_inv (insert_utx w u p)"
proof -
  note D = pool_invD [OF inv]
  have fresh: "fresh_id (tx_id w) (set (ordered p))"
    unfolding fresh_id_def using pool_inv_fresh_key [OF inv new] by blast
  have "map_of (by_input p) b = None" if "b \<in> set (tx_inputs (utx_tx u))" for b
    using nc that by (simp add: no_conflict_def spending_tx_def)
  from idx_input_insert [where u = u and w = w, OF D(4) this] have i: "idx_input (by_input (insert_utx w u p)) (insert (w, u) (set (ordered p)))"
    by (simp add: insert_utx_def pool_insert_def)
  have fo2: "map_of (by_output p) b = None" if "b \<in> box_id ` set (tx_outputs (utx_tx u))" for b
    using fo that by (auto simp: fresh_outputs_def unconfirmed_box_def)
  have "distinct (map box_id (tx_outputs (utx_tx u)))" using fo by (simp add: fresh_outputs_def)
  from idx_output_insert [where u = u and w = w, OF D(5) this fo2]
  have o: "idx_output (by_output (insert_utx w u p)) (insert (w, u) (set (ordered p)))"
    by (simp add: insert_utx_def pool_insert_def)
  have "ids_agree (insert (w, u) (set (ordered p)))" using D(2) id by (simp add: ids_agree_def)
  then show ?thesis
    using i o idx_id_insert [OF D(3) fresh, of u] idx_bytes_insert [OF D(6) fresh, of u]
      ordered_insert [OF inv new, of u] D(7-10)
    unfolding pool_inv_def by (simp add: insert_utx_def pool_insert_def)
qed

subsection \<open>Removal\<close>

lemma idx_remove:
  assumes E: "one_per_id E" and e: "(w, u) \<in> E" and i: "tx_id w = i"
  shows "idx_id m E \<Longrightarrow> idx_id (hm_remove i m) (E - {(w, u)})"
    and "idx_bytes b E \<Longrightarrow> idx_bytes (hm_remove i b) (E - {(w, u)})"
    and "idx_input n E \<Longrightarrow> keys_distinct n \<Longrightarrow> idx_input (hm_retain (\<lambda>_ w'. tx_id w' \<noteq> i) n) (E - {(w, u)})"
    and "idx_output k E \<Longrightarrow> keys_distinct k \<Longrightarrow>
      idx_output (hm_retain (\<lambda>_ (w', _). tx_id w' \<noteq> i) k) (E - {(w, u)})"
proof -
  have key: "(v, x) = (w, u) \<longleftrightarrow> tx_id v = i" if "(v, x) \<in> E" for v x
    unfolding prod.inject i [symmetric] using one_per_idD [OF E that e] by blast
  have E': "(v, x) \<in> E - {(w, u)} \<longleftrightarrow> (v, x) \<in> E \<and> tx_id v \<noteq> i" for v x
    using key [of v x] by blast
  show "idx_id m E \<Longrightarrow> idx_id (hm_remove i m) (E - {(w, u)})"
    unfolding idx_id_def E' by auto
  show "idx_bytes b E \<Longrightarrow> idx_bytes (hm_remove i b) (E - {(w, u)})"
    unfolding idx_bytes_def E' by auto
  show "idx_input n E \<Longrightarrow> keys_distinct n \<Longrightarrow> idx_input (hm_retain (\<lambda>_ w'. tx_id w' \<noteq> i) n) (E - {(w, u)})"
    unfolding idx_input_def E' by (simp add: hm_get_retain_Some) blast
  show "idx_output k E \<Longrightarrow> keys_distinct k \<Longrightarrow>
      idx_output (hm_retain (\<lambda>_ (w', _). tx_id w' \<noteq> i) k) (E - {(w, u)})"
    unfolding idx_output_def E' by (simp add: hm_get_retain_Some) blast
qed

text \<open>Under the invariant \<open>remove\<close> takes out exactly the entry with that id, if there is one.\<close>

lemma pool_remove_absent: "\<not> pool_contains i p \<Longrightarrow> pool_remove i p = (None, p)"
  by (simp add: pool_remove_def pool_contains_def)

lemma pool_remove_entry:
  assumes inv: "pool_inv p" and e: "(w, u) \<in> set (ordered p)" and i: "tx_id w = i"
  shows "fst (pool_remove i p) = Some u"
    and "set (ordered (snd (pool_remove i p))) = set (ordered p) - {(w, u)}"
    and "Suc (length (ordered (snd (pool_remove i p)))) = length (ordered p)"
    and "pool_inv (snd (pool_remove i p))"
proof -
  note D = pool_invD [OF inv]
  have "map_of (by_id p) i = Some w" using pool_inv_by_id [OF inv e] i by simp
  then have r: "pool_remove i p = (Some u, p\<lparr>by_id := hm_remove i (by_id p),
      bytes_index := hm_remove i (bytes_index p),
      ordered := bt_remove weight_cmp w (ordered p),
      by_input := hm_retain (\<lambda>_ w'. tx_id w' \<noteq> i) (by_input p),
      by_output := hm_retain (\<lambda>_ (w', _). tx_id w' \<noteq> i) (by_output p)\<rparr>)"
    using wcmp.get_member [OF D(1) e] by (simp add: pool_remove_def Let_def)
  then show "fst (pool_remove i p) = Some u"
    and "set (ordered (snd (pool_remove i p))) = set (ordered p) - {(w, u)}"
    and "Suc (length (ordered (snd (pool_remove i p)))) = length (ordered p)"
    using wcmp.remove_set [OF D(1) e] wcmp.remove_length [OF D(1) e] by simp_all
  have "ids_agree (set (ordered p) - {(w, u)})" using D(2) by (auto simp: ids_agree_def)
  with idx_remove [OF pool_inv_one_per_id [OF inv] e i] D show "pool_inv (snd (pool_remove i p))"
    unfolding r by (simp add: pool_inv_def wcmp.remove_set [OF D(1) e] bt_sorted_remove)
qed

lemma pool_containsE:
  assumes "pool_inv p" and "pool_contains i p"
  obtains w u where "(w, u) \<in> set (ordered p)" and "tx_id w = i"
  using assms pool_contains_iff [OF assms(1), of i] get_weighted_iff [OF assms(1), of i]
  by (cases "get_weighted i p") auto

lemma pool_remove_inv: "pool_inv p \<Longrightarrow> pool_inv (snd (pool_remove i p))"
  using pool_remove_absent pool_remove_entry(4) by (metis pool_containsE snd_conv)

lemma pool_remove_set:
  assumes "pool_inv p"
  shows "(w, u) \<in> set (ordered (snd (pool_remove i p))) \<longleftrightarrow> (w, u) \<in> set (ordered p) \<and> tx_id w \<noteq> i"
proof (cases "pool_contains i p")
  case True
  then obtain v x where e: "(v, x) \<in> set (ordered p)" "tx_id v = i" by (rule pool_containsE [OF assms])
  show ?thesis
    unfolding pool_remove_entry(2) [OF assms e]
    using one_per_idD [OF pool_inv_one_per_id [OF assms] e(1), of w u] e(2) by auto
next
  case False
  then show ?thesis
    using pool_inv_fresh_key [OF assms False, of w u] by (auto simp: pool_remove_absent)
qed

lemma pool_remove_length:
  assumes "pool_inv p"
  shows "length (ordered (snd (pool_remove i p))) = length (ordered p) - (if pool_contains i p then 1 else 0)"
proof (cases "pool_contains i p")
  case True
  then obtain v x where e: "(v, x) \<in> set (ordered p)" "tx_id v = i" by (rule pool_containsE [OF assms])
  show ?thesis using pool_remove_entry(3) [OF assms e] True by simp
qed (simp add: pool_remove_absent)

subsection \<open>Changing a weight\<close>

text \<open>Re-weighting replaces the weight of the one entry with id \<open>i\<close>, in the store and in every index.\<close>

definition reweigh :: "id32 \<Rightarrow> tx_weight \<Rightarrow> tx_weight \<Rightarrow> tx_weight" where
  "reweigh i w' w = (if tx_id w = i then w' else w)"

lemma reweigh_entries:
  assumes "one_per_id E" and "(w, u) \<in> E" and "tx_id w = i"
  shows "(v, x) \<in> insert (w', u) (E - {(w, u)}) \<longleftrightarrow> (\<exists>v0. (v0, x) \<in> E \<and> v = reweigh i w' v0)"
proof -
  have key: "(v0, y) = (w, u) \<longleftrightarrow> tx_id v0 = i" if "(v0, y) \<in> E" for v0 y
    unfolding prod.inject assms(3) [symmetric] using one_per_idD [OF assms(1) that assms(2)] by blast
  show ?thesis
  proof
    assume "(v, x) \<in> insert (w', u) (E - {(w, u)})"
    then show "\<exists>v0. (v0, x) \<in> E \<and> v = reweigh i w' v0"
      using assms(2,3) key [of v x] by (cases "(v, x) \<in> E - {(w, u)}") (auto simp: reweigh_def)
  next
    assume "\<exists>v0. (v0, x) \<in> E \<and> v = reweigh i w' v0"
    then obtain v0 where "(v0, x) \<in> E" "v = reweigh i w' v0" by blast
    with key [of v0 x] show "(v, x) \<in> insert (w', u) (E - {(w, u)})"
      by (cases "tx_id v0 = i") (auto simp: reweigh_def)
  qed
qed

lemma idx_reweigh:
  assumes E': "\<And>v x. (v, x) \<in> E' \<longleftrightarrow> (\<exists>v0. (v0, x) \<in> E \<and> v = reweigh i w' v0)"
    and w': "tx_id w' = i" and mem: "(w', u) \<in> E'"
  shows "idx_id m E \<Longrightarrow> idx_id (hm_insert i w' m) E'"
    and "idx_bytes b E \<Longrightarrow> idx_bytes b E'"
    and "idx_input n E \<Longrightarrow> idx_input (hm_map (reweigh i w') n) E'"
    and "idx_output k E \<Longrightarrow> idx_output (hm_map (\<lambda>(v, x). (reweigh i w' v, x)) k) E'"
proof -
  have id: "tx_id (reweigh i w' v) = tx_id v" for v using w' by (simp add: reweigh_def)
  show "idx_bytes b E \<Longrightarrow> idx_bytes b E'"
    unfolding idx_bytes_def E' using id by metis
  show "idx_input n E \<Longrightarrow> idx_input (hm_map (reweigh i w') n) E'"
    unfolding idx_input_def E' hm_get_map map_option_eq_Some by blast
  show "idx_output k E \<Longrightarrow> idx_output (hm_map (\<lambda>(v, x). (reweigh i w' v, x)) k) E'"
    unfolding idx_output_def E' hm_get_map map_option_eq_Some by (simp add: split_paired_Ex) blast
  assume "idx_id m E"
  then have m: "map_of m j = Some v \<longleftrightarrow> tx_id v = j \<and> (\<exists>x. (v, x) \<in> E)" for j v
    by (simp add: idx_id_def)
  show "idx_id (hm_insert i w' m) E'"
    unfolding idx_id_def
  proof (intro allI)
    fix j v
    show "map_of (hm_insert i w' m) j = Some v \<longleftrightarrow> tx_id v = j \<and> (\<exists>x. (v, x) \<in> E')"
    proof (cases "j = i")
      case True
      have "v = w'" if "tx_id v = i" "(v, x) \<in> E'" for x
      proof -
        from that(2) obtain v0 where "v = reweigh i w' v0" unfolding E' by blast
        with that(1) show ?thesis by (cases "tx_id v0 = i") (simp_all add: reweigh_def)
      qed
      with True w' mem show ?thesis by auto
    next
      case False
      have "(\<exists>x. (v, x) \<in> E') \<longleftrightarrow> (\<exists>x. (v, x) \<in> E)" if "tx_id v \<noteq> i"
        using that w' unfolding E' by (auto simp: reweigh_def)
      with False show ?thesis using m by auto
    qed
  qed
qed

lemma update_weight_absent: "\<not> pool_contains i p \<Longrightarrow> update_weight i n p = p"
  by (simp add: update_weight_def pool_contains_def)

lemma update_weight_entry:
  assumes inv: "pool_inv p" and e: "(w, u) \<in> set (ordered p)" and i: "tx_id w = i"
  shows "set (ordered (update_weight i n p)) = insert (w\<lparr>weight := n\<rparr>, u) (set (ordered p) - {(w, u)})"
    and "length (ordered (update_weight i n p)) = length (ordered p)"
    and "pool_inv (update_weight i n p)"
proof -
  note D = pool_invD [OF inv]
  let ?w = "w\<lparr>weight := n\<rparr>" and ?m = "bt_remove weight_cmp w (ordered p)"
  have "map_of (by_id p) i = Some w" using pool_inv_by_id [OF inv e] i by simp
  then have r: "update_weight i n p = p\<lparr>by_id := hm_insert i ?w (by_id p),
      by_input := hm_map (reweigh i ?w) (by_input p),
      by_output := hm_map (\<lambda>(v, x). (reweigh i ?w v, x)) (by_output p),
      ordered := bt_insert weight_cmp ?w u ?m\<rparr>"
    using wcmp.get_member [OF D(1) e] by (simp add: update_weight_def Let_def reweigh_def [abs_def])
  have fresh: "weight_cmp ?w k \<noteq> Equal" if "(k, v) \<in> set ?m" for k v
    using that one_per_idD [OF pool_inv_one_per_id [OF inv] e, of k v]
    by (auto simp: weight_cmp_iff wcmp.remove_set [OF D(1) e])
  have "set (bt_insert weight_cmp ?w u ?m) = insert (?w, u) (set ?m)"
    by (rule wcmp.insert_fresh_set) (rule fresh)
  then show E: "set (ordered (update_weight i n p)) = insert (?w, u) (set (ordered p) - {(w, u)})"
    unfolding r using wcmp.remove_set [OF D(1) e] by simp
  have "length (bt_insert weight_cmp ?w u ?m) = Suc (length ?m)"
    by (rule wcmp.insert_fresh_length) (rule fresh)
  then show "length (ordered (update_weight i n p)) = length (ordered p)"
    unfolding r using wcmp.remove_length [OF D(1) e] by simp
  have sorted: "bt_sorted weight_cmp (bt_insert weight_cmp ?w u ?m)"
    by (rule wcmp.insert_sorted) (rule bt_sorted_remove [OF D(1)], rule fresh)
  have mem: "(v, x) \<in> set (ordered (update_weight i n p)) \<longleftrightarrow>
      (\<exists>v0. (v0, x) \<in> set (ordered p) \<and> v = reweigh i ?w v0)" for v x
    unfolding E by (rule reweigh_entries [OF pool_inv_one_per_id [OF inv] e i])
  have i': "tx_id ?w = i" using i by simp
  have "(?w, u) \<in> set (ordered (update_weight i n p))" unfolding E by simp
  note idx = idx_reweigh [OF mem i' this]
  have "ids_agree (set (ordered (update_weight i n p)))"
    unfolding E using D(2) e by (auto simp: ids_agree_def)
  with idx D sorted show "pool_inv (update_weight i n p)"
    unfolding pool_inv_def by (simp add: r)
qed

lemma update_weight_inv: "pool_inv p \<Longrightarrow> pool_inv (update_weight i n p)"
  using update_weight_absent update_weight_entry(3) by (metis pool_containsE)

lemma update_weight_length: "pool_inv p \<Longrightarrow> length (ordered (update_weight i n p)) = length (ordered p)"
  using update_weight_absent update_weight_entry(2) by (metis pool_containsE)

subsection \<open>The pool as a map\<close>

text \<open>The abstract pool: transaction ids to weighted entries. A client needs only these laws.\<close>

locale tx_pool =
  fixes inv :: "'p \<Rightarrow> bool"
    and entries :: "'p \<Rightarrow> id32 \<rightharpoonup> 'e"
    and remove :: "id32 \<Rightarrow> 'p \<Rightarrow> 'p"
    and size :: "'p \<Rightarrow> nat"
  assumes remove_inv: "inv p \<Longrightarrow> inv (remove i p)"
    and remove_entries: "inv p \<Longrightarrow> entries (remove i p) = (entries p)(i := None)"
    and size_dom: "inv p \<Longrightarrow> finite (dom (entries p)) \<and> size p = card (dom (entries p))"
begin

lemma remove_all_inv: "inv p \<Longrightarrow> inv (fold remove is p)"
  by (induction "is" arbitrary: p) (simp_all add: remove_inv)

lemma remove_all_entries: "inv p \<Longrightarrow> entries (fold remove is p) = entries p |` (- set is)"
proof (induction "is" arbitrary: p)
  case (Cons i "is")
  then show ?case by (auto simp: remove_inv remove_entries restrict_map_def fun_eq_iff)
qed (simp add: restrict_map_def)

lemma remove_all_size: "inv p \<Longrightarrow> size (fold remove is p) \<le> size p"
proof -
  assume p: "inv p"
  have "dom (entries (fold remove is p)) \<subseteq> dom (entries p)"
    by (auto simp: remove_all_entries [OF p])
  then show ?thesis
    using size_dom [OF p] size_dom [OF remove_all_inv [OF p, of "is"]] by (simp add: card_mono)
qed

end

definition pool_drop :: "id32 \<Rightarrow> ordered_pool \<Rightarrow> ordered_pool" where
  "pool_drop i p = snd (pool_remove i p)"

definition pool_entries :: "ordered_pool \<Rightarrow> id32 \<rightharpoonup> pool_entry" where
  "pool_entries p = (\<lambda>i. get_weighted i p)"

lemma pool_entries_Some:
  "pool_inv p \<Longrightarrow> pool_entries p i = Some (w, u) \<longleftrightarrow> (w, u) \<in> set (ordered p) \<and> tx_id w = i"
  by (simp add: pool_entries_def get_weighted_iff)

lemma pool_entries_eqI:
  assumes "\<And>i w u. pool_entries p i = Some (w, u) \<longleftrightarrow> m i = Some (w, u)"
  shows "pool_entries p = m"
proof
  fix i
  show "pool_entries p i = m i"
    using assms [of i] by (cases "pool_entries p i"; cases "m i") auto
qed

lemma pool_drop_entries: "pool_inv p \<Longrightarrow> pool_entries (pool_drop i p) = (pool_entries p)(i := None)"
  by (rule pool_entries_eqI)
    (auto simp: pool_drop_def pool_entries_Some pool_remove_inv pool_remove_set)

lemma pool_entries_dom:
  assumes "pool_inv p"
  shows "dom (pool_entries p) = tx_id ` fst ` set (ordered p)"
  using pool_entries_Some [OF assms] by (force simp: dom_def)

lemma pool_size_dom:
  assumes "pool_inv p"
  shows "finite (dom (pool_entries p)) \<and> pool_len p = card (dom (pool_entries p))"
proof -
  have d: "distinct (map fst (ordered p))"
    by (rule wcmp.sorted_distinct [OF pool_invD(1) [OF assms]])
  have "inj_on (tx_id \<circ> fst) (set (ordered p))"
    using one_per_idD [OF pool_inv_one_per_id [OF assms]] by (intro inj_onI) (auto simp: prod_eq_iff)
  then have "card ((tx_id \<circ> fst) ` set (ordered p)) = card (set (ordered p))" by (rule card_image)
  also have "\<dots> = length (ordered p)" using d by (intro distinct_card) (simp add: distinct_map)
  finally show ?thesis by (simp add: pool_entries_dom [OF assms] pool_len_def image_comp)
qed

interpretation otx: tx_pool pool_inv pool_entries pool_drop pool_len
  by unfold_locales (simp_all add: pool_drop_def pool_remove_inv pool_drop_entries [unfolded pool_drop_def]
      pool_size_dom)

lemma pool_contains_entries: "pool_inv p \<Longrightarrow> pool_contains i p \<longleftrightarrow> i \<in> dom (pool_entries p)"
  by (simp add: pool_contains_iff pool_entries_def dom_def)

lemma insert_utx_entries:
  assumes "pool_inv p" and "pool_inv (insert_utx w u p)" and "\<not> pool_contains (tx_id w) p"
  shows "pool_entries (insert_utx w u p) = (pool_entries p)(tx_id w \<mapsto> (w, u))"
  using pool_inv_fresh_key [OF assms(1,3)]
  by (intro pool_entries_eqI)
    (auto simp: pool_entries_Some assms(1,2) ordered_insert(1) [OF assms(1,3)])

lemma update_weight_entries:
  assumes inv: "pool_inv p"
  shows "pool_entries (update_weight i n p) =
    (pool_entries p)(i := map_option (\<lambda>(w, u). (w\<lparr>weight := n\<rparr>, u)) (pool_entries p i))"
proof (cases "pool_contains i p")
  case True
  then obtain w u where e: "(w, u) \<in> set (ordered p)" "tx_id w = i" by (rule pool_containsE [OF inv])
  then have pe: "pool_entries p i = Some (w, u)" by (simp add: pool_entries_Some [OF inv])
  show ?thesis
  proof (rule pool_entries_eqI)
    fix j v x
    have "(v, x) \<in> set (ordered p) \<and> tx_id v = j \<longleftrightarrow> pool_entries p j = Some (v, x)"
      by (simp add: pool_entries_Some [OF inv])
    then show "pool_entries (update_weight i n p) j = Some (v, x) \<longleftrightarrow>
        ((pool_entries p)(i := map_option (\<lambda>(w, u). (w\<lparr>weight := n\<rparr>, u)) (pool_entries p i))) j = Some (v, x)"
      unfolding pool_entries_Some [OF update_weight_inv [OF inv]] update_weight_entry(1) [OF inv e]
      using e pe by (cases "j = i") auto
  qed
next
  case False
  then have "pool_entries p i = None" unfolding pool_contains_iff [OF inv] pool_entries_def by blast
  with False show ?thesis by (simp add: update_weight_absent fun_upd_idem)
qed

subsection \<open>Eviction\<close>

lemma evict_lowest_last:
  assumes inv: "pool_inv p" and ne: "ordered p \<noteq> []"
  defines "e \<equiv> last (ordered p)"
  shows "evict_lowest p = Some (tx_id (fst e), pool_drop (tx_id (fst e)) p)"
    and "pool_contains (tx_id (fst e)) p"
    and "(w, u) \<in> set (ordered p) \<Longrightarrow> weight (fst e) \<le> weight w"
proof -
  have e: "e \<in> set (ordered p)" using ne by (simp add: e_def)
  show "evict_lowest p = Some (tx_id (fst e), pool_drop (tx_id (fst e)) p)"
    using ne by (simp add: evict_lowest_def pool_drop_def e_def Let_def)
  show "pool_contains (tx_id (fst e)) p"
    using pool_inv_by_id [OF inv, of "fst e" "snd e"] e by (simp add: pool_contains_def)
  show "weight (fst e) \<le> weight w" if "(w, u) \<in> set (ordered p)"
  proof (cases "(w, u) = e")
    case False
    obtain xs where xs: "ordered p = xs @ [e]" using ne by (metis append_butlast_last_id e_def)
    with that False have "(w, u) \<in> set xs" by auto
    then have "weight_cmp w (fst e) = Less"
      using pool_invD(1) [OF inv] xs by (force simp: bt_sorted_def sorted_wrt_append)
    then show ?thesis by (auto simp: weight_cmp_iff)
  qed auto
qed

lemma pool_capacity_ops [simp]:
  "pool_capacity (insert_utx w u p) = pool_capacity p"
  "pool_capacity (pool_drop i p) = pool_capacity p"
  "pool_capacity (update_weight i n p) = pool_capacity p"
  by (auto simp: insert_utx_def pool_insert_def pool_drop_def pool_remove_def update_weight_def Let_def
      split: option.split)

subsection \<open>Propagation\<close>

text \<open>Propagation changes weights only: the same transactions stay in the pool, with the same
  bookkeeping, and the indexes stay consistent.\<close>

lemma update_weight_get: "pool_inv p \<Longrightarrow> pool_get j (update_weight i n p) = pool_get j p"
  using update_weight_entries [of p i n]
  by (cases "pool_entries p i") (auto simp: pool_get_weighted pool_entries_def fun_eq_iff)

lemma propagate_loop_spec:
  "pool_inv p \<Longrightarrow> let q = propagate_loop elapsed k depth st p in
     pool_inv q \<and> pool_len q = pool_len p \<and> pool_capacity q = pool_capacity p
       \<and> (\<forall>i. pool_get i q = pool_get i p)"
proof (induction elapsed k depth st p rule: propagate_loop.induct)
  case (2 elapsed k depth i w st p)
  show ?case
  proof (cases "depth \<ge> MAX_PARENT_SCAN_DEPTH \<or> elapsed k \<ge> MAX_PARENT_SCAN_MS")
    case True
    with 2 show ?thesis by auto
  next
    case False
    then have lim: "\<not> depth \<ge> MAX_PARENT_SCAN_DEPTH" "\<not> elapsed k \<ge> MAX_PARENT_SCAN_MS" by auto
    show ?thesis
    proof (cases "map_of (by_id p) i")
      case None
      with 2 lim show ?thesis by simp
    next
      case (Some v)
      let ?p = "update_weight i (weight v + w) p"
      note IH = 2(2) [OF lim Some refl refl update_weight_inv [OF 2(3)]]
      have "pool_len ?p = pool_len p" "\<And>j. pool_get j ?p = pool_get j p"
        using 2(3) by (simp_all add: pool_len_def update_weight_length update_weight_get)
      with IH Some lim show ?thesis by (simp add: Let_def)
    qed
  qed
qed simp

lemma propagate_family_weight_spec:
  assumes "pool_inv p"
  shows "pool_inv (propagate_family_weight elapsed ids w p)"
    and "pool_len (propagate_family_weight elapsed ids w p) = pool_len p"
    and "pool_capacity (propagate_family_weight elapsed ids w p) = pool_capacity p"
    and "pool_get i (propagate_family_weight elapsed ids w p) = pool_get i p"
  using propagate_loop_spec [OF assms, of elapsed 0 0 "push_parents p ids w []"]
  by (simp_all add: propagate_family_weight_def Let_def)

subsection \<open>Bookkeeping changes\<close>

lemma pool_modify_entry:
  assumes inv: "pool_inv p" and e: "(w, u) \<in> set (ordered p)" and i: "tx_id w = i"
    and f: "utx_tx (f u) = utx_tx u" "utx_bytes (f u) = utx_bytes u"
  shows "set (ordered (pool_modify i f p)) = insert (w, f u) (set (ordered p) - {(w, u)})"
    and "pool_inv (pool_modify i f p)"
proof -
  note D = pool_invD [OF inv]
  have "map_of (by_id p) i = Some w" using pool_inv_by_id [OF inv e] i by simp
  then have r: "pool_modify i f p = p\<lparr>ordered := bt_modify weight_cmp w f (ordered p)\<rparr>"
    by (simp add: pool_modify_def)
  let ?E = "set (ordered p)" and ?E' = "insert (w, f u) (set (ordered p) - {(w, u)})"
  show E: "set (ordered (pool_modify i f p)) = ?E'"
    unfolding r using wcmp.modify_set [OF D(1) e] by simp
  have ex: "(\<exists>x. (v, x) \<in> ?E' \<and> P (utx_tx x) (utx_bytes x)) \<longleftrightarrow>
      (\<exists>x. (v, x) \<in> ?E \<and> P (utx_tx x) (utx_bytes x))" for v P
  proof -
    have "P (utx_tx (f u)) (utx_bytes (f u)) \<longleftrightarrow> P (utx_tx u) (utx_bytes u)" by (simp only: f)
    with e show ?thesis by blast
  qed
  have idx: "idx_id m ?E \<Longrightarrow> idx_id m ?E'" "idx_input n ?E \<Longrightarrow> idx_input n ?E'"
    "idx_output k ?E \<Longrightarrow> idx_output k ?E'" "idx_bytes b ?E \<Longrightarrow> idx_bytes b ?E'" for m n k b
    unfolding idx_defs
    using ex [of _ "\<lambda>_ _. True"] ex [of _ "\<lambda>t _. b \<in> set (tx_inputs t)" for b]
      ex [of _ "\<lambda>t _. y \<in> set (output_boxes t)" for y] ex [of v "\<lambda>_ b. tx_id v = i \<and> b = bs" for v i bs]
    by (simp_all only: simp_thms)
  have "ids_agree ?E'" using D(2) e f(1) by (auto simp: ids_agree_def)
  then show "pool_inv (pool_modify i f p)"
    using D idx unfolding pool_inv_def E by (simp add: r)
qed

lemma pool_modify_absent: "\<not> pool_contains i p \<Longrightarrow> pool_modify i f p = p"
  by (simp add: pool_modify_def pool_contains_def)

lemma pool_modify_inv:
  assumes "pool_inv p" and "\<And>u. utx_tx (f u) = utx_tx u" and "\<And>u. utx_bytes (f u) = utx_bytes u"
  shows "pool_inv (pool_modify i f p)"
  using assms pool_modify_absent pool_modify_entry(2) by (metis pool_containsE)

lemma pool_modify_len [simp]: "pool_len (pool_modify i f p) = pool_len p"
  by (simp add: pool_modify_def pool_len_def split: option.split)

lemma pool_modify_capacity [simp]: "pool_capacity (pool_modify i f p) = pool_capacity p"
  by (simp add: pool_modify_def split: option.split)

lemma pool_modify_contains [simp]: "pool_contains j (pool_modify i f p) = pool_contains j p"
  by (simp add: pool_modify_def pool_contains_def split: option.split)

subsection \<open>What the indexes answer\<close>

lemma reader_tx_bytes_get: "pool_inv p \<Longrightarrow> reader_tx_bytes i p = map_option utx_bytes (pool_get i p)"
proof -
  assume inv: "pool_inv p"
  have "reader_tx_bytes i p = Some bs \<longleftrightarrow> map_option utx_bytes (pool_get i p) = Some bs" for bs
  proof -
    have "reader_tx_bytes i p = Some bs \<longleftrightarrow> (\<exists>w u. get_weighted i p = Some (w, u) \<and> utx_bytes u = bs)"
      using pool_invD(6) [OF inv] by (simp add: reader_tx_bytes_def idx_bytes_def get_weighted_iff [OF inv])
    then show ?thesis by (cases "get_weighted i p") (auto simp: pool_get_weighted)
  qed
  then show ?thesis by (rule option_eqI)
qed

lemma spending_tx_iff:
  "pool_inv p \<Longrightarrow> spending_tx b p = Some w \<longleftrightarrow>
     (\<exists>u. (w, u) \<in> set (ordered p) \<and> b \<in> set (tx_inputs (utx_tx u)))"
  using pool_invD(4) [of p] by (simp add: spending_tx_def idx_input_def)

lemma no_double_spend:
  assumes "pool_inv p" and "(w, u) \<in> set (ordered p)" and "(w', u') \<in> set (ordered p)"
    and "b \<in> set (tx_inputs (utx_tx u))" and "b \<in> set (tx_inputs (utx_tx u'))"
  shows "(w, u) = (w', u')"
proof -
  have "spending_tx b p = Some w" "spending_tx b p = Some w'"
    using assms by (auto simp: spending_tx_iff)
  then have "w = w'" by simp
  then show ?thesis
    using one_per_idD [OF pool_inv_one_per_id [OF assms(1)] assms(2,3)] by simp
qed

section \<open>Properties\<close>

text \<open>(C11) The pool with its five indexes refines a finite map from transaction ids to weighted
  entries. Inserting a transaction that is new, conflict-free and has new output boxes adds exactly
  its entry; removing deletes exactly that id (and returns its entry); re-weighting changes exactly
  that weight; and each keeps every index consistent with the ordered store.\<close>

theorem pool_refines_map:
  assumes "pool_inv p"
  shows "pool_inv (snd (pool_remove i p))
    \<and> pool_entries (snd (pool_remove i p)) = (pool_entries p)(i := None)
    \<and> fst (pool_remove i p) = map_option snd (pool_entries p i)
    \<and> pool_inv (update_weight i n p)
    \<and> pool_entries (update_weight i n p) =
        (pool_entries p)(i := map_option (\<lambda>(w, u). (w\<lparr>weight := n\<rparr>, u)) (pool_entries p i))
    \<and> (pool_entries p (tx_id w) = None \<and> tx_id w = tx_ident (utx_tx u)
        \<and> no_conflict (utx_tx u) p \<and> fresh_outputs (utx_tx u) p \<longrightarrow>
       pool_inv (pool_insert w u (tx_inputs (utx_tx u)) (output_boxes (utx_tx u)) p)
       \<and> pool_entries (pool_insert w u (tx_inputs (utx_tx u)) (output_boxes (utx_tx u)) p)
           = (pool_entries p)(tx_id w \<mapsto> (w, u)))"
proof -
  have ins: "pool_inv (insert_utx w u p) \<and> pool_entries (insert_utx w u p) = (pool_entries p)(tx_id w \<mapsto> (w, u))"
    if "pool_entries p (tx_id w) = None" "tx_id w = tx_ident (utx_tx u)" "no_conflict (utx_tx u) p"
      "fresh_outputs (utx_tx u) p"
  proof -
    have "\<not> pool_contains (tx_id w) p" using that(1) pool_contains_entries [OF assms, of "tx_id w"] by auto
    with pool_insert_inv [OF assms this that(3,4,2)] insert_utx_entries [OF assms _ this, of u]
    show ?thesis by blast
  qed
  have "fst (pool_remove i p) = map_option snd (pool_entries p i)"
  proof (cases "pool_contains i p")
    case True
    then obtain v x where "(v, x) \<in> set (ordered p)" "tx_id v = i" by (rule pool_containsE [OF assms])
    then show ?thesis using pool_remove_entry(1) [OF assms] pool_entries_Some [OF assms, of i v x] by simp
  next
    case False
    then have "pool_entries p i = None" unfolding pool_contains_iff [OF assms] pool_entries_def by blast
    with False show ?thesis by (simp add: pool_remove_absent)
  qed
  with ins show ?thesis
    using pool_drop_entries [OF assms, of i] pool_remove_inv [OF assms, of i]
      update_weight_inv [OF assms, of i n] update_weight_entries [OF assms, of i n]
    unfolding pool_drop_def insert_utx_def by blast
qed

definition sample_utx :: "id32 \<Rightarrow> id32 list \<Rightarrow> ergo_box list \<Rightarrow> u64 \<Rightarrow> unconfirmed_tx" where
  "sample_utx i ins outs fee = \<lparr>utx_tx = \<lparr>tx_ident = i, tx_inputs = ins, tx_data_inputs = None,
     tx_outputs = outs\<rparr>, utx_bytes = [1, 2, 3], utx_fee = fee, utx_cost = 10,
     utx_validation_cost = Some 5, utx_created = 0, utx_last_checked = 0, utx_source = None\<rparr>"

theorem pool_refines_map_witness:
  "let w = tx_weight_new 7 1000000 3 10 FeePerByte; u = sample_utx 7 [1, 2] [] 1000000;
       p = pool_new 10 in
   pool_entries (pool_insert w u [1, 2] [] p) = [7 \<mapsto> (w, u)]
   \<and> pool_entries (snd (pool_remove 8 p)) = Map.empty"
proof -
  have e: "pool_entries (pool_new 10) = Map.empty"
    by (simp add: pool_entries_def get_weighted_def pool_new_def)
  show ?thesis
    using pool_refines_map [OF pool_new_inv [of 10], of 8 0 "tx_weight_new 7 1000000 3 10 FeePerByte"
        "sample_utx 7 [1, 2] [] 1000000"] e
    by (simp add: Let_def sample_utx_def tx_weight_new_def no_conflict_def fresh_outputs_def
        spending_tx_def unconfirmed_box_def pool_new_def output_boxes_def)
qed

text \<open>A transaction's weight is the fee per kilobyte (or per kilo-cost), exactly, with no
  overflow in between: \<open>fee * 1024\<close> divided by the factor, saturated at the largest \<open>u64\<close>; a cost of
  zero counts as 1000, and only an empty transaction has weight zero by division.\<close>

theorem tx_weight_exact:
  assumes "n < 2 ^ 64"
  shows "let factor = (case strategy of FeePerByte \<Rightarrow> n
           | FeePerCycle \<Rightarrow> if cost = 0 then 1000 else unat cost) in
     unat (fee_per_factor (tx_weight_new i fee n cost strategy)) =
       (if factor = 0 then 0 else min (unat fee * 1024 div factor) (2 ^ 64 - 1))
     \<and> weight (tx_weight_new i fee n cost strategy)
         = fee_per_factor (tx_weight_new i fee n cost strategy)
     \<and> tx_id (tx_weight_new i fee n cost strategy) = i"
proof -
  define ff :: u64 where "ff = (case strategy of FeePerByte \<Rightarrow> of_nat n
      | FeePerCycle \<Rightarrow> if cost = 0 then ucast FAKE_COST else ucast cost)"
  have un: "unat (ucast c :: u64) = unat c" for c :: u32
    by (rule unat_ucast_widen) simp
  have un128: "unat (ucast c :: u128) = unat c" for c :: u64
    by (rule unat_ucast_widen) simp
  have ff: "unat ff = (case strategy of FeePerByte \<Rightarrow> n
      | FeePerCycle \<Rightarrow> if cost = 0 then 1000 else unat cost)"
    using assms by (auto simp: ff_def FAKE_COST_def un unat_of_nat split: fee_strategy.split)
  have fee: "unat (ucast fee * 1024 :: u128) = unat fee * 1024"
  proof -
    have "unat fee < 2 ^ 64" by (rule unat_u64_bound)
    then have "unat fee * 1024 < 2 ^ 128" by simp
    then show ?thesis by (simp add: unat_word_ariths un128)
  qed
  have "unat ((ucast fee * 1024) div ucast ff :: u128) = unat fee * 1024 div unat ff"
    by (simp only: unat_div_distrib fee un128)
  then have q: "unat (saturating_u64 ((ucast fee * 1024) div ucast ff)) = min (unat fee * 1024 div unat ff) (2 ^ 64 - 1)"
    by (simp only: unat_saturating_u64)
  have "tx_weight_new i fee n cost strategy =
      (let fpf = (if ff = 0 then 0 else saturating_u64 ((ucast fee * 1024) div ucast ff))
       in \<lparr>weight = fpf, fee_per_factor = fpf, tx_id = i\<rparr>)"
    by (simp add: tx_weight_new_def ff_def)
  moreover have "ff = 0 \<longleftrightarrow> unat ff = 0" by (simp add: unsigned_eq_0_iff)
  ultimately show ?thesis
    unfolding Let_def ff [symmetric] using q by simp
qed

theorem tx_weight_exact_witness:
  "unat (fee_per_factor (tx_weight_new 1 1000000 250 0 FeePerByte)) = 4096000
   \<and> unat (fee_per_factor (tx_weight_new 1 1000000 250 0 FeePerCycle)) = 1024000"
  using tx_weight_exact [where n = 250 and strategy = FeePerByte and cost = 0 and i = 1 and fee = 1000000]
    tx_weight_exact [where n = 250 and strategy = FeePerCycle and cost = 0 and i = 1 and fee = 1000000]
  by simp

end
