(* ===== verification/Expiring_Cache.thy ===== *)
theory Expiring_Cache
  imports Chain_Types
begin

text \<open>
  The time-bounded set of \<open>mempool/src/expiring_cache.rs\<close>, in which the mempool remembers invalidated
  transaction ids. The clock is an argument of each operation that reads it.
\<close>

section \<open>Definitions\<close>

record 'k expiring_cache =
  cache_entries :: "('k, instant) hmap"
  insertion_order :: "'k list"
  cache_ttl :: duration
  cache_capacity :: nat

definition cache_new :: "duration \<Rightarrow> nat \<Rightarrow> 'k expiring_cache" where
  "cache_new ttl capacity =
     \<lparr>cache_entries = [], insertion_order = [], cache_ttl = ttl, cache_capacity = capacity\<rparr>"

text \<open>The \<open>while\<close> loop of \<open>insert\<close>: drop oldest entries until there is room or no order left.\<close>

fun cache_make_room :: "nat \<Rightarrow> 'k list \<Rightarrow> ('k, instant) hmap \<Rightarrow> 'k list \<times> ('k, instant) hmap" where
  "cache_make_room capacity [] es = ([], es)"
| "cache_make_room capacity (oldest # order) es =
     (if length es \<ge> capacity then cache_make_room capacity order (hm_remove oldest es)
      else (oldest # order, es))"

definition cache_insert :: "instant \<Rightarrow> 'k \<Rightarrow> 'k expiring_cache \<Rightarrow> 'k expiring_cache" where
  "cache_insert now key c =
     (if map_of (cache_entries c) key \<noteq> None then c
      else let (order, es) = cache_make_room (cache_capacity c) (insertion_order c) (cache_entries c) in
        c\<lparr>cache_entries := hm_insert key now es, insertion_order := order @ [key]\<rparr>)"

definition cache_contains :: "instant \<Rightarrow> 'k \<Rightarrow> 'k expiring_cache \<Rightarrow> bool" where
  "cache_contains now key c =
     (case map_of (cache_entries c) key of Some inserted \<Rightarrow> now - inserted < cache_ttl c | None \<Rightarrow> False)"

definition cache_prune :: "instant \<Rightarrow> 'k expiring_cache \<Rightarrow> 'k expiring_cache" where
  "cache_prune now c =
     (let es = hm_retain (\<lambda>_ inserted. now - inserted < cache_ttl c) (cache_entries c) in
      c\<lparr>cache_entries := es, insertion_order := filter (\<lambda>k. map_of es k \<noteq> None) (insertion_order c)\<rparr>)"

definition cache_len :: "'k expiring_cache \<Rightarrow> nat" where
  "cache_len c = length (cache_entries c)"

definition cache_is_empty :: "'k expiring_cache \<Rightarrow> bool" where
  "cache_is_empty c \<longleftrightarrow> cache_entries c = []"

definition cache_clear :: "'k expiring_cache \<Rightarrow> 'k expiring_cache" where
  "cache_clear c = c\<lparr>cache_entries := [], insertion_order := []\<rparr>"

section \<open>Invariant\<close>

text \<open>The order lists exactly the keys, once each, and the capacity is respected (a cache of capacity
  0 holds the last key inserted: the check comes before the insertion).\<close>

definition order_matches :: "('k, instant) hmap \<Rightarrow> 'k list \<Rightarrow> bool" where
  "order_matches es order \<longleftrightarrow> keys_distinct es \<and> distinct order \<and> set order = fst ` set es"

definition cache_inv :: "'k expiring_cache \<Rightarrow> bool" where
  "cache_inv c \<longleftrightarrow> order_matches (cache_entries c) (insertion_order c)
     \<and> length (cache_entries c) \<le> max 1 (cache_capacity c)"

lemma order_matches_length: "order_matches es order \<Longrightarrow> length es = length order"
  by (metis card_image distinct_card distinct_map keys_distinct_def list.set_map length_map order_matches_def)

lemma hm_remove_keys: "fst ` set (hm_remove k es) = fst ` set es - {k}"
  by (simp add: hm_remove_def delete_conv' dom_map_of_conv_image_fst [symmetric])

lemma order_matches_remove:
  "order_matches es (k # order) \<Longrightarrow> order_matches (hm_remove k es) order"
  by (auto simp: order_matches_def hm_remove_keys)

lemma make_room_spec:
  "cache_make_room cap order es = (order', es') \<Longrightarrow> order_matches es order \<Longrightarrow>
     order_matches es' order' \<and> (length es' < cap \<or> es' = [])
     \<and> (\<exists>dropped. order = dropped @ order'
         \<and> (\<forall>k. map_of es' k = (if k \<in> set dropped then None else map_of es k)))"
proof (induction cap order es arbitrary: order' es' rule: cache_make_room.induct)
  case (1 cap es)
  then show ?case by (auto simp: order_matches_def)
next
  case (2 cap k order es)
  show ?case
  proof (cases "length es \<ge> cap")
    case True
    with 2 have "order_matches es' order' \<and> (length es' < cap \<or> es' = [])
     \<and> (\<exists>dropped. order = dropped @ order'
         \<and> (\<forall>j. map_of es' j = (if j \<in> set dropped then None else map_of (hm_remove k es) j)))"
      using order_matches_remove [OF 2(3)] by simp
    then obtain d where "order = d @ order'" "order_matches es' order' \<and> (length es' < cap \<or> es' = [])"
      "\<forall>j. map_of es' j = (if j \<in> set d then None else map_of (hm_remove k es) j)" by blast
    then show ?thesis by (intro conjI exI [of _ "k # d"]) auto
  next
    case False
    with 2 show ?thesis by auto
  qed
qed

lemma order_matches_insert:
  assumes "order_matches es order" and "map_of es k = None"
  shows "order_matches (hm_insert k t es) (order @ [k])"
proof -
  have "k \<notin> fst ` set es" using assms(2) by (simp add: map_of_eq_None_iff)
  moreover have "fst ` set (hm_insert k t es) = insert k (fst ` set es)"
    by (simp add: hm_insert_def update_conv' flip: dom_map_of_conv_image_fst)
  ultimately show ?thesis using assms(1) by (auto simp: order_matches_def)
qed

lemma cache_new_inv: "cache_inv (cache_new ttl capacity)"
  by (simp add: cache_inv_def cache_new_def order_matches_def)

lemma cache_insert_spec:
  assumes inv: "cache_inv c" and new: "map_of (cache_entries c) key = None"
  shows "cache_inv (cache_insert now key c) \<and> cache_ttl (cache_insert now key c) = cache_ttl c
    \<and> cache_capacity (cache_insert now key c) = cache_capacity c
    \<and> (\<exists>dropped kept. insertion_order c = dropped @ kept
        \<and> insertion_order (cache_insert now key c) = kept @ [key]
        \<and> (\<forall>k. map_of (cache_entries (cache_insert now key c)) k =
             (if k = key then Some now else if k \<in> set dropped then None else map_of (cache_entries c) k)))"
proof -
  obtain order es where r: "cache_make_room (cache_capacity c) (insertion_order c) (cache_entries c) = (order, es)"
    by (cases "cache_make_room (cache_capacity c) (insertion_order c) (cache_entries c)")
  from make_room_spec [OF r] inv have om: "order_matches es order"
    and len: "length es < cache_capacity c \<or> es = []"
    and dr: "\<exists>dropped. insertion_order c = dropped @ order \<and>
        (\<forall>k. map_of es k = (if k \<in> set dropped then None else map_of (cache_entries c) k))"
    by (auto simp: cache_inv_def)
  from dr obtain d where d: "insertion_order c = d @ order"
    "\<forall>k. map_of es k = (if k \<in> set d then None else map_of (cache_entries c) k)" by blast
  have ins: "cache_insert now key c =
      c\<lparr>cache_entries := hm_insert key now es, insertion_order := order @ [key]\<rparr>"
    using new r by (simp add: cache_insert_def)
  have kn: "map_of es key = None" using d(2) new by simp
  note om' = order_matches_insert [OF om kn, of now]
  have "length (hm_insert key now es) = Suc (length es)"
    using order_matches_length [OF om'] order_matches_length [OF om] by simp
  then have "cache_inv (cache_insert now key c)"
    unfolding ins cache_inv_def using om' len by (auto simp: max_def)
  then show ?thesis using d by (auto simp: ins)
qed

lemma cache_insert_inv: "cache_inv c \<Longrightarrow> cache_inv (cache_insert now key c)"
  using cache_insert_spec [of c key now] by (cases "map_of (cache_entries c) key") (simp_all add: cache_insert_def)

lemma cache_prune_inv: "cache_inv c \<Longrightarrow> cache_inv (cache_prune now c)"
proof -
  assume inv: "cache_inv c"
  let ?es = "hm_retain (\<lambda>_ inserted. now - inserted < cache_ttl c) (cache_entries c)"
  have "{k \<in> fst ` set (cache_entries c). map_of ?es k \<noteq> None} = fst ` set ?es"
    by (auto simp: map_of_eq_None_iff hm_retain_def image_iff split_beta)
  moreover have "length ?es \<le> length (cache_entries c)" by (simp add: hm_retain_def)
  ultimately show ?thesis
    using inv by (auto simp: cache_inv_def cache_prune_def Let_def order_matches_def)
qed

lemma cache_prune_contains:
  assumes "cache_inv c" and "now \<le> later"
  shows "cache_contains later k (cache_prune now c) = cache_contains later k c"
proof -
  have "keys_distinct (cache_entries c)" using assms(1) by (simp add: cache_inv_def order_matches_def)
  then show ?thesis using assms(2)
    by (auto simp: cache_contains_def cache_prune_def Let_def hm_get_retain split: option.split)
qed

section \<open>Properties\<close>



text \<open>Inserting a key whose entry has expired but has not been pruned does nothing: the key stays
  expired, so the insertion is lost.\<close>

theorem cache_insert_expired_lost:
  "let c = cache_insert 0 k (cache_new ttl capacity) in
   \<not> cache_contains ttl k (cache_insert ttl k c)"
  by (cases capacity)
    (simp_all add: Let_def cache_insert_def cache_new_def cache_contains_def)

end
