(* ===== verification/Fee_Stats.thy ===== *)
theory Fee_Stats
  imports Chain_Types
begin

text \<open>
  Fee statistics over confirmed pool transactions, \<open>mempool/src/stats.rs\<close>: a histogram of waits by
  whole minutes, and a throughput window that moves at most once per measurement interval. Counters
  are \<open>u64\<close>; the fee sums saturate.
\<close>

section \<open>Definitions\<close>

definition HISTOGRAM_BINS :: nat where
  "HISTOGRAM_BINS = 60"

definition MEASUREMENT_INTERVAL :: duration where
  "MEASUREMENT_INTERVAL = from_secs 60"

record fee_histogram_bin =
  n_txns :: u64
  total_fee :: u64

definition bin_default :: fee_histogram_bin where
  "bin_default = \<lparr>n_txns = 0, total_fee = 0\<rparr>"

definition bin_add :: "u64 \<Rightarrow> fee_histogram_bin \<Rightarrow> fee_histogram_bin" where
  "bin_add fpf b = \<lparr>n_txns = n_txns b + 1, total_fee = saturating_add (total_fee b) fpf\<rparr>"

record fee_stats =
  histogram :: "fee_histogram_bin list"
  window_start :: instant
  taken :: u64
  snap_time :: instant
  snap_taken :: u64

definition stats_new :: "instant \<Rightarrow> fee_stats" where
  "stats_new now = \<lparr>histogram = replicate HISTOGRAM_BINS bin_default, window_start = now, taken = 0,
     snap_time = now, snap_taken = 0\<rparr>"

text \<open>The window step of \<open>record_confirmation\<close>; \<open>now - t\<close> on naturals is \<open>saturating_duration_since\<close>.\<close>

definition move_window :: "instant \<Rightarrow> fee_stats \<Rightarrow> fee_stats" where
  "move_window now s =
     (if now - snap_time s > MEASUREMENT_INTERVAL then
        let s1 = (if snap_taken s \<noteq> 0
                  then s\<lparr>taken := taken s - snap_taken s, window_start := snap_time s\<rparr> else s)
        in s1\<lparr>snap_taken := taken s1, snap_time := now\<rparr>
      else s)"

definition record_confirmation :: "instant \<Rightarrow> instant \<Rightarrow> u64 \<Rightarrow> fee_stats \<Rightarrow> fee_stats" where
  "record_confirmation now created fpf s =
     (let s1 = move_window now (s\<lparr>taken := taken s + 1\<rparr>);
          minutes = as_secs (now - created) div 60 in
      if minutes < HISTOGRAM_BINS
      then s1\<lparr>histogram := (histogram s1)[minutes := bin_add fpf (histogram s1 ! minutes)]\<rparr>
      else s1)"

definition fee_for_wait :: "u32 \<Rightarrow> u32 \<Rightarrow> fee_stats \<Rightarrow> u64 option" where
  "fee_for_wait wait_minutes tx_size s =
     (let last_bin = min (unat wait_minutes) (HISTOGRAM_BINS - 1) in
      map_option (\<lambda>b. let average = total_fee b div n_txns b in
          saturating_u64 (ucast average * ucast tx_size div 1024))
        (find (\<lambda>b. n_txns b \<noteq> 0) (take (Suc last_bin) (histogram s))))"

definition wait_for_position :: "instant \<Rightarrow> u64 \<Rightarrow> fee_stats \<Rightarrow> u64" where
  "wait_for_position now position s =
     (if taken s = 0 then 0
      else let elapsed = min (now - window_start s) MEASUREMENT_INTERVAL in
        saturating_u64 (of_nat (as_millis elapsed) * ucast position div ucast (taken s)))"

section \<open>Runs\<close>

type_synonym confirmation = "instant \<times> instant \<times> u64"

definition confirm_all :: "confirmation list \<Rightarrow> fee_stats \<Rightarrow> fee_stats" where
  "confirm_all cs s = fold (\<lambda>(now, created, fpf). record_confirmation now created fpf) cs s"

definition wait_minutes :: "confirmation \<Rightarrow> nat" where
  "wait_minutes c = (case c of (now, created, _) \<Rightarrow> as_secs (now - created) div 60)"

definition conf_fee :: "confirmation \<Rightarrow> nat" where
  "conf_fee c = (case c of (_, _, fpf) \<Rightarrow> unat fpf)"

lemma confirm_all_snoc:
  "confirm_all (cs @ [c]) s = record_confirmation (fst c) (fst (snd c)) (snd (snd c)) (confirm_all cs s)"
  by (simp add: confirm_all_def split_beta)

lemma move_window_hist [simp]: "histogram (move_window now s) = histogram s"
  by (simp add: move_window_def Let_def)

lemma record_hist:
  assumes "length (histogram s) = HISTOGRAM_BINS" and "m < HISTOGRAM_BINS"
  shows "histogram (record_confirmation now created fpf s) ! m =
    (if wait_minutes (now, created, fpf) = m then bin_add fpf (histogram s ! m) else histogram s ! m)"
  using assms by (auto simp: record_confirmation_def Let_def wait_minutes_def)

lemma record_hist_length [simp]:
  "length (histogram (record_confirmation now created fpf s)) = length (histogram s)"
  by (simp add: record_confirmation_def Let_def)

lemma confirm_all_length: "length (histogram (confirm_all cs (stats_new t))) = HISTOGRAM_BINS"
proof (induction cs rule: rev_induct)
  case Nil
  show ?case by (simp add: confirm_all_def stats_new_def)
next
  case (snoc c cs)
  then show ?case by (simp add: confirm_all_snoc)
qed

definition in_bin :: "nat \<Rightarrow> confirmation list \<Rightarrow> confirmation list" where
  "in_bin m cs = filter (\<lambda>c. wait_minutes c = m) cs"

lemma confirm_all_bin:
  assumes "m < HISTOGRAM_BINS"
  shows "length cs < 2 ^ 64 \<Longrightarrow>
    unat (n_txns (histogram (confirm_all cs (stats_new t)) ! m)) = length (in_bin m cs)
    \<and> unat (total_fee (histogram (confirm_all cs (stats_new t)) ! m)) =
        min (\<Sum>c\<leftarrow>in_bin m cs. conf_fee c) (2 ^ 64 - 1)"
proof (induction cs rule: rev_induct)
  case Nil
  with assms show ?case
    by (simp add: confirm_all_def stats_new_def bin_default_def in_bin_def)
next
  case (snoc c cs)
  let ?b = "histogram (confirm_all cs (stats_new t)) ! m"
  obtain now created fpf where c: "c = (now, created, fpf)" by (cases c) auto
  have IH: "unat (n_txns ?b) = length (in_bin m cs)"
    "unat (total_fee ?b) = min (\<Sum>c\<leftarrow>in_bin m cs. conf_fee c) (2 ^ 64 - 1)"
    using snoc by simp_all
  have h: "histogram (confirm_all (cs @ [c]) (stats_new t)) ! m =
      (if wait_minutes c = m then bin_add fpf ?b else ?b)"
    using record_hist [OF confirm_all_length assms] c by (simp add: confirm_all_snoc)
  have "length (in_bin m cs) \<le> length cs" by (simp add: in_bin_def)
  then have "Suc (unat (n_txns ?b)) < 2 ^ 64" using IH(1) snoc.prems by simp
  then have "unat (n_txns ?b + 1) = Suc (unat (n_txns ?b))" by (simp add: unat_word_ariths)
  moreover have "unat (saturating_add (total_fee ?b) fpf) =
      min ((\<Sum>c\<leftarrow>in_bin m cs. conf_fee c) + unat fpf) (2 ^ 64 - 1)"
    using IH(2) by (simp add: unat_saturating_add min_def)
  ultimately show ?case
    using IH h c by (auto simp: in_bin_def bin_add_def conf_fee_def)
qed

section \<open>The window\<close>

text \<open>The snapshot never exceeds the count, and the count is positive once anything was confirmed.\<close>

definition window_inv :: "nat \<Rightarrow> fee_stats \<Rightarrow> bool" where
  "window_inv n s \<longleftrightarrow> unat (snap_taken s) \<le> unat (taken s) \<and> unat (taken s) \<le> n
     \<and> (0 < n \<longrightarrow> 0 < unat (taken s))"

lemma record_window:
  "taken (record_confirmation now created fpf s) = taken (move_window now (s\<lparr>taken := taken s + 1\<rparr>))"
  "snap_taken (record_confirmation now created fpf s) = snap_taken (move_window now (s\<lparr>taken := taken s + 1\<rparr>))"
  by (simp_all add: record_confirmation_def Let_def)

lemma window_inv_step:
  assumes "window_inv n s" and "Suc n < 2 ^ 64"
  shows "window_inv (Suc n) (record_confirmation now created fpf s)"
proof -
  have t: "unat (taken s + 1) = Suc (unat (taken s))"
    using assms by (simp add: window_inv_def unat_word_ariths)
  have "unat (taken s + 1 - snap_taken s) = Suc (unat (taken s)) - unat (snap_taken s)"
    using assms(1) t by (subst unat_sub) (simp_all add: window_inv_def word_le_nat_alt)
  then show ?thesis
    using assms t by (auto simp: window_inv_def record_window move_window_def Let_def)
qed

lemma confirm_all_window: "length cs < 2 ^ 64 \<Longrightarrow> window_inv (length cs) (confirm_all cs (stats_new t))"
proof (induction cs rule: rev_induct)
  case (snoc c cs)
  then show ?case by (simp add: confirm_all_snoc window_inv_step)
qed (simp add: confirm_all_def stats_new_def window_inv_def)

section \<open>Properties\<close>

text \<open>After any run of fewer than \<open>2 ^ 64\<close> confirmations, bin \<open>m\<close> of the histogram holds exactly
  the transactions that waited \<open>m\<close> whole minutes and the (saturated) sum of their fee rates; the
  throughput window never empties once something was confirmed, its snapshot never exceeds its count
  (so the subtraction that moves it cannot underflow), and the count never exceeds the number of
  confirmations.\<close>

theorem fee_stats_exact:
  assumes "length cs < 2 ^ 64" and "m < HISTOGRAM_BINS"
  shows "let s = confirm_all cs (stats_new t) in
     unat (n_txns (histogram s ! m)) = length (filter (\<lambda>c. wait_minutes c = m) cs)
     \<and> unat (total_fee (histogram s ! m)) =
         min (\<Sum>c\<leftarrow>filter (\<lambda>c. wait_minutes c = m) cs. conf_fee c) (2 ^ 64 - 1)
     \<and> snap_taken s \<le> taken s \<and> unat (taken s) \<le> length cs \<and> (cs \<noteq> [] \<longrightarrow> taken s \<noteq> 0)"
  using confirm_all_bin [OF assms(2,1), of t] confirm_all_window [OF assms(1), of t]
  by (auto simp: Let_def in_bin_def window_inv_def word_le_nat_alt)

theorem fee_stats_exact_witness:
  "let s = confirm_all [(90 * 10 ^ 9, 0, 7), (95 * 10 ^ 9, 10 ^ 9, 8)] (stats_new 0) in
   unat (n_txns (histogram s ! 1)) = 2 \<and> unat (total_fee (histogram s ! 1)) = 15 \<and> taken s \<noteq> 0"
  using fee_stats_exact [of "[(90 * 10 ^ 9, 0, 7), (95 * 10 ^ 9, 10 ^ 9, 8)]" 1 0]
  by (simp add: Let_def wait_minutes_def conf_fee_def as_secs_def HISTOGRAM_BINS_def)

text \<open>The two estimates read from the statistics are the documented integer formulas, without
  overflow: a fee comes from the first non-empty bin within the wait, the average fee rate times the
  size divided by 1024; a wait is the window's elapsed milliseconds (at most a minute) times the
  position over the count; and both saturate at the largest \<open>u64\<close>.\<close>

theorem fee_estimates_exact:
  "fee_for_wait wait_min n s =
     (case find (\<lambda>b. n_txns b \<noteq> 0) (take (Suc (min (unat wait_min) 59)) (histogram s)) of
        None \<Rightarrow> None
      | Some b \<Rightarrow> Some (of_nat (min (unat (total_fee b) div unat (n_txns b) * unat n div 1024) (2 ^ 64 - 1))))
   \<and> unat (wait_for_position now position s) =
       (if taken s = 0 then 0
        else min (as_millis (min (now - window_start s) MEASUREMENT_INTERVAL) * unat position
                  div unat (taken s)) (2 ^ 64 - 1))"
proof -
  have w: "unat (ucast x :: u128) = unat x" for x :: u64 by (rule unat_ucast_widen) simp
  have w32: "unat (ucast x :: u128) = unat x" for x :: u32 by (rule unat_ucast_widen) simp
  have fee: "saturating_u64 (ucast (a div b) * ucast n div 1024)
      = of_nat (min (unat a div unat b * unat n div 1024) (2 ^ 64 - 1))" for a b :: u64
  proof -
    have "unat (a div b) < 2 ^ 64" "unat n < 2 ^ 32" by (rule unat_u64_bound, rule unat_u32_bound)
    then have "unat (a div b) * unat n < 2 ^ 64 * 2 ^ 32" by (intro mult_strict_mono) simp_all
    then have "unat (ucast (a div b) * ucast n :: u128) = unat (a div b) * unat n"
      by (simp add: unat_word_ariths w w32)
    then have "unat (saturating_u64 (ucast (a div b) * ucast n div 1024))
        = min (unat a div unat b * unat n div 1024) (2 ^ 64 - 1)"
      by (simp only: unat_saturating_u64 unat_div_distrib) (simp add: unat_div_distrib)
    then show ?thesis by (metis of_nat_unat ucast_id)
  qed
  have "as_millis (min d MEASUREMENT_INTERVAL) \<le> 60000" for d
    by (auto simp: as_millis_def MEASUREMENT_INTERVAL_def from_secs_def min_def)
  note le = this [of "now - window_start s"]
  let ?e = "as_millis (min (now - window_start s) MEASUREMENT_INTERVAL)"
  have "?e * unat position < 2 ^ 128"
  proof -
    have "?e * unat position \<le> 60000 * unat position" using le by simp
    also have "\<dots> < 2 ^ 128" using unat_u64_bound [of position] by simp
    finally show ?thesis .
  qed
  moreover have "unat (of_nat ?e :: u128) = ?e" using le by (simp add: unat_of_nat)
  ultimately have "unat (of_nat ?e * ucast position :: u128) = ?e * unat position"
    by (simp add: unat_word_ariths w)
  then show ?thesis
    by (simp add: fee_for_wait_def wait_for_position_def Let_def HISTOGRAM_BINS_def fee
        unat_saturating_u64 unat_div_distrib w split: option.split)
qed

end
