(* ===== verification/Mempool.thy ===== *)
theory Mempool
  imports Pool Expiring_Cache Fee_Stats
begin

text \<open>
  The mempool of \<open>mempool/src/lib.rs\<close>, \<open>process.rs\<close> and \<open>cleanup.rs\<close>: admitting a transaction (rate
  limits, input resolution, validation, replace-by-fee, capacity), applying a block, returning
  rolled-back transactions, revalidation, rebroadcast selection and the fee queries. What the code takes
  from outside is a record of parameters: the UTXO reader, the preheader height and the script validator
  (\<open>validate_single_transaction\<close>, which wraps the external interpreter). An operation that reads the clock
  takes it as an argument, read once per call.
\<close>

section \<open>State\<close>

record mempool_config =
  cfg_capacity :: nat
  cfg_min_fee :: u64
  cfg_fee_strategy :: fee_strategy
  cfg_cleanup_interval :: duration
  cfg_rebroadcast_count :: nat
  cfg_invalidation_ttl :: duration
  cfg_invalidation_capacity :: nat
  cfg_cost_per_block :: u64
  cfg_cost_per_peer_per_block :: u64
  cfg_reward_delay :: i32

definition mempool_config_default :: mempool_config where
  "mempool_config_default = \<lparr>cfg_capacity = 1000, cfg_min_fee = 1000000, cfg_fee_strategy = FeePerByte,
     cfg_cleanup_interval = from_secs 30, cfg_rebroadcast_count = 3, cfg_invalidation_ttl = from_secs 1800,
     cfg_invalidation_capacity = 10000, cfg_cost_per_block = 12000000,
     cfg_cost_per_peer_per_block = 10000000, cfg_reward_delay = 720\<rparr>"

record mempool =
  mp_pool :: ordered_pool
  mp_invalidated :: "id32 expiring_cache"
  mp_stats :: fee_stats
  mp_config :: mempool_config
  mp_fee_proposition :: bytes
  mp_interblock_cost :: u64
  mp_per_peer_cost :: "(u64, u64) hmap"

text \<open>The external fee proposition builder is an argument; \<open>None\<close> is the documented startup panic.\<close>

definition mempool_new :: "(i32 \<Rightarrow> bytes option) \<Rightarrow> instant \<Rightarrow> mempool_config \<Rightarrow> mempool option" where
  "mempool_new fee_proposition now config =
     map_option (\<lambda>fp.
       \<lparr>mp_pool = pool_new (cfg_capacity config),
        mp_invalidated = cache_new (cfg_invalidation_ttl config) (cfg_invalidation_capacity config),
        mp_stats = stats_new now, mp_config = config, mp_fee_proposition = fp,
        mp_interblock_cost = 0, mp_per_peer_cost = []\<rparr>) (fee_proposition (cfg_reward_delay config))"

record chain_env =
  utxo_box :: "id32 \<Rightarrow> ergo_box option"
  pre_header_height :: u32
  validate :: "transaction \<Rightarrow> ergo_box list \<Rightarrow> ergo_box list \<Rightarrow> string + u64"

definition mp_contains :: "instant \<Rightarrow> id32 \<Rightarrow> mempool \<Rightarrow> bool" where
  "mp_contains now i m \<longleftrightarrow> pool_contains i (mp_pool m) \<or> cache_contains now i (mp_invalidated m)"

definition is_invalidated :: "instant \<Rightarrow> id32 \<Rightarrow> mempool \<Rightarrow> bool" where
  "is_invalidated now i m \<longleftrightarrow> cache_contains now i (mp_invalidated m)"

section \<open>Admission\<close>

datatype decline_reason =
    InterblockBudget | PeerBudget | TooManyInputs nat | InputNotFound id32
  | AbovePreheader u32 u32 | FeeBelowMinimum u64 u64 | PoolFull

datatype processing_outcome =
    Accepted id32
  | Replaced id32 "id32 list"
  | DoubleSpendLoser "id32 list"
  | Declined decline_reason
  | Invalidated string
  | AlreadyInPool

definition MAX_TX_INPUTS :: nat where
  "MAX_TX_INPUTS = 5000"

definition extract_fee :: "transaction \<Rightarrow> bytes \<Rightarrow> u64" where
  "extract_fee tx fee_proposition =
     sum_list (map box_value (filter (\<lambda>out. box_tree out = fee_proposition) (tx_outputs tx)))"

definition output_above_preheader :: "transaction \<Rightarrow> u32 \<Rightarrow> u32 option" where
  "output_above_preheader tx height =
     find (\<lambda>h. sint h > sint height) (map box_creation_height (tx_outputs tx))"

text \<open>A box from the UTXO set, or else from the pool's unconfirmed outputs.\<close>

definition lookup_box :: "chain_env \<Rightarrow> ordered_pool \<Rightarrow> id32 \<Rightarrow> ergo_box option" where
  "lookup_box env p i = (case utxo_box env i of Some b \<Rightarrow> Some b | None \<Rightarrow> unconfirmed_box i p)"

fun resolve_inputs :: "chain_env \<Rightarrow> ordered_pool \<Rightarrow> id32 list \<Rightarrow> id32 + ergo_box list" where
  "resolve_inputs env p [] = Inr []"
| "resolve_inputs env p (i # is) =
     (case lookup_box env p i of
        None \<Rightarrow> Inl i
      | Some b \<Rightarrow> and_then (resolve_inputs env p is) (\<lambda>bs. Inr (b # bs)))"

definition resolve_data_inputs :: "chain_env \<Rightarrow> ordered_pool \<Rightarrow> transaction \<Rightarrow> ergo_box list" where
  "resolve_data_inputs env p tx =
     (case tx_data_inputs tx of None \<Rightarrow> [] | Some ds \<Rightarrow> List.map_filter (lookup_box env p) ds)"

text \<open>Step 3, the rate limits on transactions from peers.\<close>

definition rate_limit :: "u64 option \<Rightarrow> mempool \<Rightarrow> decline_reason option" where
  "rate_limit source m =
     (case source of
        None \<Rightarrow> None
      | Some peer \<Rightarrow>
          if mp_interblock_cost m \<ge> cfg_cost_per_block (mp_config m) then Some InterblockBudget
          else (case map_of (mp_per_peer_cost m) peer of
                  None \<Rightarrow> None
                | Some peer_cost \<Rightarrow>
                    if peer_cost \<ge> cfg_cost_per_peer_per_block (mp_config m) then Some PeerBudget else None))"

definition charge_peer :: "u64 option \<Rightarrow> u32 \<Rightarrow> mempool \<Rightarrow> mempool" where
  "charge_peer source cost m =
     (case source of
        None \<Rightarrow> m
      | Some peer \<Rightarrow>
          m\<lparr>mp_interblock_cost := mp_interblock_cost m + ucast cost,
            mp_per_peer_cost := hm_insert peer
              ((case map_of (mp_per_peer_cost m) peer of None \<Rightarrow> 0 | Some c \<Rightarrow> c) + ucast cost)
              (mp_per_peer_cost m)\<rparr>)"

text \<open>Step 9: the pool transactions that spend one of the inputs, each once, in input order.\<close>

definition find_conflicts :: "ordered_pool \<Rightarrow> id32 list \<Rightarrow> id32 list" where
  "find_conflicts p input_ids =
     fold (\<lambda>i conflicts. case spending_tx i p of
             None \<Rightarrow> conflicts
           | Some w \<Rightarrow> if tx_id w \<in> set conflicts then conflicts else conflicts @ [tx_id w]) input_ids []"

definition avg_conflict_weight :: "ordered_pool \<Rightarrow> id32 list \<Rightarrow> u64" where
  "avg_conflict_weight p conflicts =
     sum_list (map weight (List.map_filter (\<lambda>i. map_of (by_id p) i) conflicts))
       div of_nat (length conflicts)"

text \<open>Step 13: evict while over capacity. The source loops without a bound.\<close>

partial_function (option) evict_over :: "nat \<Rightarrow> ordered_pool \<Rightarrow> id32 list \<Rightarrow> (ordered_pool \<times> id32 list) option" where
  "evict_over capacity p evicted =
     (if pool_len p > capacity then
        (case evict_lowest p of
           None \<Rightarrow> evict_over capacity p evicted
         | Some (i, p') \<Rightarrow> evict_over capacity p' (evicted @ [i]))
      else Some (p, evicted))"

declare evict_over.simps [code]

text \<open>Steps 8 to 13, for a validated transaction that pays the minimum fee. \<open>elapsed\<close> is the clock of
  the family scan.\<close>

definition admit ::
  "instant \<Rightarrow> (nat \<Rightarrow> nat) \<Rightarrow> transaction \<Rightarrow> bytes \<Rightarrow> u64 option \<Rightarrow> u64 \<Rightarrow> u32 \<Rightarrow> u64 \<Rightarrow> mempool
    \<Rightarrow> (processing_outcome \<times> mempool) option" where
  "admit now elapsed tx tx_bytes source fee cost validation_cost m =
     (let w = tx_weight_new (tx_ident tx) fee (length tx_bytes) cost (cfg_fee_strategy (mp_config m));
          p = mp_pool m;
          conflicts = find_conflicts p (tx_inputs tx) in
      if conflicts \<noteq> [] \<and> weight w \<le> avg_conflict_weight p conflicts
      then Some (DoubleSpendLoser conflicts, m)
      else
        let p1 = fold (\<lambda>i p. snd (pool_remove i p)) conflicts p in
        if is_full p1 \<and> (case lowest_weight p1 of None \<Rightarrow> False | Some lowest \<Rightarrow> weight w \<le> lowest)
        then Some (Declined PoolFull, m\<lparr>mp_pool := p1\<rparr>)
        else
          let utx = \<lparr>utx_tx = tx, utx_bytes = tx_bytes, utx_fee = fee, utx_cost = cost,
                utx_validation_cost = Some validation_cost, utx_created = now, utx_last_checked = now,
                utx_source = source\<rparr>;
              p2 = pool_insert w utx (tx_inputs tx) (output_boxes tx) p1;
              p3 = propagate_family_weight elapsed (tx_inputs tx) (fee_per_factor w) p2 in
          map_option (\<lambda>(p4, evicted).
              (if conflicts = [] then Accepted (tx_ident tx)
               else Replaced (tx_ident tx) (conflicts @ evicted), m\<lparr>mp_pool := p4\<rparr>))
            (evict_over (cfg_capacity (mp_config m)) p3 []))"

definition process ::
  "chain_env \<Rightarrow> instant \<Rightarrow> (nat \<Rightarrow> nat) \<Rightarrow> transaction \<Rightarrow> bytes \<Rightarrow> u64 option \<Rightarrow> mempool
    \<Rightarrow> (processing_outcome \<times> mempool) option" where
  "process env now elapsed tx tx_bytes source m =
     (if cache_contains now (tx_ident tx) (mp_invalidated m) then
        Some (Invalidated ''previously invalidated'', m)
      else if pool_contains (tx_ident tx) (mp_pool m) then Some (AlreadyInPool, m)
      else case rate_limit source m of
        Some r \<Rightarrow> Some (Declined r, m)
      | None \<Rightarrow>
        if length (tx_inputs tx) > MAX_TX_INPUTS then
          Some (Declined (TooManyInputs (length (tx_inputs tx))), m)
        else case resolve_inputs env (mp_pool m) (tx_inputs tx) of
          Inl i \<Rightarrow> Some (Declined (InputNotFound i), m)
        | Inr input_boxes \<Rightarrow>
          (case output_above_preheader tx (pre_header_height env) of
             Some h \<Rightarrow> Some (Declined (AbovePreheader h (pre_header_height env)), m)
           | None \<Rightarrow>
             (case validate env tx input_boxes (resolve_data_inputs env (mp_pool m) tx) of
                Inl e \<Rightarrow>
                  Some (Invalidated e,
                    m\<lparr>mp_invalidated := cache_insert now (tx_ident tx) (mp_invalidated m)\<rparr>)
              | Inr validation_cost \<Rightarrow>
                  let cost = ucast (max validation_cost (of_nat (length tx_bytes))) :: u32;
                      m1 = charge_peer source cost m;
                      fee = extract_fee tx (mp_fee_proposition m1) in
                  if fee < cfg_min_fee (mp_config m1) then
                    Some (Declined (FeeBelowMinimum fee (cfg_min_fee (mp_config m1))), m1)
                  else admit now elapsed tx tx_bytes source fee cost validation_cost m1)))"

section \<open>Blocks and reorganisations\<close>

definition mp_invalidate :: "instant \<Rightarrow> id32 \<Rightarrow> mempool \<Rightarrow> mempool" where
  "mp_invalidate now i m =
     m\<lparr>mp_pool := snd (pool_remove i (mp_pool m)),
       mp_invalidated := cache_insert now i (mp_invalidated m)\<rparr>"

text \<open>One confirmed input: the pool transaction spending it, other than the confirmed one, goes.\<close>

definition remove_spender :: "id32 \<Rightarrow> id32 \<Rightarrow> ordered_pool \<times> id32 list \<Rightarrow> ordered_pool \<times> id32 list" where
  "remove_spender confirmed input_id st =
     (case st of (p, removed) \<Rightarrow>
       (case spending_tx input_id p of
          None \<Rightarrow> (p, removed)
        | Some w \<Rightarrow>
            if tx_id w \<noteq> confirmed then
              (case pool_remove (tx_id w) p of
                 (None, p') \<Rightarrow> (p', removed)
               | (Some _, p') \<Rightarrow> (p', removed @ [tx_id w]))
            else (p, removed)))"

definition confirm_tx :: "instant \<Rightarrow> transaction \<Rightarrow> mempool \<times> id32 list \<Rightarrow> mempool \<times> id32 list" where
  "confirm_tx now tx st =
     (case st of (m, removed) \<Rightarrow>
       let i = tx_ident tx;
           stats = (case get_weighted i (mp_pool m) of
               None \<Rightarrow> mp_stats m
             | Some (w, utx) \<Rightarrow> record_confirmation now (utx_created utx) (fee_per_factor w) (mp_stats m));
           (p, removed') = (case pool_remove i (mp_pool m) of
               (None, p) \<Rightarrow> (p, removed)
             | (Some _, p) \<Rightarrow> (p, removed @ [i]));
           (p', removed'') = fold (remove_spender i) (tx_inputs tx) (p, removed')
       in (m\<lparr>mp_stats := stats, mp_pool := p'\<rparr>, removed''))"

definition apply_block_at :: "instant \<Rightarrow> transaction list \<Rightarrow> mempool \<Rightarrow> mempool \<times> id32 list" where
  "apply_block_at now confirmed_txs m =
     (case fold (confirm_tx now) confirmed_txs (m, []) of (m1, removed) \<Rightarrow>
       (m1\<lparr>mp_interblock_cost := 0, mp_per_peer_cost := [],
          mp_invalidated := cache_prune now (mp_invalidated m1)\<rparr>, removed))"

definition return_to_pool :: "unconfirmed_tx list \<Rightarrow> mempool \<Rightarrow> mempool" where
  "return_to_pool txs m =
     fold (\<lambda>utx m.
        if pool_contains (tx_ident (utx_tx utx)) (mp_pool m) then m
        else let w = tx_weight_new (tx_ident (utx_tx utx)) (utx_fee utx) (length (utx_bytes utx))
                   (utx_cost utx) (cfg_fee_strategy (mp_config m))
          in m\<lparr>mp_pool := pool_insert w utx (tx_inputs (utx_tx utx)) (output_boxes (utx_tx utx)) (mp_pool m)\<rparr>)
      txs m"

section \<open>Cleanup\<close>

definition CLEANUP_COST_LIMIT :: u64 where
  "CLEANUP_COST_LIMIT = 7000000"

fun revalidate_loop ::
  "chain_env \<Rightarrow> instant \<Rightarrow> u64 \<Rightarrow> id32 list \<Rightarrow> u64 \<Rightarrow> mempool \<Rightarrow> id32 list \<Rightarrow> mempool \<times> id32 list" where
  "revalidate_loop env now limit [] spent m removed = (m, removed)"
| "revalidate_loop env now limit (i # is) spent m removed =
     (case pool_get i (mp_pool m) of
        None \<Rightarrow> revalidate_loop env now limit is spent m removed
      | Some utx \<Rightarrow>
          if now - utx_last_checked utx \<le> cfg_cleanup_interval (mp_config m) then
            revalidate_loop env now limit is spent m removed
          else if spent \<ge> limit then (m, removed)
          else if output_above_preheader (utx_tx utx) (pre_header_height env) \<noteq> None then
            revalidate_loop env now limit is spent m removed
          else
            let previous_cost = (case utx_validation_cost utx of None \<Rightarrow> 0 | Some c \<Rightarrow> c) in
            (case resolve_inputs env (mp_pool m) (tx_inputs (utx_tx utx)) of
               Inl _ \<Rightarrow>
                 revalidate_loop env now limit is (saturating_add spent previous_cost)
                   (m\<lparr>mp_pool := snd (pool_remove i (mp_pool m))\<rparr>) (removed @ [i])
             | Inr input_boxes \<Rightarrow>
                 (case validate env (utx_tx utx) input_boxes
                         (resolve_data_inputs env (mp_pool m) (utx_tx utx)) of
                    Inr measured \<Rightarrow>
                      revalidate_loop env now limit is (saturating_add spent measured)
                        (m\<lparr>mp_pool := pool_modify i
                             (\<lambda>u. u\<lparr>utx_validation_cost := Some measured, utx_last_checked := now\<rparr>) (mp_pool m)\<rparr>)
                        removed
                  | Inl e \<Rightarrow>
                      revalidate_loop env now limit is (saturating_add spent previous_cost)
                        (m\<lparr>mp_invalidated := cache_insert now i (mp_invalidated m),
                           mp_pool := snd (pool_remove i (mp_pool m))\<rparr>) (removed @ [i]))))"

definition revalidate_within :: "chain_env \<Rightarrow> instant \<Rightarrow> u64 \<Rightarrow> mempool \<Rightarrow> mempool \<times> id32 list" where
  "revalidate_within env now limit m =
     revalidate_loop env now limit (map (tx_id \<circ> fst) (ordered (mp_pool m))) 0 m []"

definition revalidate_at :: "chain_env \<Rightarrow> instant \<Rightarrow> mempool \<Rightarrow> mempool \<times> id32 list" where
  "revalidate_at env now m = revalidate_within env now CLEANUP_COST_LIMIT m"

definition select_for_rebroadcast :: "chain_env \<Rightarrow> mempool \<Rightarrow> unconfirmed_tx list" where
  "select_for_rebroadcast env m =
     take (cfg_rebroadcast_count (mp_config m))
       (filter (\<lambda>utx. list_all (\<lambda>i. utxo_box env i \<noteq> None) (tx_inputs (utx_tx utx)))
         (all_prioritized (mp_pool m)))"

section \<open>Fee queries\<close>

definition recommended_fee :: "u32 \<Rightarrow> u32 \<Rightarrow> mempool \<Rightarrow> u64" where
  "recommended_fee wait_mins tx_size m =
     (case fee_for_wait wait_mins tx_size (mp_stats m) of
        None \<Rightarrow> cfg_min_fee (mp_config m)
      | Some fee \<Rightarrow> max fee (cfg_min_fee (mp_config m)))"

definition expected_wait_ms_at :: "instant \<Rightarrow> u64 \<Rightarrow> u32 \<Rightarrow> mempool \<Rightarrow> u64" where
  "expected_wait_ms_at now fee tx_size m =
     (let fee_per_kb = saturating_u64 (ucast fee * 1024 div ucast tx_size);
          position = length (takeWhile (\<lambda>(w, _). weight w > fee_per_kb) (ordered (mp_pool m))) in
      wait_for_position now (of_nat position) (mp_stats m))"

definition pool_histogram_at :: "instant \<Rightarrow> u32 \<Rightarrow> u64 \<Rightarrow> mempool \<Rightarrow> fee_histogram_bin list" where
  "pool_histogram_at now bins max_wait_ms m =
     (let last_bin = ucast bins :: u64;
          interval = max_wait_ms div last_bin in
      fold (\<lambda>(w, utx) h.
          let wait = saturating_u64 (of_nat (as_millis (now - utx_created utx)));
              bin = unat (if wait < max_wait_ms then min (wait div interval) last_bin else last_bin)
          in h[bin := bin_add (fee_per_factor w) (h ! bin)])
        (ordered (mp_pool m)) (replicate (unat bins + 1) bin_default))"

section \<open>Invariant\<close>

text \<open>The indexes agree, the invalidation cache is consistent, and the pool is within its capacity.\<close>

definition mp_inv :: "mempool \<Rightarrow> bool" where
  "mp_inv m \<longleftrightarrow> pool_inv (mp_pool m) \<and> cache_inv (mp_invalidated m)
     \<and> pool_capacity (mp_pool m) = cfg_capacity (mp_config m)
     \<and> pool_len (mp_pool m) \<le> cfg_capacity (mp_config m)"

lemma mempool_new_inv: "mempool_new fp now config = Some m \<Longrightarrow> mp_inv m"
  by (auto simp: mempool_new_def mp_inv_def pool_new_inv cache_new_inv) (auto simp: pool_new_def pool_len_def)

lemma snd_pool_remove [simp]: "snd (pool_remove i p) = pool_drop i p"
  by (simp add: pool_drop_def)

lemma drop_all_entries:
  assumes "pool_inv p"
  shows "(w, u) \<in> set (ordered (fold pool_drop is p)) \<longleftrightarrow> (w, u) \<in> set (ordered p) \<and> tx_id w \<notin> set is"
proof -
  have "(w, u) \<in> set (ordered q) \<longleftrightarrow> pool_entries q (tx_id w) = Some (w, u)" if "pool_inv q" for q
    by (simp add: pool_entries_Some [OF that])
  then show ?thesis
    using otx.remove_all_inv [OF assms, of "is"] otx.remove_all_entries [OF assms, of "is"] assms
    by (auto simp: restrict_map_def)
qed

lemma drop_all_capacity [simp]: "pool_capacity (fold pool_drop is p) = pool_capacity p"
  by (induction "is" arbitrary: p) simp_all

lemma unconfirmed_box_iff:
  "pool_inv p \<Longrightarrow> unconfirmed_box b p = Some x \<longleftrightarrow>
     (\<exists>w u. (w, u) \<in> set (ordered p) \<and> (b, x) \<in> set (output_boxes (utx_tx u)))"
  using pool_invD(5) [of p] by (auto simp: unconfirmed_box_def idx_output_def)

lemma fresh_outputs_drop_all:
  assumes "pool_inv p" and "fresh_outputs t p"
  shows "fresh_outputs t (fold pool_drop is p)"
proof -
  have "unconfirmed_box b (fold pool_drop is p) = None" if "unconfirmed_box b p = None" for b
  proof (rule ccontr)
    assume "unconfirmed_box b (fold pool_drop is p) \<noteq> None"
    then obtain x where "unconfirmed_box b (fold pool_drop is p) = Some x" by blast
    then have "unconfirmed_box b p = Some x"
      unfolding unconfirmed_box_iff [OF assms(1)] unconfirmed_box_iff [OF otx.remove_all_inv [OF assms(1)]]
        drop_all_entries [OF assms(1)] by blast
    with that show False by simp
  qed
  with assms(2) show ?thesis by (simp add: fresh_outputs_def)
qed

subsection \<open>Conflicts\<close>

definition conflict_step :: "ordered_pool \<Rightarrow> id32 \<Rightarrow> id32 list \<Rightarrow> id32 list" where
  "conflict_step p i conflicts = (case spending_tx i p of
     None \<Rightarrow> conflicts
   | Some w \<Rightarrow> if tx_id w \<in> set conflicts then conflicts else conflicts @ [tx_id w])"

lemma conflict_step_set:
  "set (conflict_step p i cs) = set cs \<union> {tx_id w | w. spending_tx i p = Some w}"
  by (auto simp: conflict_step_def split: option.split)

lemma find_conflicts_fold: "find_conflicts p is = fold (conflict_step p) is []"
  by (simp add: find_conflicts_def conflict_step_def [abs_def])

lemma find_conflicts_set: "set (find_conflicts p is) = {tx_id w | w i. i \<in> set is \<and> spending_tx i p = Some w}"
proof -
  have "set (fold (conflict_step p) is cs) = set cs \<union> {tx_id w | w i. i \<in> set is \<and> spending_tx i p = Some w}" for cs
    by (induction "is" arbitrary: cs) (auto simp: conflict_step_set)
  then show ?thesis by (simp add: find_conflicts_fold)
qed

lemma no_conflict_after_drop:
  assumes "pool_inv p"
  shows "no_conflict tx (fold pool_drop (find_conflicts p (tx_inputs tx)) p)"
  unfolding no_conflict_def
proof (intro ballI)
  fix b
  let ?cs = "find_conflicts p (tx_inputs tx)"
  assume b: "b \<in> set (tx_inputs tx)"
  show "spending_tx b (fold pool_drop ?cs p) = None"
  proof (rule ccontr)
    assume "spending_tx b (fold pool_drop ?cs p) \<noteq> None"
    then obtain w where "spending_tx b (fold pool_drop ?cs p) = Some w" by blast
    then have "spending_tx b p = Some w \<and> tx_id w \<notin> set ?cs"
      unfolding spending_tx_iff [OF assms] spending_tx_iff [OF otx.remove_all_inv [OF assms]]
        drop_all_entries [OF assms] by blast
    with b show False unfolding find_conflicts_set by blast
  qed
qed

lemma find_conflicts_contained:
  assumes "pool_inv p" and "i \<in> set (find_conflicts p is)"
  shows "pool_contains i p"
proof -
  from assms(2) obtain w b where w: "i = tx_id w" "spending_tx b p = Some w"
    by (auto simp: find_conflicts_set)
  then obtain u where "(w, u) \<in> set (ordered p)" by (auto simp: spending_tx_iff [OF assms(1)])
  with w show ?thesis using pool_inv_by_id [OF assms(1)] by (auto simp: pool_contains_def)
qed

subsection \<open>Eviction\<close>

lemma evict_over_spec:
  "pool_inv p \<Longrightarrow> \<exists>q ev. evict_over cap p acc = Some (q, acc @ ev) \<and> pool_inv q
     \<and> pool_len q = min (pool_len p) cap \<and> pool_capacity q = pool_capacity p
     \<and> pool_entries q = pool_entries p |` (- set ev) \<and> set ev \<subseteq> dom (pool_entries p)"
proof (induction "pool_len p" arbitrary: p acc rule: less_induct)
  case less
  show ?case
  proof (cases "pool_len p > cap")
    case False
    then show ?thesis
      using less.prems by (intro exI [of _ p] exI [of _ "[]"]) (simp add: evict_over.simps [of cap p] restrict_map_def)
  next
    case True
    then have ne: "ordered p \<noteq> []" by (auto simp: pool_len_def)
    define i where "i = tx_id (fst (last (ordered p)))"
    note ev = evict_lowest_last [OF less.prems ne, folded i_def]
    have len: "pool_len (pool_drop i p) = pool_len p - 1"
      using ev(2) pool_remove_length [OF less.prems, of i] by (simp add: pool_len_def)
    then have lt: "pool_len (pool_drop i p) < pool_len p" using True by simp
    from less.hyps [OF lt otx.remove_inv [OF less.prems], of "acc @ [i]"] obtain q ev' where
      q: "evict_over cap (pool_drop i p) (acc @ [i]) = Some (q, acc @ i # ev')" "pool_inv q"
      "pool_len q = min (pool_len (pool_drop i p)) cap" "pool_capacity q = pool_capacity p"
      "pool_entries q = pool_entries (pool_drop i p) |` (- set ev')"
      "set ev' \<subseteq> dom (pool_entries (pool_drop i p))" by auto
    have "evict_over cap p acc = Some (q, acc @ i # ev')"
      using True ev(1) q(1) by (simp add: evict_over.simps [of cap p])
    moreover have "pool_len q = min (pool_len p) cap" using q(3) len True by simp
    moreover have "pool_entries q = pool_entries p |` (- set (i # ev'))"
      using q(5) by (auto simp: otx.remove_entries [OF less.prems] restrict_map_def fun_eq_iff)
    moreover have "set (i # ev') \<subseteq> dom (pool_entries p)"
      using q(6) ev(2) by (auto simp: otx.remove_entries [OF less.prems] pool_contains_entries [OF less.prems]
          split: if_splits)
    ultimately show ?thesis using q(2,4) by blast
  qed
qed

subsection \<open>Admission\<close>

lemma pool_get_entries: "pool_get i p = map_option snd (pool_entries p i)"
  by (simp add: pool_get_weighted pool_entries_def)

lemma drop_all_len_less:
  assumes "pool_inv p" and "i \<in> set is" and "pool_contains i p"
  shows "pool_len (fold pool_drop is p) < pool_len p"
proof -
  have "dom (pool_entries (fold pool_drop is p)) \<subset> dom (pool_entries p)"
    using assms(2,3) by (auto simp: otx.remove_all_entries [OF assms(1)] pool_contains_entries [OF assms(1)])
  then show ?thesis
    using otx.size_dom [OF assms(1)] otx.size_dom [OF otx.remove_all_inv [OF assms(1)]]
    by (simp add: psubset_card_mono)
qed

definition new_weight :: "transaction \<Rightarrow> bytes \<Rightarrow> u64 \<Rightarrow> u32 \<Rightarrow> mempool \<Rightarrow> tx_weight" where
  "new_weight tx tx_bytes fee cost m =
     tx_weight_new (tx_ident tx) fee (length tx_bytes) cost (cfg_fee_strategy (mp_config m))"

definition new_utx ::
  "instant \<Rightarrow> transaction \<Rightarrow> bytes \<Rightarrow> u64 option \<Rightarrow> u64 \<Rightarrow> u32 \<Rightarrow> u64 \<Rightarrow> unconfirmed_tx" where
  "new_utx now tx tx_bytes source fee cost vc =
     \<lparr>utx_tx = tx, utx_bytes = tx_bytes, utx_fee = fee, utx_cost = cost, utx_validation_cost = Some vc,
      utx_created = now, utx_last_checked = now, utx_source = source\<rparr>"

lemma new_weight_id [simp]: "tx_id (new_weight tx tx_bytes fee cost m) = tx_ident tx"
  by (simp add: new_weight_def tx_weight_new_def Let_def)

lemma new_utx_tx [simp]: "utx_tx (new_utx now tx tx_bytes source fee cost vc) = tx"
  by (simp add: new_utx_def)

text \<open>The pool after an admission: the conflicts and the evicted are gone, the new entry is there unless
  it was itself evicted, and every other entry is untouched.\<close>

definition admitted_pool ::
  "ordered_pool \<Rightarrow> id32 list \<Rightarrow> unconfirmed_tx \<Rightarrow> id32 list \<Rightarrow> ordered_pool \<Rightarrow> bool" where
  "admitted_pool p conflicts utx evicted p' \<longleftrightarrow>
     (\<forall>i. pool_get i p' = (if i \<in> set evicted then None
        else if i = tx_ident (utx_tx utx) then Some utx
        else if i \<in> set conflicts then None else pool_get i p))"

lemma insert_and_evict:
  assumes inv: "pool_inv p" and new: "\<not> pool_contains (tx_id w) p" and id: "tx_id w = tx_ident (utx_tx utx)"
    and fo: "fresh_outputs (utx_tx utx) p"
  defines "cs \<equiv> find_conflicts p (tx_inputs (utx_tx utx))"
  defines "p2 \<equiv> pool_insert w utx (tx_inputs (utx_tx utx)) (output_boxes (utx_tx utx)) (fold pool_drop cs p)"
  shows "\<exists>q ev. evict_over cap (propagate_family_weight elapsed ids f p2) [] = Some (q, ev)
    \<and> pool_inv q \<and> pool_len q \<le> cap \<and> pool_capacity q = pool_capacity p \<and> admitted_pool p cs utx ev q"
proof -
  let ?p1 = "fold pool_drop cs p"
  have inv1: "pool_inv ?p1" by (rule otx.remove_all_inv [OF inv])
  have new1: "\<not> pool_contains (tx_id w) ?p1"
    using new by (auto simp: pool_contains_entries [OF inv1] pool_contains_entries [OF inv]
        otx.remove_all_entries [OF inv])
  have p2: "p2 = insert_utx w utx ?p1" by (simp add: p2_def insert_utx_def)
  have inv2: "pool_inv p2" unfolding p2
    using no_conflict_after_drop [OF inv, of "utx_tx utx"] fresh_outputs_drop_all [OF inv fo] id
    by (intro pool_insert_inv [OF inv1 new1]) (simp_all add: cs_def)
  have get2: "pool_get i p2 = (if i = tx_ident (utx_tx utx) then Some utx
      else if i \<in> set cs then None else pool_get i p)" for i
    unfolding pool_get_entries p2 insert_utx_entries [OF inv1 inv2 [unfolded p2] new1]
    using id by (simp add: otx.remove_all_entries [OF inv] restrict_map_def)
  note pf = propagate_family_weight_spec [where elapsed = elapsed and ids = ids and w = f, OF inv2]
  from evict_over_spec [OF pf(1), of cap "[]"] obtain q ev where
    q: "evict_over cap (propagate_family_weight elapsed ids f p2) [] = Some (q, ev)" "pool_inv q"
    "pool_len q \<le> cap" "pool_capacity q = pool_capacity p2"
    "pool_entries q = pool_entries (propagate_family_weight elapsed ids f p2) |` (- set ev)"
    using pf(3) by auto
  have "pool_get i q = (if i \<in> set ev then None else pool_get i p2)" for i
    using pf(4) [of i] unfolding pool_get_entries q(5) by (simp add: restrict_map_def)
  then have "admitted_pool p cs utx ev q" by (simp add: admitted_pool_def get2)
  moreover have "pool_capacity p2 = pool_capacity p" by (simp add: p2)
  ultimately show ?thesis using q by auto
qed

lemma admit_spec:
  fixes tx_bytes :: bytes and fee :: u64 and cost :: u32 and now :: instant
    and source :: "u64 option" and vc :: u64
  assumes inv: "mp_inv m" and new: "\<not> pool_contains (tx_ident tx) (mp_pool m)"
    and fo: "fresh_outputs tx (mp_pool m)"
  defines "w \<equiv> new_weight tx tx_bytes fee cost m" and "cs \<equiv> find_conflicts (mp_pool m) (tx_inputs tx)"
    and "utx \<equiv> new_utx now tx tx_bytes source fee cost vc"
  shows "\<exists>out p'. admit now elapsed tx tx_bytes source fee cost vc m = Some (out, m\<lparr>mp_pool := p'\<rparr>)
    \<and> mp_inv (m\<lparr>mp_pool := p'\<rparr>)
    \<and> (case out of
         DoubleSpendLoser winners \<Rightarrow> winners = cs \<and> cs \<noteq> [] \<and> p' = mp_pool m
           \<and> weight w \<le> avg_conflict_weight (mp_pool m) cs
       | Declined r \<Rightarrow> r = PoolFull \<and> p' = mp_pool m
       | Accepted i \<Rightarrow> i = tx_ident tx \<and> cs = [] \<and> (\<exists>ev. admitted_pool (mp_pool m) cs utx ev p')
       | Replaced i removed \<Rightarrow> i = tx_ident tx \<and> cs \<noteq> [] \<and> weight w > avg_conflict_weight (mp_pool m) cs
           \<and> (\<exists>ev. removed = cs @ ev \<and> admitted_pool (mp_pool m) cs utx ev p')
       | _ \<Rightarrow> False)"
proof -
  let ?p = "mp_pool m" and ?p1 = "fold pool_drop cs (mp_pool m)"
  have pinv: "pool_inv ?p" and cap: "pool_capacity ?p = cfg_capacity (mp_config m)"
    and len: "pool_len ?p \<le> cfg_capacity (mp_config m)" using inv by (simp_all add: mp_inv_def)
  let ?full = "is_full ?p1 \<and> (case lowest_weight ?p1 of None \<Rightarrow> False | Some l \<Rightarrow> weight w \<le> l)"
  consider (loser) "cs \<noteq> []" "weight w \<le> avg_conflict_weight ?p cs"
    | (full) "\<not> (cs \<noteq> [] \<and> weight w \<le> avg_conflict_weight ?p cs)" "?full"
    | (insert) "\<not> (cs \<noteq> [] \<and> weight w \<le> avg_conflict_weight ?p cs)" "\<not> ?full" by blast
  then show ?thesis
  proof cases
    case loser
    then have "admit now elapsed tx tx_bytes source fee cost vc m = Some (DoubleSpendLoser cs, m)"
      by (simp add: admit_def Let_def w_def [unfolded new_weight_def, symmetric] cs_def [symmetric])
    with loser inv show ?thesis by (intro exI [of _ "DoubleSpendLoser cs"] exI [of _ ?p]) simp
  next
    case full
    have "cs = []"
    proof (rule ccontr)
      assume "cs \<noteq> []"
      then have "hd cs \<in> set cs" by simp
      then have "pool_len ?p1 < pool_len ?p"
        using find_conflicts_contained [OF pinv] unfolding cs_def by (intro drop_all_len_less [OF pinv]) auto
      with full(2) cap len show False by (simp add: is_full_def)
    qed
    with full have "admit now elapsed tx tx_bytes source fee cost vc m = Some (Declined PoolFull, m)"
      by (simp add: admit_def Let_def w_def [unfolded new_weight_def, symmetric] cs_def [symmetric])
    with inv show ?thesis by (intro exI [of _ "Declined PoolFull"] exI [of _ ?p]) simp
  next
    case insert
    let ?p2 = "pool_insert w utx (tx_inputs tx) (output_boxes tx) ?p1"
    let ?p3 = "propagate_family_weight elapsed (tx_inputs tx) (fee_per_factor w) ?p2"
    have "\<not> pool_contains (tx_id w) ?p" "tx_id w = tx_ident (utx_tx utx)" "fresh_outputs (utx_tx utx) ?p"
      using new fo by (simp_all add: w_def utx_def)
    from insert_and_evict [OF pinv this, of "cfg_capacity (mp_config m)" elapsed "tx_inputs tx" "fee_per_factor w"]
    obtain q ev where q: "evict_over (cfg_capacity (mp_config m)) ?p3 [] = Some (q, ev)" "pool_inv q"
      "pool_len q \<le> cfg_capacity (mp_config m)" "pool_capacity q = pool_capacity ?p"
      "admitted_pool ?p cs utx ev q" by (auto simp: cs_def utx_def)
    let ?out = "if cs = [] then Accepted (tx_ident tx) else Replaced (tx_ident tx) (cs @ ev)"
    have "admit now elapsed tx tx_bytes source fee cost vc m = Some (?out, m\<lparr>mp_pool := q\<rparr>)"
      unfolding admit_def Let_def w_def [unfolded new_weight_def, symmetric]
        cs_def [symmetric] utx_def [unfolded new_utx_def, symmetric] snd_pool_remove
        if_not_P [OF insert(1)] if_not_P [OF insert(2)] q(1)
      by simp
    moreover have "mp_inv (m\<lparr>mp_pool := q\<rparr>)" using inv q(2-4) cap by (simp add: mp_inv_def)
    ultimately show ?thesis using insert(1) q(5)
      by (intro exI [of _ ?out] exI [of _ q]) auto
  qed
qed

lemma charge_peer_same [simp]:
  "mp_pool (charge_peer source cost m) = mp_pool m" "mp_config (charge_peer source cost m) = mp_config m"
  "mp_invalidated (charge_peer source cost m) = mp_invalidated m"
  "mp_stats (charge_peer source cost m) = mp_stats m"
  "mp_inv (charge_peer source cost m) = mp_inv m"
  by (simp_all add: charge_peer_def mp_inv_def split: option.split)

text \<open>The ways \<open>process\<close> ends before admission.\<close>

definition keeps_pool :: "processing_outcome \<Rightarrow> mempool \<Rightarrow> mempool \<Rightarrow> bool" where
  "keeps_pool out m m' \<longleftrightarrow> mp_pool m' = mp_pool m \<and> mp_stats m' = mp_stats m \<and> mp_config m' = mp_config m
     \<and> (case out of Invalidated _ \<Rightarrow> True | _ \<Rightarrow> mp_invalidated m' = mp_invalidated m)"

lemma process_cases:
  assumes "mp_inv m"
  shows "(\<exists>out m'. process env now elapsed tx tx_bytes source m = Some (out, m') \<and> mp_inv m'
      \<and> keeps_pool out m m' \<and> (out = AlreadyInPool \<or> (\<exists>r. out = Declined r) \<or> (\<exists>e. out = Invalidated e)))
    \<or> (\<exists>cost vc. process env now elapsed tx tx_bytes source m =
          admit now elapsed tx tx_bytes source (extract_fee tx (mp_fee_proposition m)) cost vc (charge_peer source cost m)
        \<and> \<not> pool_contains (tx_ident tx) (mp_pool m)
        \<and> cfg_min_fee (mp_config m) \<le> extract_fee tx (mp_fee_proposition m)
        \<and> (\<exists>boxes. resolve_inputs env (mp_pool m) (tx_inputs tx) = Inr boxes
             \<and> validate env tx boxes (resolve_data_inputs env (mp_pool m) tx) = Inr vc))"
proof -
  have fp: "mp_fee_proposition (charge_peer source c m) = mp_fee_proposition m" for c
    by (simp add: charge_peer_def split: option.split)
  have cache: "mp_inv (m\<lparr>mp_invalidated := cache_insert now i (mp_invalidated m)\<rparr>)" for i
    using assms by (simp add: mp_inv_def cache_insert_inv)
  show ?thesis
    unfolding process_def Let_def keeps_pool_def
    using assms cache
    by (simp add: fp not_less split: option.split sum.split) blast
qed

text \<open>What each outcome of \<open>process\<close> says about the pool before and after.\<close>

definition outcome_ok :: "transaction \<Rightarrow> bytes \<Rightarrow> mempool \<Rightarrow> processing_outcome \<Rightarrow> mempool \<Rightarrow> bool" where
  "outcome_ok tx tx_bytes m out m' \<longleftrightarrow>
     (let conflicts = find_conflicts (mp_pool m) (tx_inputs tx);
          admitted = (\<lambda>ev. cfg_min_fee (mp_config m) \<le> extract_fee tx (mp_fee_proposition m)
            \<and> (\<exists>utx. utx_tx utx = tx \<and> utx_bytes utx = tx_bytes
                \<and> admitted_pool (mp_pool m) conflicts utx ev (mp_pool m')))
      in case out of
           Accepted i \<Rightarrow> i = tx_ident tx \<and> conflicts = [] \<and> (\<exists>ev. admitted ev)
         | Replaced i removed \<Rightarrow> i = tx_ident tx \<and> conflicts \<noteq> []
             \<and> (\<exists>ev. removed = conflicts @ ev \<and> admitted ev)
         | DoubleSpendLoser winners \<Rightarrow> winners = conflicts \<and> winners \<noteq> [] \<and> keeps_pool out m m'
         | _ \<Rightarrow> keeps_pool out m m')"

lemma process_spec:
  assumes inv: "mp_inv m" and fo: "fresh_outputs tx (mp_pool m)"
  shows "\<exists>out m'. process env now elapsed tx tx_bytes source m = Some (out, m') \<and> mp_inv m'
    \<and> mp_stats m' = mp_stats m \<and> mp_config m' = mp_config m \<and> outcome_ok tx tx_bytes m out m'"
  using process_cases [OF inv, of env now elapsed tx tx_bytes source]
proof
  assume "\<exists>out m'. process env now elapsed tx tx_bytes source m = Some (out, m') \<and> mp_inv m'
      \<and> keeps_pool out m m' \<and> (out = AlreadyInPool \<or> (\<exists>r. out = Declined r) \<or> (\<exists>e. out = Invalidated e))"
  then obtain out m' where o: "process env now elapsed tx tx_bytes source m = Some (out, m')" "mp_inv m'"
    "keeps_pool out m m'" "out = AlreadyInPool \<or> (\<exists>r. out = Declined r) \<or> (\<exists>e. out = Invalidated e)" by blast
  from o(3,4) have "outcome_ok tx tx_bytes m out m'" by (auto simp: outcome_ok_def Let_def)
  with o show ?thesis by (auto simp: keeps_pool_def)
next
  assume "\<exists>cost vc. process env now elapsed tx tx_bytes source m =
          admit now elapsed tx tx_bytes source (extract_fee tx (mp_fee_proposition m)) cost vc (charge_peer source cost m)
        \<and> \<not> pool_contains (tx_ident tx) (mp_pool m)
        \<and> cfg_min_fee (mp_config m) \<le> extract_fee tx (mp_fee_proposition m)
        \<and> (\<exists>boxes. resolve_inputs env (mp_pool m) (tx_inputs tx) = Inr boxes
             \<and> validate env tx boxes (resolve_data_inputs env (mp_pool m) tx) = Inr vc)"
  then obtain cost vc where
    p: "process env now elapsed tx tx_bytes source m = admit now elapsed tx tx_bytes source
          (extract_fee tx (mp_fee_proposition m)) cost vc (charge_peer source cost m)"
    and new: "\<not> pool_contains (tx_ident tx) (mp_pool m)"
    and fee: "cfg_min_fee (mp_config m) \<le> extract_fee tx (mp_fee_proposition m)" by blast
  let ?m = "charge_peer source cost m" and ?fee = "extract_fee tx (mp_fee_proposition m)"
  have "mp_inv ?m" "\<not> pool_contains (tx_ident tx) (mp_pool ?m)" "fresh_outputs tx (mp_pool ?m)"
    using inv new fo by simp_all
  note a = admit_spec [OF this, of now elapsed tx_bytes source ?fee cost vc, unfolded charge_peer_same]
  have u: "utx_tx (new_utx now tx tx_bytes source ?fee cost vc) = tx"
    "utx_bytes (new_utx now tx tx_bytes source ?fee cost vc) = tx_bytes" by (simp_all add: new_utx_def)
  from a obtain out p' where o: "process env now elapsed tx tx_bytes source m = Some (out, ?m\<lparr>mp_pool := p'\<rparr>)"
    "mp_inv (?m\<lparr>mp_pool := p'\<rparr>)" "outcome_ok tx tx_bytes m out (?m\<lparr>mp_pool := p'\<rparr>)"
    unfolding p outcome_ok_def Let_def keeps_pool_def using fee u
    by (fastforce split: processing_outcome.splits)
  then show ?thesis by auto
qed

subsection \<open>Blocks\<close>

text \<open>Removals: the pool shrinks by a set of ids, and exactly those ids are reported.\<close>

definition drops :: "ordered_pool \<times> id32 list \<Rightarrow> ordered_pool \<times> id32 list \<Rightarrow> bool" where
  "drops st st' \<longleftrightarrow> pool_inv (fst st') \<and> pool_capacity (fst st') = pool_capacity (fst st)
     \<and> (\<exists>R. R \<subseteq> dom (pool_entries (fst st)) \<and> pool_entries (fst st') = pool_entries (fst st) |` (- R)
           \<and> set (snd st') = set (snd st) \<union> R)"

lemma drops_refl: "pool_inv (fst st) \<Longrightarrow> drops st st"
  unfolding drops_def by (intro conjI exI [of _ "{}"]) (simp_all add: restrict_map_def)

lemma drops_trans:
  assumes "drops a b" and "drops b c"
  shows "drops a c"
proof -
  from assms obtain R S where r: "R \<subseteq> dom (pool_entries (fst a))"
      "pool_entries (fst b) = pool_entries (fst a) |` (- R)" "set (snd b) = set (snd a) \<union> R"
    and s: "S \<subseteq> dom (pool_entries (fst b))"
      "pool_entries (fst c) = pool_entries (fst b) |` (- S)" "set (snd c) = set (snd b) \<union> S"
    unfolding drops_def by blast
  have ic: "pool_inv (fst c)" "pool_capacity (fst c) = pool_capacity (fst a)"
    using assms by (simp_all add: drops_def)
  have "dom (pool_entries (fst b)) \<subseteq> dom (pool_entries (fst a))" unfolding r(2) by auto
  with r(1) s(1) have "R \<union> S \<subseteq> dom (pool_entries (fst a))" by blast
  moreover have "pool_entries (fst c) = pool_entries (fst a) |` (- (R \<union> S))"
    unfolding s(2) r(2) restrict_restrict by simp
  moreover have "set (snd c) = set (snd a) \<union> (R \<union> S)" unfolding s(3) r(3) by blast
  ultimately show ?thesis using ic unfolding drops_def by blast
qed

lemma drops_entries: "drops a b \<Longrightarrow> pool_entries (fst b) i = Some e \<Longrightarrow> pool_entries (fst a) i = Some e"
  by (auto simp: drops_def restrict_map_def split: if_splits)

lemma drops_ordered:
  assumes "drops a b" and "pool_inv (fst a)" and "(w, u) \<in> set (ordered (fst b))"
  shows "(w, u) \<in> set (ordered (fst a))"
  using assms drops_entries [OF assms(1), of "tx_id w" "(w, u)"]
  by (auto simp: drops_def pool_entries_Some)

lemma drops_len: "pool_inv (fst a) \<Longrightarrow> drops a b \<Longrightarrow> pool_len (fst b) \<le> pool_len (fst a)"
proof -
  assume a: "pool_inv (fst a)" and d: "drops a b"
  then have "dom (pool_entries (fst b)) \<subseteq> dom (pool_entries (fst a))"
    using drops_entries [OF d] by blast
  then show ?thesis
    using otx.size_dom [OF a] otx.size_dom [of "fst b"] d by (simp add: drops_def card_mono)
qed

lemma drops_remove:
  assumes "pool_inv p"
  shows "drops (p, removed) (case pool_remove i p of
     (None, p') \<Rightarrow> (p', removed) | (Some _, p') \<Rightarrow> (p', removed @ [i]))"
proof (cases "pool_contains i p")
  case True
  then obtain w u where e: "(w, u) \<in> set (ordered p)" "tx_id w = i" by (rule pool_containsE [OF assms])
  have r: "pool_remove i p = (Some u, pool_drop i p)"
    using pool_remove_entry(1) [OF assms e] by (simp add: prod_eq_iff)
  show ?thesis unfolding drops_def r
    using otx.remove_inv [OF assms] otx.remove_entries [OF assms, of i] True pool_contains_entries [OF assms, of i]
    by (intro conjI exI [of _ "{i}"]) (auto simp: restrict_map_def fun_eq_iff)
qed (use assms in \<open>simp add: pool_remove_absent drops_refl\<close>)

lemma spending_tx_drop:
  assumes "pool_inv p"
  shows "spending_tx b (pool_drop i p) = Some v \<longleftrightarrow> spending_tx b p = Some v \<and> tx_id v \<noteq> i"
  unfolding spending_tx_iff [OF assms] spending_tx_iff [OF otx.remove_inv [OF assms]]
  using pool_remove_set [OF assms] by auto

lemma remove_spender_spec:
  assumes "pool_inv (fst st)"
  shows "drops st (remove_spender i b st)"
    and "\<not> pool_contains i (fst st) \<Longrightarrow> spending_tx b (fst (remove_spender i b st)) = None"
proof -
  obtain p removed where st: "st = (p, removed)" by (cases st)
  have inv: "pool_inv p" using assms st by simp
  show d: "drops st (remove_spender i b st)"
    using drops_remove [OF inv, of removed] drops_refl [OF assms]
    by (auto simp: st remove_spender_def split: option.split)
  assume new: "\<not> pool_contains i (fst st)"
  have inv': "pool_inv (fst (remove_spender i b st))" using d by (simp add: drops_def)
  show "spending_tx b (fst (remove_spender i b st)) = None"
  proof (cases "spending_tx b p")
    case None
    then show ?thesis by (simp add: st remove_spender_def)
  next
    case (Some w)
    then obtain u where u: "(w, u) \<in> set (ordered p)" "b \<in> set (tx_inputs (utx_tx u))"
      by (auto simp: spending_tx_iff [OF inv])
    then have "tx_id w \<noteq> i" using pool_inv_fresh_key [OF inv, of i w u] new st by simp
    then have r: "fst (remove_spender i b st) = pool_drop (tx_id w) p"
      using Some by (cases "pool_remove (tx_id w) p")
        (auto simp: st remove_spender_def pool_drop_def split: option.split)
    have "spending_tx b (pool_drop (tx_id w) p) = None"
    proof (cases "spending_tx b (pool_drop (tx_id w) p)")
      case (Some v)
      from iffD1 [OF spending_tx_drop [OF inv] this]
      have "spending_tx b p = Some v \<and> tx_id v \<noteq> tx_id w" .
      with \<open>spending_tx b p = Some w\<close> show ?thesis by simp
    qed simp
    then show ?thesis unfolding r .
  qed
qed

lemma drops_contains: "drops a b \<Longrightarrow> pool_inv (fst a) \<Longrightarrow> pool_contains i (fst b) \<Longrightarrow> pool_contains i (fst a)"
  using drops_entries [of a b i] by (auto simp: pool_contains_entries drops_def)

lemma drops_spending:
  assumes "drops a b" and "pool_inv (fst a)" and "spending_tx x (fst a) = None"
  shows "spending_tx x (fst b) = None"
proof (rule ccontr)
  assume "spending_tx x (fst b) \<noteq> None"
  then obtain w u where "(w, u) \<in> set (ordered (fst b))" "x \<in> set (tx_inputs (utx_tx u))"
    using assms(1) by (auto simp: drops_def spending_tx_iff)
  with drops_ordered [OF assms(1,2)] have "spending_tx x (fst a) = Some w"
    by (auto simp: spending_tx_iff [OF assms(2)])
  with assms(3) show False by simp
qed

lemma remove_spenders_spec:
  assumes "pool_inv (fst st)" and "\<not> pool_contains i (fst st)"
  shows "drops st (fold (remove_spender i) bs st)
    \<and> (\<forall>b \<in> set bs. spending_tx b (fst (fold (remove_spender i) bs st)) = None)"
  using assms
proof (induction bs arbitrary: st)
  case Nil
  then show ?case by (simp add: drops_refl)
next
  case (Cons b bs)
  note d = remove_spender_spec [OF Cons.prems(1), of i b]
  have inv: "pool_inv (fst (remove_spender i b st))" using d(1) by (simp add: drops_def)
  moreover have "\<not> pool_contains i (fst (remove_spender i b st))"
    using drops_contains [OF d(1) Cons.prems(1)] Cons.prems(2) by blast
  ultimately have IH: "drops (remove_spender i b st) (fold (remove_spender i) bs (remove_spender i b st))
    \<and> (\<forall>b' \<in> set bs. spending_tx b' (fst (fold (remove_spender i) bs (remove_spender i b st))) = None)"
    by (rule Cons.IH)
  then show ?case
    using drops_trans [OF d(1)] drops_spending [OF _ inv d(2) [OF Cons.prems(2)]] by auto
qed

lemma confirm_tx_spec:
  fixes now :: instant and tx :: transaction and removed :: "id32 list"
  assumes inv: "pool_inv (mp_pool m)"
  defines "r \<equiv> confirm_tx now tx (m, removed)"
  shows "drops (mp_pool m, removed) (mp_pool (fst r), snd r)"
    and "\<not> pool_contains (tx_ident tx) (mp_pool (fst r))"
    and "b \<in> set (tx_inputs tx) \<Longrightarrow> spending_tx b (mp_pool (fst r)) = None"
    and "mp_config (fst r) = mp_config m" and "mp_invalidated (fst r) = mp_invalidated m"
proof -
  let ?i = "tx_ident tx"
  define st where "st = (case pool_remove ?i (mp_pool m) of
     (None, p) \<Rightarrow> (p, removed) | (Some _, p) \<Rightarrow> (p, removed @ [?i]))"
  define st' where "st' = fold (remove_spender ?i) (tx_inputs tx) st"
  have r: "mp_pool (fst r) = fst st'" "snd r = snd st'" "mp_config (fst r) = mp_config m"
    "mp_invalidated (fst r) = mp_invalidated m"
    by (auto simp: r_def confirm_tx_def Let_def st'_def st_def split: prod.splits option.splits)
  have d: "drops (mp_pool m, removed) st" unfolding st_def by (rule drops_remove [OF inv])
  then have inv1: "pool_inv (fst st)" by (simp add: drops_def)
  have "fst st = pool_drop ?i (mp_pool m)"
    by (cases "pool_remove ?i (mp_pool m)")
      (auto simp: st_def simp flip: snd_pool_remove split: option.split)
  then have new: "\<not> pool_contains ?i (fst st)"
    using pool_contains_entries [OF inv1, of ?i] otx.remove_entries [OF inv, of ?i] by auto
  note rs = remove_spenders_spec [OF inv1 new, of "tx_inputs tx", folded st'_def]
  show "drops (mp_pool m, removed) (mp_pool (fst r), snd r)"
    unfolding r using drops_trans [OF d] rs by simp
  show "\<not> pool_contains ?i (mp_pool (fst r))"
    unfolding r using drops_contains [OF _ inv1] rs new by blast
  show "b \<in> set (tx_inputs tx) \<Longrightarrow> spending_tx b (mp_pool (fst r)) = None" unfolding r using rs by blast
  show "mp_config (fst r) = mp_config m" and "mp_invalidated (fst r) = mp_invalidated m" by (rule r)+
qed

definition cleared :: "transaction \<Rightarrow> ordered_pool \<Rightarrow> bool" where
  "cleared tx p \<longleftrightarrow> \<not> pool_contains (tx_ident tx) p \<and> (\<forall>b \<in> set (tx_inputs tx). spending_tx b p = None)"

lemma cleared_drops: "drops a b \<Longrightarrow> pool_inv (fst a) \<Longrightarrow> cleared tx (fst a) \<Longrightarrow> cleared tx (fst b)"
  using drops_contains drops_spending unfolding cleared_def by blast

lemma confirm_all_spec:
  fixes now :: instant and txs :: "transaction list"
  assumes "pool_inv (mp_pool (fst st))"
  defines "r \<equiv> fold (confirm_tx now) txs st"
  shows "drops (mp_pool (fst st), snd st) (mp_pool (fst r), snd r) \<and> (\<forall>tx \<in> set txs. cleared tx (mp_pool (fst r)))
    \<and> mp_config (fst r) = mp_config (fst st) \<and> mp_invalidated (fst r) = mp_invalidated (fst st)"
  using assms(1) unfolding r_def
proof (induction txs arbitrary: st)
  case Nil
  then show ?case by (simp add: drops_refl)
next
  case (Cons tx txs)
  let ?st = "confirm_tx now tx st"
  note c = confirm_tx_spec [where now = now and tx = tx and removed = "snd st", OF Cons.prems, unfolded prod.collapse]
  have inv: "pool_inv (mp_pool (fst ?st))" using c(1) by (simp add: drops_def)
  have cl: "cleared tx (mp_pool (fst ?st))" using c(2,3) by (simp add: cleared_def)
  let ?r = "fold (confirm_tx now) txs ?st"
  from Cons.IH [OF inv] have IH: "drops (mp_pool (fst ?st), snd ?st) (mp_pool (fst ?r), snd ?r)"
    "\<forall>tx \<in> set txs. cleared tx (mp_pool (fst ?r))" "mp_config (fst ?r) = mp_config (fst ?st)"
    "mp_invalidated (fst ?r) = mp_invalidated (fst ?st)" by blast+
  have "cleared tx (mp_pool (fst ?r))" using cleared_drops [OF IH(1), of tx] inv cl by simp
  with IH drops_trans [OF c(1) IH(1)] c(4,5) show ?case by simp
qed

lemma apply_block_spec:
  fixes now :: instant and txs :: "transaction list"
  assumes "mp_inv m"
  defines "r \<equiv> apply_block_at now txs m"
  shows "mp_inv (fst r)" and "drops (mp_pool m, []) (mp_pool (fst r), snd r)"
    and "tx \<in> set txs \<Longrightarrow> cleared tx (mp_pool (fst r))"
    and "mp_interblock_cost (fst r) = 0" and "mp_per_peer_cost (fst r) = []"
    and "mp_config (fst r) = mp_config m"
proof -
  have pinv: "pool_inv (mp_pool m)" using assms(1) by (simp add: mp_inv_def)
  obtain m1 removed where f: "fold (confirm_tx now) txs (m, []) = (m1, removed)"
    by (cases "fold (confirm_tx now) txs (m, [])")
  have r: "r = (m1\<lparr>mp_interblock_cost := 0, mp_per_peer_cost := [],
      mp_invalidated := cache_prune now (mp_invalidated m1)\<rparr>, removed)"
    by (simp add: r_def apply_block_at_def f)
  note c = confirm_all_spec [where st = "(m, [])" and now = now and txs = txs, unfolded f, simplified fst_conv snd_conv, OF pinv]
  show d: "drops (mp_pool m, []) (mp_pool (fst r), snd r)" using c by (simp add: r)
  show "tx \<in> set txs \<Longrightarrow> cleared tx (mp_pool (fst r))" using c by (simp add: r)
  show "mp_interblock_cost (fst r) = 0" "mp_per_peer_cost (fst r) = []" by (simp_all add: r)
  show cfg: "mp_config (fst r) = mp_config m" using c by (simp add: r)
  have "pool_len (mp_pool (fst r)) \<le> pool_len (mp_pool m)" using drops_len [OF _ d] pinv by simp
  then show "mp_inv (fst r)"
    using assms(1) d cfg c cache_prune_inv [of "mp_invalidated m" now] by (simp add: mp_inv_def drops_def r)
qed

subsection \<open>Revalidation\<close>

text \<open>A pass keeps the invariant, reports exactly the transactions it removes, and changes nothing of
  the others but their validation bookkeeping.\<close>

definition same_payload :: "ordered_pool \<Rightarrow> ordered_pool \<Rightarrow> id32 \<Rightarrow> bool" where
  "same_payload p p' i \<longleftrightarrow> map_option (\<lambda>u. (utx_tx u, utx_bytes u, utx_fee u)) (pool_get i p')
     = map_option (\<lambda>u. (utx_tx u, utx_bytes u, utx_fee u)) (pool_get i p)"

definition pass_ok :: "mempool \<Rightarrow> id32 list \<Rightarrow> mempool \<Rightarrow> id32 list \<Rightarrow> bool" where
  "pass_ok m removed m' removed' \<longleftrightarrow> mp_inv m' \<and> mp_config m' = mp_config m
     \<and> (\<exists>new. removed' = removed @ new \<and> (\<forall>i \<in> set new. pool_contains i (mp_pool m))
         \<and> (\<forall>i. if i \<in> set new then pool_get i (mp_pool m') = None
              else same_payload (mp_pool m) (mp_pool m') i))"

lemma pool_contains_get: "pool_inv p \<Longrightarrow> pool_contains i p \<longleftrightarrow> pool_get i p \<noteq> None"
  by (simp only: pool_contains_iff pool_get_weighted) simp

lemma pass_refl: "mp_inv m \<Longrightarrow> pass_ok m removed m removed"
  unfolding pass_ok_def by (intro conjI exI [of _ "[]"]) (simp_all add: same_payload_def)

lemma pass_trans:
  assumes inv: "mp_inv m" and a: "pass_ok m r m1 r1" and b: "pass_ok m1 r1 m2 r2"
  shows "pass_ok m r m2 r2"
proof -
  from a obtain n1 where n1: "r1 = r @ n1" "\<forall>i \<in> set n1. pool_contains i (mp_pool m)"
    "\<And>i. if i \<in> set n1 then pool_get i (mp_pool m1) = None else same_payload (mp_pool m) (mp_pool m1) i"
    unfolding pass_ok_def by blast
  from b obtain n2 where n2: "r2 = r1 @ n2" "\<forall>i \<in> set n2. pool_contains i (mp_pool m1)"
    "\<And>i. if i \<in> set n2 then pool_get i (mp_pool m2) = None else same_payload (mp_pool m1) (mp_pool m2) i"
    unfolding pass_ok_def by blast
  have p: "pool_inv (mp_pool m)" "pool_inv (mp_pool m1)" using inv a by (simp_all add: pass_ok_def mp_inv_def)
  have "pool_contains i (mp_pool m)" if "i \<in> set n2" for i
  proof -
    have "pool_get i (mp_pool m1) \<noteq> None" using n2(2) that pool_contains_get [OF p(2)] by blast
    with n1(3) [of i] have "pool_get i (mp_pool m) \<noteq> None"
      by (cases "pool_get i (mp_pool m)") (auto simp: same_payload_def split: if_splits)
    then show ?thesis using pool_contains_get [OF p(1)] by blast
  qed
  with n1(2) have c: "\<forall>i \<in> set (n1 @ n2). pool_contains i (mp_pool m)" by auto
  have "if i \<in> set (n1 @ n2) then pool_get i (mp_pool m2) = None
      else same_payload (mp_pool m) (mp_pool m2) i" for i
    using n1(3) [of i] n2(3) [of i] by (auto simp: same_payload_def split: if_splits)
  with c n1(1) n2(1) show ?thesis using a b unfolding pass_ok_def by (intro conjI exI [of _ "n1 @ n2"]) auto
qed

lemma pass_remove:
  assumes inv: "mp_inv m" and c: "pool_contains i (mp_pool m)" and ci: "cache_inv c"
  shows "pass_ok m r (m\<lparr>mp_pool := pool_drop i (mp_pool m), mp_invalidated := c\<rparr>) (r @ [i])"
proof -
  have p: "pool_inv (mp_pool m)" using inv by (simp add: mp_inv_def)
  have "pool_len (pool_drop i (mp_pool m)) \<le> pool_len (mp_pool m)"
    using otx.remove_all_size [OF p, of "[i]"] by simp
  then show ?thesis
    using inv c ci otx.remove_inv [OF p, of i] otx.remove_entries [OF p, of i] unfolding pass_ok_def
    by (intro conjI exI [of _ "[i]"]) (auto simp: mp_inv_def same_payload_def pool_get_entries)
qed

lemma pass_invalidate:
  assumes "mp_inv m" and "pool_contains i (mp_pool m)" and "cache_inv c"
  shows "pass_ok m r (m\<lparr>mp_invalidated := c, mp_pool := pool_drop i (mp_pool m)\<rparr>) (r @ [i])"
proof -
  have "m\<lparr>mp_invalidated := c, mp_pool := pool_drop i (mp_pool m)\<rparr>
      = m\<lparr>mp_pool := pool_drop i (mp_pool m), mp_invalidated := c\<rparr>" by simp
  then show ?thesis using pass_remove [OF assms, of r] by (simp only:)
qed

lemma pool_modify_entries:
  assumes p: "pool_inv p" and f: "\<And>u. utx_tx (f u) = utx_tx u \<and> utx_bytes (f u) = utx_bytes u"
    and e: "(w, u) \<in> set (ordered p)" "tx_id w = i"
  shows "pool_entries (pool_modify i f p) j = (if j = i then Some (w, f u) else pool_entries p j)"
proof (rule option_eqI)
  have q: "pool_inv (pool_modify i f p)" using f by (intro pool_modify_inv [OF p]) auto
  have set: "set (ordered (pool_modify i f p)) = insert (w, f u) (set (ordered p) - {(w, u)})"
    using f by (intro pool_modify_entry(1) [OF p e]) auto
  fix x :: "tx_weight \<times> unconfirmed_tx"
  obtain a b where x: "x = (a, b)" by (cases x)
  have one: "(a, b) \<in> set (ordered p) \<Longrightarrow> tx_id a = i \<Longrightarrow> a = w \<and> b = u"
    unfolding e(2) [symmetric] by (rule one_per_idD [OF pool_inv_one_per_id [OF p] _ e(1)])
  have L: "pool_entries (pool_modify i f p) j = Some (a, b) \<longleftrightarrow>
      (a = w \<and> b = f u \<or> (a, b) \<in> set (ordered p) \<and> \<not> (a = w \<and> b = u)) \<and> tx_id a = j"
    by (simp add: pool_entries_Some [OF q] set)
  show "pool_entries (pool_modify i f p) j = Some x \<longleftrightarrow>
      (if j = i then Some (w, f u) else pool_entries p j) = Some x"
  proof (cases "j = i")
    case True
    have "pool_entries (pool_modify i f p) j = Some (a, b) \<longleftrightarrow> a = w \<and> b = f u"
      unfolding L unfolding True using one e(2) by blast
    with True x show ?thesis by auto
  next
    case False
    have "pool_entries (pool_modify i f p) j = Some (a, b) \<longleftrightarrow> (a, b) \<in> set (ordered p) \<and> tx_id a = j"
      unfolding L using False e(2) by blast
    with False x show ?thesis by (simp add: pool_entries_Some [OF p])
  qed
qed

lemma pool_get_modify:
  assumes p: "pool_inv p" and f: "\<And>u. utx_tx (f u) = utx_tx u \<and> utx_bytes (f u) = utx_bytes u"
  shows "pool_get j (pool_modify i f p) = (if j = i then map_option f (pool_get j p) else pool_get j p)"
proof (cases "pool_contains i p")
  case False
  then show ?thesis by (simp add: pool_modify_absent pool_get_def pool_contains_def)
next
  case True
  then obtain w u where e: "(w, u) \<in> set (ordered p)" "tx_id w = i" by (rule pool_containsE [OF p])
  have "pool_entries p i = Some (w, u)" by (simp add: pool_entries_Some [OF p] e)
  then show ?thesis using pool_modify_entries [OF p f e, of j] by (simp add: pool_get_entries)
qed

lemma pass_modify:
  assumes inv: "mp_inv m" and f: "\<And>u. utx_tx (f u) = utx_tx u \<and> utx_bytes (f u) = utx_bytes u \<and> utx_fee (f u) = utx_fee u"
  shows "pass_ok m r (m\<lparr>mp_pool := pool_modify i f (mp_pool m)\<rparr>) r"
proof -
  have p: "pool_inv (mp_pool m)" using inv by (simp add: mp_inv_def)
  have q: "pool_inv (pool_modify i f (mp_pool m))" using f by (intro pool_modify_inv [OF p]) auto
  have "same_payload (mp_pool m) (pool_modify i f (mp_pool m)) j" for j
    using pool_get_modify [OF p, of f j i] f
    by (cases "pool_get j (mp_pool m)") (auto simp: same_payload_def)
  then show ?thesis using inv q unfolding pass_ok_def
    by (intro conjI exI [of _ "[]"]) (auto simp: mp_inv_def)
qed

text \<open>One transaction of the pass, as the continuation the loop takes.\<close>

lemma revalidate_step:
  assumes inv: "mp_inv m"
    and IH: "\<And>spent m removed. mp_inv m \<Longrightarrow> pass_ok m removed
       (fst (revalidate_loop env now limit is spent m removed)) (snd (revalidate_loop env now limit is spent m removed))"
    and step: "pass_ok m removed m1 removed1"
    and loop: "revalidate_loop env now limit (i # is) spent m removed = revalidate_loop env now limit is spent1 m1 removed1"
  shows "pass_ok m removed (fst (revalidate_loop env now limit (i # is) spent m removed))
    (snd (revalidate_loop env now limit (i # is) spent m removed))"
  unfolding loop using pass_trans [OF inv step IH] step by (simp add: pass_ok_def)

lemma revalidate_loop_ok:
  "mp_inv m \<Longrightarrow> pass_ok m removed
     (fst (revalidate_loop env now limit is spent m removed)) (snd (revalidate_loop env now limit is spent m removed))"
proof (induction "is" arbitrary: spent m removed)
  case (Cons i "is")
  note inv = Cons.prems
  have step: "pass_ok m removed (fst (revalidate_loop env now limit (i # is) spent m removed))
      (snd (revalidate_loop env now limit (i # is) spent m removed))"
    if "pass_ok m removed m1 removed1"
      "revalidate_loop env now limit (i # is) spent m removed = revalidate_loop env now limit is spent1 m1 removed1"
    for m1 removed1 spent1
    using that Cons.IH by (intro revalidate_step [OF inv])
  show ?case
  proof (cases "pool_get i (mp_pool m)")
    case None
    then show ?thesis by (intro step [OF pass_refl [OF inv]]) simp
  next
    case (Some utx)
    have c: "pool_contains i (mp_pool m)"
      using Some pool_contains_get inv by (auto simp: mp_inv_def)
    have ci: "cache_inv (mp_invalidated m)" using inv by (simp add: mp_inv_def)
    consider (skip) "now - utx_last_checked utx \<le> cfg_cleanup_interval (mp_config m)"
      | (stop) "\<not> now - utx_last_checked utx \<le> cfg_cleanup_interval (mp_config m)" "spent \<ge> limit"
      | (early) "\<not> now - utx_last_checked utx \<le> cfg_cleanup_interval (mp_config m)" "\<not> spent \<ge> limit"
          "output_above_preheader (utx_tx utx) (pre_header_height env) \<noteq> None"
      | (check) "\<not> now - utx_last_checked utx \<le> cfg_cleanup_interval (mp_config m)" "\<not> spent \<ge> limit"
          "output_above_preheader (utx_tx utx) (pre_header_height env) = None" by blast
    then show ?thesis
    proof cases
      case skip
      with Some show ?thesis by (intro step [OF pass_refl [OF inv]]) simp
    next
      case stop
      with Some show ?thesis by (simp add: pass_refl [OF inv])
    next
      case early
      with Some show ?thesis by (intro step [OF pass_refl [OF inv]]) simp
    next
      case check
      show ?thesis
      proof (cases "resolve_inputs env (mp_pool m) (tx_inputs (utx_tx utx))")
        case (Inl x)
        with Some check show ?thesis
          by (intro step [OF pass_remove [OF inv c ci]]) simp
      next
        case (Inr boxes)
        show ?thesis
        proof (cases "validate env (utx_tx utx) boxes (resolve_data_inputs env (mp_pool m) (utx_tx utx))")
          case (Inl e)
          with Some check Inr show ?thesis
            by (intro step [OF pass_invalidate [OF inv c cache_insert_inv [OF ci]]]) simp
        next
          case (Inr measured)
          with Some check \<open>resolve_inputs env _ _ = Inr boxes\<close> show ?thesis
            by (intro step [OF pass_modify [OF inv]]) simp_all
        qed
      qed
    qed
  qed
qed (simp add: pass_refl)

end
