(* ===== verification/Mempool_Spec.thy ===== *)
theory Mempool_Spec
  imports Mempool
begin

text \<open>
  What the mempool promises (\<open>facts/mempool.md\<close>, section on invariants): its histories as a step relation,
  the invariants every history keeps, the outcome of an admission, what a block and a revalidation pass
  leave behind, the rate limits, and two places where the code does less than it documents.
\<close>

section \<open>Histories\<close>

text \<open>Admission assumes what the hash of a box id gives: a new transaction's outputs are not yet known.
  \<open>return_to_pool\<close> is left out: it inserts unchecked (see the last section).\<close>

inductive mp_step :: "mempool \<Rightarrow> mempool \<Rightarrow> bool" where
  step_process: "fresh_outputs tx (mp_pool m) \<Longrightarrow>
    process env now elapsed tx tx_bytes source m = Some (out, m') \<Longrightarrow> mp_step m m'"
| step_block: "apply_block_at now txs m = (m', removed) \<Longrightarrow> mp_step m m'"
| step_revalidate: "revalidate_within env now limit m = (m', removed) \<Longrightarrow> mp_step m m'"
| step_invalidate: "mp_step m (mp_invalidate now i m)"

inductive mp_reachable :: "mempool_config \<Rightarrow> mempool \<Rightarrow> bool" for config where
  reach_new: "mempool_new fee_proposition now config = Some m \<Longrightarrow> mp_reachable config m"
| reach_step: "mp_reachable config m \<Longrightarrow> mp_step m m' \<Longrightarrow> mp_reachable config m'"

inductive_cases mp_stepE: "mp_step m m'"

lemma mp_invalidate_inv: "mp_inv m \<Longrightarrow> mp_inv (mp_invalidate now i m)"
  using otx.remove_inv [of "mp_pool m" i] otx.remove_all_size [of "mp_pool m" "[i]"]
  by (auto simp: mp_inv_def mp_invalidate_def cache_insert_inv)

lemma mp_step_inv:
  assumes "mp_step m m'" and inv: "mp_inv m"
  shows "mp_inv m' \<and> mp_config m' = mp_config m"
  using assms(1)
proof cases
  case (step_process tx env now elapsed tx_bytes source out)
  with process_spec [OF inv step_process(1), of env now elapsed tx_bytes source] show ?thesis by auto
next
  case (step_block now txs removed)
  with apply_block_spec(1,6) [OF inv, of now txs] show ?thesis by simp
next
  case (step_revalidate env now limit removed)
  with revalidate_loop_ok [OF inv, of "[]" env now limit "map (tx_id \<circ> fst) (ordered (mp_pool m))" 0]
  show ?thesis by (simp add: revalidate_within_def pass_ok_def)
next
  case (step_invalidate now i)
  with mp_invalidate_inv [OF inv] show ?thesis by (simp add: mp_invalidate_def)
qed

lemma reachable_inv: "mp_reachable config m \<Longrightarrow> mp_inv m \<and> mp_config m = config"
proof (induction rule: mp_reachable.induct)
  case (reach_new fee_proposition now m)
  then show ?case using mempool_new_inv by (auto simp: mempool_new_def)
next
  case (reach_step m m')
  then show ?case using mp_step_inv by auto
qed

section \<open>A concrete mempool\<close>

definition sample_box :: "id32 \<Rightarrow> u64 \<Rightarrow> bytes \<Rightarrow> ergo_box" where
  "sample_box i v tree = \<lparr>box_id = i, box_value = v, box_tree = tree, box_creation_height = 5, box_tokens = []\<rparr>"

definition sample_tx :: "id32 \<Rightarrow> id32 list \<Rightarrow> u64 \<Rightarrow> transaction" where
  "sample_tx i inputs fee = \<lparr>tx_ident = i, tx_inputs = inputs, tx_data_inputs = None,
     tx_outputs = [sample_box (i + 1000) fee [7], sample_box (i + 2000) 50 [8]]\<rparr>"

definition sample_env :: chain_env where
  "sample_env = \<lparr>utxo_box = (\<lambda>i. if i < 100 then Some (sample_box i 100 [9]) else None),
     pre_header_height = 10, validate = (\<lambda>_ _ _. Inr 20)\<rparr>"

definition sample_mp :: "nat \<Rightarrow> mempool" where
  "sample_mp cap = the (mempool_new (\<lambda>_. Some [7]) 0 (mempool_config_default\<lparr>cfg_capacity := cap, cfg_min_fee := 10\<rparr>))"

definition sample_process :: "transaction \<Rightarrow> u64 option \<Rightarrow> mempool \<Rightarrow> (processing_outcome \<times> mempool) option" where
  "sample_process tx source m = process sample_env 1 (\<lambda>_. 0) tx [1, 2, 3, 4] source m"

lemma evict_over_done: "pool_len p \<le> cap \<Longrightarrow> evict_over cap p acc = Some (p, acc)"
  by (simp add: evict_over.simps)

lemma evict_over_step:
  "pool_len p > cap \<Longrightarrow> evict_lowest p = Some (i, p') \<Longrightarrow> evict_over cap p acc = evict_over cap p' (acc @ [i])"
  by (subst evict_over.simps) simp

lemmas sample_data = sample_mp_def sample_tx_def sample_box_def sample_env_def mempool_config_default_def
  mempool_new_def pool_new_def cache_new_def from_secs_def

lemmas sample_run = sample_data sample_process_def process_def cache_contains_def pool_contains_def
  rate_limit_def MAX_TX_INPUTS_def lookup_box_def unconfirmed_box_def output_above_preheader_def extract_fee_def
  charge_peer_def resolve_data_inputs_def hm_insert_def hm_remove_def hm_retain_def hm_map_def admit_def
  find_conflicts_def spending_tx_def avg_conflict_weight_def Let_def is_full_def pool_len_def
  lowest_weight_def tx_weight_new_def saturating_u64_def pool_insert_def output_boxes_def
  propagate_family_weight_def push_parents_def weight_cmp_def cmp_of_def MAX_PARENT_SCAN_DEPTH_def
  MAX_PARENT_SCAN_MS_def and_then_def update_weight_def bt_get_def bt_remove_def pool_get_def

lemma sample_reachable: "mp_reachable (mp_config (sample_mp cap)) (sample_mp cap)"
  by (rule reach_new [where fee_proposition = "\<lambda>_. Some [7]" and now = 0])
    (simp add: sample_mp_def mempool_new_def mempool_config_default_def)

lemma sample_pool: "mp_pool (sample_mp cap) = pool_new cap"
  by (simp add: sample_mp_def mempool_new_def mempool_config_default_def)

lemma sample_fresh: "fresh_outputs (sample_tx i ins fee) (mp_pool (sample_mp cap))"
  by (simp add: sample_pool fresh_outputs_def sample_tx_def sample_box_def unconfirmed_box_def pool_new_def)

section \<open>Invariants of every history\<close>



section \<open>Admission\<close>



subsection \<open>Rate limits\<close>

definition budget_ok :: "mempool \<Rightarrow> bool" where
  "budget_ok m \<longleftrightarrow> unat (mp_interblock_cost m) < unat (cfg_cost_per_block (mp_config m)) + 2 ^ 32
     \<and> (\<forall>peer c. map_of (mp_per_peer_cost m) peer = Some c
          \<longrightarrow> unat c < unat (cfg_cost_per_peer_per_block (mp_config m)) + 2 ^ 32)"

definition budgets_representable :: "mempool_config \<Rightarrow> bool" where
  "budgets_representable config \<longleftrightarrow> unat (cfg_cost_per_block config) + 2 ^ 32 \<le> 2 ^ 64
     \<and> unat (cfg_cost_per_peer_per_block config) + 2 ^ 32 \<le> 2 ^ 64"

lemma add_cost_bound:
  fixes c limit :: u64 and cost :: u32
  assumes "c < limit" and "unat limit + 2 ^ 32 \<le> 2 ^ 64"
  shows "unat (c + ucast cost) < unat limit + 2 ^ 32"
proof -
  have "unat (ucast cost :: u64) < 2 ^ 32" using unat_u32_bound [of cost] by (simp add: unat_ucast_widen)
  moreover have "unat c < unat limit" using assms(1) by (simp add: word_less_nat_alt)
  ultimately show ?thesis using unat_add_lem [of c "ucast cost"] assms(2) by simp
qed

lemma charge_peer_budget:
  assumes ok: "budget_ok m" and rep: "budgets_representable (mp_config m)" and free: "rate_limit source m = None"
  shows "budget_ok (charge_peer source cost m)"
proof (cases source)
  case (Some peer)
  with free have c: "mp_interblock_cost m < cfg_cost_per_block (mp_config m)"
    by (auto simp: rate_limit_def split: if_splits)
  let ?pc = "(case map_of (mp_per_peer_cost m) peer of None \<Rightarrow> 0 | Some c \<Rightarrow> c) + ucast cost :: u64"
  have pc: "unat ?pc < unat (cfg_cost_per_peer_per_block (mp_config m)) + 2 ^ 32"
  proof (cases "map_of (mp_per_peer_cost m) peer")
    case None
    then show ?thesis using unat_u32_bound [of cost] by (simp add: unat_ucast_widen)
  next
    case (Some d)
    with free c \<open>source = Some peer\<close> have "d < cfg_cost_per_peer_per_block (mp_config m)"
      by (auto simp: rate_limit_def split: if_splits)
    with add_cost_bound [OF this] rep Some show ?thesis by (simp add: budgets_representable_def)
  qed
  show ?thesis using ok add_cost_bound [OF c] rep pc Some
    by (auto simp: budget_ok_def charge_peer_def budgets_representable_def)
qed (use ok in \<open>simp add: charge_peer_def\<close>)

definition costs :: "mempool \<Rightarrow> u64 \<times> (u64, u64) hmap \<times> mempool_config" where
  "costs m = (mp_interblock_cost m, mp_per_peer_cost m, mp_config m)"

lemma budget_costs: "costs m' = costs m \<Longrightarrow> budget_ok m' = budget_ok m"
  by (simp add: costs_def budget_ok_def)

lemma admit_costs: "admit now elapsed tx tx_bytes source fee cost vc m = Some (out, m') \<Longrightarrow> costs m' = costs m"
  by (auto simp: admit_def Let_def costs_def split: if_splits)

lemma process_costs:
  assumes "process env now elapsed tx tx_bytes source m = Some (out, m')"
  shows "costs m' = costs m \<or> rate_limit source m = None \<and> (\<exists>cost. costs m' = costs (charge_peer source cost m))"
proof (cases "rate_limit source m")
  case None
  with assms show ?thesis
    by (auto simp: process_def Let_def costs_def [of "mp_invalidated_update _ _"]
        dest!: admit_costs split: if_splits sum.splits option.splits) (auto simp: costs_def)
next
  case (Some r)
  with assms show ?thesis by (auto simp: process_def split: if_splits)
qed

lemma mp_step_budget:
  assumes "mp_step m m'" and "mp_inv m" and "budget_ok m" and "budgets_representable (mp_config m)"
  shows "budget_ok m'"
  using assms(1)
proof cases
  case (step_process tx env now elapsed tx_bytes source out)
  from process_costs [OF step_process(2)] show ?thesis
    using assms(3,4) charge_peer_budget [of m source] budget_costs by blast
next
  case (step_block now txs removed)
  then show ?thesis using apply_block_spec(4,5) [OF assms(2), of now txs] by (simp add: budget_ok_def)
next
  case (step_revalidate env now limit removed)
  have "costs (fst (revalidate_loop env now limit is spent m rem)) = costs m" for "is" spent m rem
    by (induction "is" arbitrary: spent m rem)
      (auto simp: Let_def costs_def split: option.split sum.split)
  with step_revalidate assms(3) budget_costs [of m' m] show ?thesis by (metis fst_conv revalidate_within_def)
next
  case (step_invalidate now i)
  with assms(3) show ?thesis by (simp add: budget_ok_def mp_invalidate_def)
qed



section \<open>Blocks\<close>



section \<open>Revalidation\<close>

lemma pool_get_drop: "pool_inv p \<Longrightarrow> pool_get j (pool_drop i p) = (if j = i then None else pool_get j p)"
  using otx.remove_entries [of p i] by (simp add: pool_get_entries)

definition stale :: "instant \<Rightarrow> mempool \<Rightarrow> unconfirmed_tx \<Rightarrow> bool" where
  "stale now m u \<longleftrightarrow> \<not> now - utx_last_checked u \<le> cfg_cleanup_interval (mp_config m)"

definition fails :: "chain_env \<Rightarrow> mempool \<Rightarrow> unconfirmed_tx \<Rightarrow> bool" where
  "fails env m u \<longleftrightarrow> (case resolve_inputs env (mp_pool m) (tx_inputs (utx_tx u)) of
     Inl _ \<Rightarrow> True
   | Inr boxes \<Rightarrow> (case validate env (utx_tx u) boxes (resolve_data_inputs env (mp_pool m) (utx_tx u)) of
       Inl _ \<Rightarrow> True | Inr _ \<Rightarrow> False))"

abbreviation revalidated :: "u64 \<Rightarrow> instant \<Rightarrow> unconfirmed_tx \<Rightarrow> unconfirmed_tx" where
  "revalidated cost now u \<equiv> u\<lparr>utx_validation_cost := Some cost, utx_last_checked := now\<rparr>"

text \<open>The pass changes the mempool in two ways only: it drops a stale transaction that fails, and it marks a
  stale one as checked.\<close>

lemma revalidate_loop_preserves:
  assumes "mp_inv m" and "P m"
    and drop: "\<And>m i u c. \<lbrakk>mp_inv m; P m; pool_get i (mp_pool m) = Some u; stale now m u; fails env m u\<rbrakk>
      \<Longrightarrow> P (m\<lparr>mp_invalidated := c, mp_pool := pool_drop i (mp_pool m)\<rparr>)"
    and modify: "\<And>m i u c. \<lbrakk>mp_inv m; P m; pool_get i (mp_pool m) = Some u; stale now m u\<rbrakk>
      \<Longrightarrow> P (m\<lparr>mp_pool := pool_modify i (revalidated c now) (mp_pool m)\<rparr>)"
  shows "P (fst (revalidate_loop env now limit is spent m removed))"
  using assms(1,2)
proof (induction "is" arbitrary: spent m removed)
  case (Cons i "is")
  note inv = Cons.prems(1) and P = Cons.prems(2) and IH = Cons.IH
  show ?case
  proof (cases "pool_get i (mp_pool m)")
    case None
    with IH [OF inv P] show ?thesis by simp
  next
    case (Some u)
    have c: "pool_contains i (mp_pool m)" using Some pool_contains_get inv by (auto simp: mp_inv_def)
    have ci: "cache_inv (mp_invalidated m)" using inv by (simp add: mp_inv_def)
    let ?drop = "\<lambda>k. m\<lparr>mp_invalidated := k, mp_pool := pool_drop i (mp_pool m)\<rparr>"
    let ?mod = "\<lambda>c. m\<lparr>mp_pool := pool_modify i (revalidated c now) (mp_pool m)\<rparr>"
    have dropped: "P (fst (revalidate_loop env now limit is spent' (?drop k) removed'))"
      if "stale now m u" "fails env m u" "cache_inv k" for k spent' removed'
      using pass_invalidate [OF inv c that(3), of "[]"] drop [OF inv P Some that(1,2)]
      by (intro IH) (simp_all add: pass_ok_def)
    have drop_same: "?drop (mp_invalidated m) = m\<lparr>mp_pool := pool_drop i (mp_pool m)\<rparr>" by simp
    have modified: "P (fst (revalidate_loop env now limit is spent' (?mod c) removed'))"
      if "stale now m u" for c spent' removed'
      using pass_modify [OF inv, of "revalidated c now" "[]" i] modify [OF inv P Some that]
      by (intro IH) (simp_all add: pass_ok_def)
    show ?thesis
    proof (cases "stale now m u \<and> \<not> spent \<ge> limit
        \<and> output_above_preheader (utx_tx u) (pre_header_height env) = None")
      case False
      with IH [OF inv P] P Some show ?thesis by (auto simp: stale_def)
    next
      case True
      then have st: "stale now m u" by simp
      show ?thesis
      proof (cases "resolve_inputs env (mp_pool m) (tx_inputs (utx_tx u))")
        case (Inl x)
        then have "fails env m u" by (simp add: fails_def)
        from dropped [OF st this ci] True Some Inl show ?thesis
          unfolding drop_same by (simp add: stale_def Let_def)
      next
        case (Inr boxes)
        note res = this
        show ?thesis
        proof (cases "validate env (utx_tx u) boxes (resolve_data_inputs env (mp_pool m) (utx_tx u))")
          case (Inl e)
          with res have "fails env m u" by (simp add: fails_def)
          from dropped [OF st this cache_insert_inv [OF ci]] True Some Inl res show ?thesis
            by (simp add: stale_def Let_def)
        next
          case (Inr measured)
          with modified [OF st] True Some res show ?thesis by (simp add: stale_def Let_def)
        qed
      qed
    qed
  qed
qed simp

lemma revalidate_keeps_recent:
  assumes "mp_inv m" and "pool_get j (mp_pool m) = Some u" and "\<not> stale now m u"
  shows "pool_get j (mp_pool (fst (revalidate_loop env now limit is spent m removed))) = Some u"
proof -
  let ?P = "\<lambda>m'. pool_get j (mp_pool m') = Some u \<and> mp_config m' = mp_config m"
  have "?P (fst (revalidate_loop env now limit is spent m removed))"
  proof (rule revalidate_loop_preserves)
    fix m' i v c
    assume m': "mp_inv m'" "?P m'" "pool_get i (mp_pool m') = Some v" "stale now m' v"
    have p: "pool_inv (mp_pool m')" using m'(1) by (simp add: mp_inv_def)
    have "j \<noteq> i" using m'(2-4) assms(3) by (auto simp: stale_def)
    then show "?P (m'\<lparr>mp_invalidated := c, mp_pool := pool_drop i (mp_pool m')\<rparr>)"
      using m'(2) pool_get_drop [OF p, of j i] by simp
    show "?P (m'\<lparr>mp_pool := pool_modify i (revalidated c' now) (mp_pool m')\<rparr>)" for c'
      using m'(2) pool_get_modify [OF p, of "revalidated c' now" j i] \<open>j \<noteq> i\<close> by simp
  qed (use assms in auto)
  then show ?thesis by simp
qed

text \<open>A transaction that needs no unconfirmed box and passes validation.\<close>

definition confirmed_valid :: "chain_env \<Rightarrow> transaction \<Rightarrow> bool" where
  "confirmed_valid env tx \<longleftrightarrow> list_all (\<lambda>i. utxo_box env i \<noteq> None) (tx_inputs tx)
     \<and> list_all (\<lambda>i. utxo_box env i \<noteq> None) (case tx_data_inputs tx of None \<Rightarrow> [] | Some ds \<Rightarrow> ds)
     \<and> (case validate env tx (map (the \<circ> utxo_box env) (tx_inputs tx))
           (map (the \<circ> utxo_box env) (case tx_data_inputs tx of None \<Rightarrow> [] | Some ds \<Rightarrow> ds)) of
          Inl _ \<Rightarrow> False | Inr _ \<Rightarrow> True)"

lemma resolve_confirmed:
  "list_all (\<lambda>i. utxo_box env i \<noteq> None) is \<Longrightarrow>
     resolve_inputs env p is = Inr (map (the \<circ> utxo_box env) is)
     \<and> List.map_filter (lookup_box env p) is = map (the \<circ> utxo_box env) is"
  by (induction "is") (auto simp: lookup_box_def and_then_def List.map_filter_simps)

lemma confirmed_valid_passes: "confirmed_valid env (utx_tx u) \<Longrightarrow> \<not> fails env m u"
  using resolve_confirmed [of env _ "mp_pool m"]
  by (auto simp: confirmed_valid_def fails_def resolve_data_inputs_def List.map_filter_simps split: sum.splits option.splits)

lemma revalidate_keeps_valid:
  assumes "mp_inv m" and "pool_get j (mp_pool m) = Some u" and "confirmed_valid env (utx_tx u)"
  shows "pool_contains j (mp_pool (fst (revalidate_loop env now limit is spent m removed)))"
proof -
  let ?P = "\<lambda>m'. \<exists>v. pool_get j (mp_pool m') = Some v \<and> utx_tx v = utx_tx u"
  have "?P (fst (revalidate_loop env now limit is spent m removed))"
  proof (rule revalidate_loop_preserves)
    fix m' i v c
    assume m': "mp_inv m'" "?P m'" "pool_get i (mp_pool m') = Some v" "fails env m' v"
    have p: "pool_inv (mp_pool m')" using m'(1) by (simp add: mp_inv_def)
    have "j \<noteq> i" using m'(2-4) confirmed_valid_passes [of env] assms(3) by force
    then show "?P (m'\<lparr>mp_invalidated := c, mp_pool := pool_drop i (mp_pool m')\<rparr>)"
      using m'(2) pool_get_drop [OF p, of j i] by simp
  next
    fix m' i v c
    assume m': "mp_inv m'" "?P m'"
    have p: "pool_inv (mp_pool m')" using m'(1) by (simp add: mp_inv_def)
    show "?P (m'\<lparr>mp_pool := pool_modify i (revalidated c now) (mp_pool m')\<rparr>)"
      using m'(2) pool_get_modify [OF p, of "revalidated c now" j i] by auto
  qed (use assms in auto)
  moreover have "mp_inv (fst (revalidate_loop env now limit is spent m removed))"
    using revalidate_loop_ok [OF assms(1)] by (simp add: pass_ok_def)
  ultimately show ?thesis using pool_contains_get by (auto simp: mp_inv_def)
qed

text \<open>(C24) A revalidation pass only ever takes out what it reports, keeps every other transaction's data, leaves
  a recently checked transaction untouched, and never removes a transaction whose inputs are confirmed and
  which still validates; the mempool stays reachable, so all its invariants hold afterwards.\<close>

theorem revalidation_sound:
  assumes "mp_reachable config m"
  shows "case revalidate_at env now m of (m', removed) \<Rightarrow>
    mp_reachable config m'
    \<and> (\<forall>i. if i \<in> set removed then pool_contains i (mp_pool m) \<and> pool_get i (mp_pool m') = None
           else same_payload (mp_pool m) (mp_pool m') i)
    \<and> (\<forall>i u. pool_get i (mp_pool m) = Some u \<longrightarrow> now - utx_last_checked u \<le> cfg_cleanup_interval config
           \<longrightarrow> pool_get i (mp_pool m') = Some u)
    \<and> (\<forall>i u. pool_get i (mp_pool m) = Some u \<longrightarrow> confirmed_valid env (utx_tx u) \<longrightarrow> i \<notin> set removed)"
proof -
  have inv: "mp_inv m" "mp_config m = config" using reachable_inv [OF assms] by simp_all
  obtain m' removed where r: "revalidate_at env now m = (m', removed)" by (cases "revalidate_at env now m")
  have reach: "mp_reachable config m'"
    using reach_step [OF assms step_revalidate] r by (simp add: revalidate_at_def)
  then have inv': "mp_inv m'" using reachable_inv by blast
  let ?loop = "revalidate_loop env now CLEANUP_COST_LIMIT (map (tx_id \<circ> fst) (ordered (mp_pool m))) 0 m []"
  have l: "?loop = (m', removed)" using r by (simp add: revalidate_at_def revalidate_within_def)
  have ok: "pass_ok m [] m' removed"
    using revalidate_loop_ok [OF inv(1), of "[]" env now CLEANUP_COST_LIMIT "map (tx_id \<circ> fst) (ordered (mp_pool m))" 0]
    unfolding l by simp
  have recent: "pool_get i (mp_pool m') = Some u"
    if "pool_get i (mp_pool m) = Some u" "now - utx_last_checked u \<le> cfg_cleanup_interval config" for i u
    using revalidate_keeps_recent [OF inv(1) that(1), of now env CLEANUP_COST_LIMIT _ 0 "[]"] that(2) inv(2) l
    by (metis fst_conv stale_def)
  have valid: "i \<notin> set removed"
    if "pool_get i (mp_pool m) = Some u" "confirmed_valid env (utx_tx u)" for i u
  proof -
    have "pool_contains i (mp_pool m')" using revalidate_keeps_valid [OF inv(1) that] l by (metis fst_conv)
    then have "pool_get i (mp_pool m') \<noteq> None" using pool_contains_get inv' by (auto simp: mp_inv_def)
    then show ?thesis using ok by (auto simp: pass_ok_def split: if_splits)
  qed
  show ?thesis unfolding r prod.case
    using reach ok recent valid by (auto simp: pass_ok_def)
qed

theorem revalidation_sound_witness:
  "case revalidate_at sample_env 5 (sample_mp 2) of (m', removed) \<Rightarrow>
     same_payload (mp_pool (sample_mp 2)) (mp_pool m') 200"
proof -
  have "\<not> pool_contains 200 (mp_pool (sample_mp 2))" by (simp add: sample_pool pool_contains_def pool_new_def)
  with revalidation_sound [OF sample_reachable, where env = sample_env and now = 5 and cap1 = 2]
  show ?thesis by (auto split: if_splits)
qed

section \<open>Fee queries\<close>

definition wait_bin :: "instant \<Rightarrow> u32 \<Rightarrow> u64 \<Rightarrow> unconfirmed_tx \<Rightarrow> nat" where
  "wait_bin now bins max_wait_ms u =
     (let wait = as_millis (now - utx_created u) in
      if wait < unat max_wait_ms then min (wait div (unat max_wait_ms div unat bins)) (unat bins) else unat bins)"

lemma histogram_fold:
  assumes "\<And>u. f u < length h" and "k < length h"
  shows "n_txns (fold (\<lambda>(w, u) h. h[f u := bin_add (fee_per_factor w) (h ! f u)]) es h ! k)
     = n_txns (h ! k) + of_nat (length (filter (\<lambda>(w, u). f u = k) es))"
  using assms
proof (induction es arbitrary: h)
  case (Cons e es)
  obtain w u where e: "e = (w, u)" by (cases e)
  show ?case using Cons.IH [of "h[f u := bin_add (fee_per_factor w) (h ! f u)]"] Cons.prems
    by (auto simp: e bin_add_def nth_list_update)
qed simp

lemma wait_bin_word:
  fixes bins :: u32 and max_wait_ms :: u64 and u :: unconfirmed_tx and now :: instant
  assumes "now < 2 ^ 128"
  defines "wait \<equiv> saturating_u64 (of_nat (as_millis (now - utx_created u)))"
  shows "unat (if wait < max_wait_ms then min (wait div (max_wait_ms div ucast bins)) (ucast bins) else ucast bins)
     = wait_bin now bins max_wait_ms u"
proof -
  have "as_millis (now - utx_created u) \<le> now" by (simp add: as_millis_def)
  then have "as_millis (now - utx_created u) < 2 ^ 128" using assms(1) by linarith
  then have "unat (of_nat (as_millis (now - utx_created u)) :: u128) = as_millis (now - utx_created u)"
    by (simp add: unat_of_nat)
  then have w: "unat wait = min (as_millis (now - utx_created u)) (2 ^ 64 - 1)"
    by (simp only: wait_def unat_saturating_u64)
  have lt: "wait < max_wait_ms \<longleftrightarrow> as_millis (now - utx_created u) < unat max_wait_ms"
    using unat_u64_bound [of max_wait_ms] by (auto simp: word_less_nat_alt w)
  have eq: "as_millis (now - utx_created u) < unat max_wait_ms \<Longrightarrow> unat wait = as_millis (now - utx_created u)"
    using unat_u64_bound [of max_wait_ms] by (simp add: w)
  have b: "unat (ucast bins :: u64) = unat bins" by (rule unat_ucast_widen) simp
  show ?thesis unfolding wait_bin_def Let_def lt
    using eq by (auto simp: b min_def word_le_nat_alt unat_div)
qed

text \<open>The pool histogram has one bin more than asked for and counts every transaction of the pool exactly
  once, in the bin of its waiting time: no wait, however long, is counted outside the array.\<close>

theorem pool_histogram_exact:
  assumes "1 \<le> bins" and "ucast bins \<le> max_wait_ms" and "now < 2 ^ 128"
  shows "let h = pool_histogram_at now bins max_wait_ms m in
    length h = unat bins + 1
    \<and> (\<forall>u. wait_bin now bins max_wait_ms u < length h)
    \<and> (\<forall>k < length h. n_txns (h ! k) =
         of_nat (length (filter (\<lambda>(w, u). wait_bin now bins max_wait_ms u = k) (ordered (mp_pool m)))))"
proof -
  let ?f = "\<lambda>(w, u) h. h[wait_bin now bins max_wait_ms u := bin_add (fee_per_factor w) (h ! wait_bin now bins max_wait_ms u)]"
  let ?h0 = "replicate (unat bins + 1) bin_default"
  have h: "pool_histogram_at now bins max_wait_ms m = fold ?f (ordered (mp_pool m)) ?h0"
    unfolding pool_histogram_at_def Let_def wait_bin_word [OF assms(3)] ..
  have len: "length (fold ?f es h) = length h" for es h
    by (induction es arbitrary: h) auto
  have wb: "wait_bin now bins max_wait_ms u < unat bins + 1" for u
    by (simp add: wait_bin_def Let_def less_Suc_eq_le)
  show ?thesis unfolding Let_def h len
    using wb histogram_fold [where f = "wait_bin now bins max_wait_ms" and h = ?h0 and es = "ordered (mp_pool m)"]
    by (simp add: bin_default_def del: replicate_Suc)
qed

theorem pool_histogram_exact_witness:
  "length (pool_histogram_at 7 2 10 (sample_mp 2)) = 3"
  using pool_histogram_exact [of 2 10 7 "sample_mp 2"] by (simp add: Let_def)

section \<open>Where the code falls short of its contract\<close>


text \<open>An \<^emph>\<open>accepted\<close> transaction need not be in the pool: in a full pool, a transaction spending the
  output of the lightest one gives that parent its own weight and is then itself the lightest, so it is
  evicted again while the caller is told that it was added.\<close>

theorem accepted_but_evicted:
  "case sample_process (sample_tx 200 [1] 100) None (sample_mp 1) of
     Some (out, m) \<Rightarrow> out = Accepted 200 \<and>
       (case sample_process (sample_tx 300 [2200] 200) None m of
          Some (out', m') \<Rightarrow> out' = Accepted 300 \<and> \<not> pool_contains 300 (mp_pool m') \<and> pool_contains 200 (mp_pool m')
        | None \<Rightarrow> False)
   | None \<Rightarrow> False"
  by (simp add: sample_run evict_over_done evict_over_step evict_lowest_def pool_remove_def)

end
