(* ===== verification/Chain_Header.thy ===== *)
theory Chain_Header
  imports Chain_Types Ordered_Map
begin

text \<open>
  Headers, errors and network parameters of the header chain (\<open>chain/src/error.rs\<close>, \<open>chain/src/config.rs\<close>,
  the presets of \<open>chain/src/voting.rs\<close> and the \<open>Header\<close> fields the chain reads). Heights are naturals: a
  chain of \<open>2 ^ 32\<close> headers is out of reach, and every height that enters the chain has been compared with
  the height after the tip. The texts carried by errors are left out.
\<close>

section \<open>Errors\<close>

datatype chain_error =
    Parse
  | PowInvalid
  | PowCompute
  | ParentNotFound id32
  | NonSequentialHeight nat nat
  | TimestampNotIncreasing u64 u64
  | TimestampTooFarInFuture u64 u64
  | WrongDifficulty nat u32 u32
  | InvalidGenesisParent id32
  | InvalidGenesisHeight nat
  | GenesisIdMismatch id32 id32
  | DifficultyCalc
  | Reorg
  | SyncInfoError
  | VotingError
  | ExtensionParse
  | SectionError u8
  | Nipopow
  | ChainNotEmpty
  | BrokenParentLink nat id32 id32 id32
  | IndexInconsistency nat

datatype restore_error = NonContiguousHeights nat nat | DuplicateHeight nat

section \<open>Headers\<close>

text \<open>The fields of \<open>ergo_chain_types::Header\<close> that the chain reads; \<open>h_votes\<close> holds the three vote bytes.\<close>

record header =
  h_version :: u8
  h_id :: id32
  h_parent_id :: id32
  h_height :: nat
  h_timestamp :: u64
  h_n_bits :: u32
  h_votes :: "u8 list"

section \<open>Network parameters\<close>

datatype network = Mainnet | Testnet

record voting_config =
  voting_length :: nat
  soft_fork_epochs :: nat
  activation_epochs :: nat
  version2_activation_height :: nat

definition voting_mainnet :: voting_config where
  "voting_mainnet = \<lparr>voting_length = 1024, soft_fork_epochs = 32, activation_epochs = 32,
     version2_activation_height = 417792\<rparr>"

definition voting_testnet :: voting_config where
  "voting_testnet = \<lparr>voting_length = 128, soft_fork_epochs = 32, activation_epochs = 32,
     version2_activation_height = 0\<rparr>"

record chain_config =
  cc_network :: network
  epoch_length :: nat
  block_interval_ms :: u64
  use_last_epochs :: nat
  initial_n_bits :: u32
  version2_activation_n_bits :: "u32 option"
  genesis_id :: "id32 option"
  max_time_drift_ms :: u64
  eip37_activation_height :: "nat option"
  eip37_epoch_length :: "nat option"
  cc_voting :: voting_config

definition config_testnet :: chain_config where
  "config_testnet = \<lparr>cc_network = Testnet, epoch_length = 128, block_interval_ms = 45000, use_last_epochs = 8,
     initial_n_bits = 16842752, version2_activation_n_bits = None, genesis_id = None,
     max_time_drift_ms = 10 * 45000, eip37_activation_height = None, eip37_epoch_length = None,
     cc_voting = voting_testnet\<rparr>"

definition config_mainnet :: chain_config where
  "config_mainnet = \<lparr>cc_network = Mainnet, epoch_length = 1024, block_interval_ms = 120000, use_last_epochs = 8,
     initial_n_bits = 100734821, version2_activation_n_bits = Some 107976917,
     genesis_id = Some 0xb0244dfc267baca974a4caee06120321562784303a8a688976ae56170e4d175b,
     max_time_drift_ms = 10 * 120000, eip37_activation_height = Some 844673, eip37_epoch_length = Some 128,
     cc_voting = voting_mainnet\<rparr>"

definition epoch_length_at :: "nat \<Rightarrow> chain_config \<Rightarrow> nat" where
  "epoch_length_at height config =
     (case (eip37_activation_height config, eip37_epoch_length config) of
        (Some activation, Some eip37_len) \<Rightarrow> if height \<ge> activation then eip37_len else epoch_length config
      | _ \<Rightarrow> epoch_length config)"

definition eip37_active :: "nat \<Rightarrow> chain_config \<Rightarrow> bool" where
  "eip37_active height config =
     (case eip37_activation_height config of None \<Rightarrow> False | Some h \<Rightarrow> height \<ge> h)"

section \<open>Signed conversions\<close>

text \<open>The value of an \<open>i32\<close> or \<open>i8\<close> cast or wrapping operation.\<close>

definition wrap_i32 :: "int \<Rightarrow> int" where
  "wrap_i32 x = (x + 2 ^ 31) mod 2 ^ 32 - 2 ^ 31"

definition wrap_i8 :: "int \<Rightarrow> int" where
  "wrap_i8 x = (x + 2 ^ 7) mod 2 ^ 8 - 2 ^ 7"

lemma wrap_i32_id [simp]: "- (2 ^ 31) \<le> x \<Longrightarrow> x < 2 ^ 31 \<Longrightarrow> wrap_i32 x = x"
  by (simp add: wrap_i32_def)

lemma wrap_i32_range: "- (2 ^ 31) \<le> wrap_i32 x" "wrap_i32 x < 2 ^ 31"
  by (simp_all add: wrap_i32_def)

lemma wrap_i8_id: "- (2 ^ 7) \<le> x \<Longrightarrow> x < 2 ^ 7 \<Longrightarrow> wrap_i8 x = x"
  by (simp add: wrap_i8_def)

end
