(* ===== verification/Lazy_Store.thy ===== *)
theory Lazy_Store
  imports Chain_Header
begin

text \<open>
  The loader-backed header and score caches of the header chain (\<open>chain/src/cache.rs\<close>). The LRU cache is an
  external crate: its operations are fields of a record, and \<open>lru_ok\<close> states what its documentation promises,
  in terms of its most-recent-first iterator. The mutexes are never contended (the chain has one owner), so each
  operation is a function on the store. A \<open>BigUint\<close> is a natural number.
\<close>

section \<open>Definitions\<close>

record ('c, 'v) lru_ops =
  lru_new :: "nat \<Rightarrow> 'c"
  lru_get :: "nat \<Rightarrow> 'c \<Rightarrow> 'v option \<times> 'c"
  lru_put :: "nat \<Rightarrow> 'v \<Rightarrow> 'c \<Rightarrow> 'c"
  lru_pop :: "nat \<Rightarrow> 'c \<Rightarrow> 'c"
  lru_clear :: "'c \<Rightarrow> 'c"
  lru_resize :: "nat \<Rightarrow> 'c \<Rightarrow> 'c"
  lru_cap :: "'c \<Rightarrow> nat"
  lru_iter :: "'c \<Rightarrow> (nat \<times> 'v) list"

definition without :: "nat \<Rightarrow> (nat \<times> 'v) list \<Rightarrow> (nat \<times> 'v) list" where
  "without k xs = filter (\<lambda>e. fst e \<noteq> k) xs"

text \<open>What the crate promises: \<open>iter\<close> lists the entries most recently used first, \<open>get\<close> and \<open>put\<close> move their
  key to the front, \<open>put\<close> drops the least recently used entries beyond the capacity.\<close>

definition lru_ok :: "('c, 'v) lru_ops \<Rightarrow> bool" where
  "lru_ok ops \<longleftrightarrow>
     (\<forall>n. lru_iter ops (lru_new ops n) = [] \<and> lru_cap ops (lru_new ops n) = n) \<and>
     (\<forall>k c. fst (lru_get ops k c) = map_of (lru_iter ops c) k
        \<and> lru_iter ops (snd (lru_get ops k c)) =
            (case map_of (lru_iter ops c) k of
               None \<Rightarrow> lru_iter ops c
             | Some v \<Rightarrow> (k, v) # without k (lru_iter ops c))
        \<and> lru_cap ops (snd (lru_get ops k c)) = lru_cap ops c) \<and>
     (\<forall>k v c. lru_iter ops (lru_put ops k v c) =
            take (lru_cap ops c) ((k, v) # without k (lru_iter ops c))
        \<and> lru_cap ops (lru_put ops k v c) = lru_cap ops c) \<and>
     (\<forall>k c. lru_iter ops (lru_pop ops k c) = without k (lru_iter ops c)
        \<and> lru_cap ops (lru_pop ops k c) = lru_cap ops c) \<and>
     (\<forall>c. lru_iter ops (lru_clear ops c) = [] \<and> lru_cap ops (lru_clear ops c) = lru_cap ops c) \<and>
     (\<forall>n c. lru_iter ops (lru_resize ops n c) = take n (lru_iter ops c) \<and> lru_cap ops (lru_resize ops n c) = n)"

record ('hc, 'sc) lru_lib =
  header_lru :: "('hc, header) lru_ops"
  score_lru :: "('sc, nat) lru_ops"

definition DEFAULT_CACHE_CAPACITY :: nat where
  "DEFAULT_CACHE_CAPACITY = 16384"

record ('hc, 'sc) lazy_header_store =
  headers :: 'hc
  scores :: 'sc
  header_loader :: "(nat \<Rightarrow> header option) option"
  score_loader :: "(nat \<Rightarrow> nat option) option"

definition with_capacity :: "('hc, 'sc, 'm) lru_lib_scheme \<Rightarrow> nat \<Rightarrow> ('hc, 'sc) lazy_header_store" where
  "with_capacity L capacity =
     \<lparr>headers = lru_new (header_lru L) capacity, scores = lru_new (score_lru L) capacity,
      header_loader = None, score_loader = None\<rparr>"

definition with_default_capacity :: "('hc, 'sc, 'm) lru_lib_scheme \<Rightarrow> ('hc, 'sc) lazy_header_store" where
  "with_default_capacity L = with_capacity L DEFAULT_CACHE_CAPACITY"

definition store_resize ::
  "('hc, 'sc, 'm) lru_lib_scheme \<Rightarrow> nat \<Rightarrow> ('hc, 'sc) lazy_header_store \<Rightarrow> ('hc, 'sc) lazy_header_store" where
  "store_resize L capacity z =
     z\<lparr>headers := lru_resize (header_lru L) capacity (headers z),
       scores := lru_resize (score_lru L) capacity (scores z)\<rparr>"

text \<open>The cache-then-loader pattern of \<open>get_header\<close> and \<open>get_score\<close>.\<close>

definition read_through ::
  "('c, 'v) lru_ops \<Rightarrow> (nat \<Rightarrow> 'v option) option \<Rightarrow> nat \<Rightarrow> 'c \<Rightarrow> 'v option \<times> 'c" where
  "read_through ops loader height c =
     (case lru_get ops height c of
        (Some v, c') \<Rightarrow> (Some v, c')
      | (None, c') \<Rightarrow>
          (case loader of
             None \<Rightarrow> (None, c')
           | Some load \<Rightarrow>
               (case load height of
                  None \<Rightarrow> (None, c')
                | Some v \<Rightarrow> (Some v, lru_put ops height v c'))))"

definition get_header ::
  "('hc, 'sc, 'm) lru_lib_scheme \<Rightarrow> nat \<Rightarrow> ('hc, 'sc) lazy_header_store \<Rightarrow> header option \<times> ('hc, 'sc) lazy_header_store" where
  "get_header L height z =
     (let (r, c) = read_through (header_lru L) (header_loader z) height (headers z) in (r, z\<lparr>headers := c\<rparr>))"

definition get_score ::
  "('hc, 'sc, 'm) lru_lib_scheme \<Rightarrow> nat \<Rightarrow> ('hc, 'sc) lazy_header_store \<Rightarrow> nat option \<times> ('hc, 'sc) lazy_header_store" where
  "get_score L height z =
     (let (r, c) = read_through (score_lru L) (score_loader z) height (scores z) in (r, z\<lparr>scores := c\<rparr>))"

definition store_put ::
  "('hc, 'sc, 'm) lru_lib_scheme \<Rightarrow> nat \<Rightarrow> header \<Rightarrow> nat \<Rightarrow> ('hc, 'sc) lazy_header_store \<Rightarrow> ('hc, 'sc) lazy_header_store" where
  "store_put L height hdr score z =
     z\<lparr>headers := lru_put (header_lru L) height hdr (headers z),
       scores := lru_put (score_lru L) height score (scores z)\<rparr>"

definition store_evict ::
  "('hc, 'sc, 'm) lru_lib_scheme \<Rightarrow> nat \<Rightarrow> ('hc, 'sc) lazy_header_store \<Rightarrow> ('hc, 'sc) lazy_header_store" where
  "store_evict L height z =
     z\<lparr>headers := lru_pop (header_lru L) height (headers z),
       scores := lru_pop (score_lru L) height (scores z)\<rparr>"

definition store_clear ::
  "('hc, 'sc, 'm) lru_lib_scheme \<Rightarrow> ('hc, 'sc) lazy_header_store \<Rightarrow> ('hc, 'sc) lazy_header_store" where
  "store_clear L z =
     z\<lparr>headers := lru_clear (header_lru L) (headers z), scores := lru_clear (score_lru L) (scores z)\<rparr>"

section \<open>What a cache with a loader serves\<close>

text \<open>
  \<open>serves ops U loader c view\<close>: every height of \<open>view\<close> is read with the value the view has. \<open>U\<close> is the window of
  heights in use. The entries of the window that were touched form a prefix of the recency list, so as long as the
  window fits the capacity none of them is evicted; every other height of the view is known to the loader.
\<close>

definition known ::
  "(nat \<Rightarrow> 'v option) option \<Rightarrow> (nat \<times> 'v) list \<Rightarrow> (nat \<times> 'v) list \<Rightarrow> nat \<Rightarrow> 'v \<Rightarrow> bool" where
  "known loader entries touched k v \<longleftrightarrow>
     map_of entries k \<in> {None, Some v} \<and> (k \<in> fst ` set touched \<or> Option.bind loader (\<lambda>load. load k) = Some v)"

definition serves ::
  "('c, 'v) lru_ops \<Rightarrow> nat set \<Rightarrow> (nat \<Rightarrow> 'v option) option \<Rightarrow> 'c \<Rightarrow> (nat \<Rightarrow> 'v option) \<Rightarrow> bool" where
  "serves ops U loader c view \<longleftrightarrow>
     lru_ok ops \<and> finite U \<and> card U \<le> lru_cap ops c \<and> distinct (map fst (lru_iter ops c)) \<and>
     (\<exists>xs ys. lru_iter ops c = xs @ ys \<and> fst ` set xs \<subseteq> U \<and>
        (\<forall>k v. view k = Some v \<longrightarrow> known loader (lru_iter ops c) xs k v))"

lemma servesI:
  "lru_ok ops \<Longrightarrow> finite U \<Longrightarrow> card U \<le> lru_cap ops c \<Longrightarrow> distinct (map fst (lru_iter ops c)) \<Longrightarrow>
   lru_iter ops c = xs @ ys \<Longrightarrow> fst ` set xs \<subseteq> U \<Longrightarrow>
   (\<And>k v. view k = Some v \<Longrightarrow> known loader (lru_iter ops c) xs k v) \<Longrightarrow> serves ops U loader c view"
  unfolding serves_def by blast

lemma servesE:
  assumes "serves ops U loader c view"
  obtains xs ys where "lru_ok ops" "finite U" "card U \<le> lru_cap ops c" "distinct (map fst (lru_iter ops c))"
    "lru_iter ops c = xs @ ys" "fst ` set xs \<subseteq> U"
    "\<forall>k v. view k = Some v \<longrightarrow> known loader (lru_iter ops c) xs k v"
  using assms unfolding serves_def by blast

lemma serves_lru_ok: "serves ops U loader c view \<Longrightarrow> lru_ok ops"
  and serves_fits: "serves ops U loader c view \<Longrightarrow> card U \<le> lru_cap ops c"
  by (simp_all add: serves_def)

lemma map_of_without [simp]: "map_of (without k xs) j = (if j = k then None else map_of xs j)"
  by (induction xs) (auto simp: without_def)

lemma without_append [simp]: "without k (xs @ ys) = without k xs @ without k ys"
  by (simp add: without_def)

lemma distinct_without [simp]: "distinct (map fst xs) \<Longrightarrow> distinct (map fst (without k xs))"
  by (induction xs) (auto simp: without_def)

lemma keys_without [simp]: "fst ` set (without k xs) = fst ` set xs - {k}"
  by (force simp: without_def)

lemma map_of_take_Some: "map_of (take n xs) k = Some v \<Longrightarrow> map_of xs k = Some v"
proof -
  assume "map_of (take n xs) k = Some v"
  then have "map_of (take n xs @ drop n xs) k = Some v" by (simp only: map_of_append map_add_Some_iff) simp
  then show ?thesis by simp
qed

text \<open>Moving a key of the window to the front keeps the touched prefix inside the window.\<close>

lemma front_prefix:
  fixes xs ys :: "(nat \<times> 'v) list" and v :: 'v
  assumes "distinct (map fst (xs @ ys))" "fst ` set xs \<subseteq> U" "k \<in> U" "finite U" "card U \<le> cap"
  shows "\<exists>ys'. take cap ((k, v) # without k (xs @ ys)) = ((k, v) # without k xs) @ ys'"
proof -
  let ?xs = "(k, v) # without k xs"
  have d: "distinct (map fst ?xs)" using assms(1) by simp
  have "length ?xs = card (set (map fst ?xs))" using distinct_card [OF d] by simp
  also have "\<dots> \<le> card U" using assms(2, 3, 4) by (intro card_mono) auto
  finally have "length ?xs \<le> cap" using assms(5) by simp
  then show ?thesis
    by (intro exI [of _ "take (cap - length ?xs) (without k ys)"]) (simp add: take_Cons')
qed

lemma serves_mono:
  assumes "serves ops U loader c view" "view' \<subseteq>\<^sub>m view"
  shows "serves ops U loader c view'"
proof -
  from assms(1) obtain xs ys where e: "lru_ok ops" "finite U" "card U \<le> lru_cap ops c"
    "distinct (map fst (lru_iter ops c))" "lru_iter ops c = xs @ ys" "fst ` set xs \<subseteq> U"
    "\<forall>k v. view k = Some v \<longrightarrow> known loader (lru_iter ops c) xs k v" by (rule servesE)
  show ?thesis by (rule servesI [OF e(1-6)]) (use assms(2) e(7) in \<open>auto simp: map_le_def dom_def\<close>)
qed

lemma serves_front:
  assumes s: "serves ops U loader c view" and k: "k \<in> U" and n: "card U \<le> n"
    and it: "lru_iter ops c' = take n ((k, v) # without k (lru_iter ops c))"
    and cap: "lru_cap ops c' = lru_cap ops c"
  shows "serves ops U loader c' (view(k \<mapsto> v))"
proof -
  from s obtain xs ys where e: "lru_ok ops" "finite U" "card U \<le> lru_cap ops c"
    "distinct (map fst (lru_iter ops c))" "lru_iter ops c = xs @ ys" "fst ` set xs \<subseteq> U"
    "\<forall>k v. view k = Some v \<longrightarrow> known loader (lru_iter ops c) xs k v" by (rule servesE)
  define xs' where "xs' = (k, v) # without k xs"
  obtain ys' where it': "lru_iter ops c' = xs' @ ys'"
    using front_prefix [OF e(4) [unfolded e(5)] e(6) k e(2) n, of v] unfolding it e(5) xs'_def by auto
  have xs': "fst ` set xs' = insert k (fst ` set xs)" by (auto simp: xs'_def)
  show ?thesis
  proof (rule servesI [OF e(1, 2) _ _ it'])
    show "card U \<le> lru_cap ops c'" using e(3) cap by simp
    show "distinct (map fst (lru_iter ops c'))"
      unfolding it take_map [symmetric] by (rule distinct_take) (use e(4) in auto)
    show "fst ` set xs' \<subseteq> U" using xs' e(6) k by simp
    have old: "map_of (lru_iter ops c') j = Some w \<Longrightarrow> j \<noteq> k \<Longrightarrow> map_of (lru_iter ops c) j = Some w" for j w
      unfolding it by (drule map_of_take_Some) simp
    have new: "map_of (lru_iter ops c') k = Some v" unfolding it' xs'_def by simp
    show "known loader (lru_iter ops c') xs' j w" if "(view(k \<mapsto> v)) j = Some w" for j w
      using that e(7) [rule_format, of j w] old [of j] new xs'
      by (cases "j = k"; cases "map_of (lru_iter ops c') j") (auto simp: known_def)
  qed
qed

lemma serves_put:
  assumes "serves ops U loader c view" "k \<in> U"
  shows "serves ops U loader (lru_put ops k v c) (view(k \<mapsto> v))"
  using serves_lru_ok [OF assms(1)]
  by (intro serves_front [OF assms serves_fits [OF assms(1)]]) (simp_all add: lru_ok_def)

lemma serves_lookup:
  assumes "serves ops U loader c view" "view k = Some v"
  shows "map_of (lru_iter ops c) k = Some v
    \<or> map_of (lru_iter ops c) k = None \<and> Option.bind loader (\<lambda>load. load k) = Some v"
proof -
  from assms(1) obtain xs ys where it: "lru_iter ops c = xs @ ys"
    and kn: "\<forall>k v. view k = Some v \<longrightarrow> known loader (lru_iter ops c) xs k v" by (rule servesE)
  have "k \<in> fst ` set xs \<Longrightarrow> map_of (lru_iter ops c) k \<noteq> None" unfolding it by (auto simp: map_of_eq_None_iff)
  with kn [rule_format, OF assms(2)] show ?thesis unfolding known_def by blast
qed

lemma serves_get:
  assumes s: "serves ops U loader c view" and k: "k \<in> U"
  shows "serves ops U loader (snd (lru_get ops k c)) view"
proof (cases "map_of (lru_iter ops c) k")
  case None
  then have "lru_iter ops (snd (lru_get ops k c)) = lru_iter ops c"
    "lru_cap ops (snd (lru_get ops k c)) = lru_cap ops c"
    using serves_lru_ok [OF s] by (simp_all add: lru_ok_def)
  with s show ?thesis by (simp add: serves_def)
next
  case (Some v)
  let ?xs = "(k, v) # without k (lru_iter ops c)"
  have "lru_iter ops (snd (lru_get ops k c)) = ?xs" "lru_cap ops (snd (lru_get ops k c)) = lru_cap ops c"
    using serves_lru_ok [OF s] Some by (simp_all add: lru_ok_def)
  then have "serves ops U loader (snd (lru_get ops k c)) (view(k \<mapsto> v))"
    by (intro serves_front [OF s k, where n = "max (card U) (length ?xs)"]) simp_all
  moreover have "w = v" if "view k = Some w" for w using serves_lookup [OF s that] Some by simp
  ultimately show ?thesis by (elim serves_mono) (auto simp: map_le_def)
qed

lemma serves_value:
  assumes s: "serves ops U loader c view" and v: "view k = Some v"
  shows "fst (read_through ops loader k c) = Some v"
proof -
  have get: "fst (lru_get ops k c) = map_of (lru_iter ops c) k"
    using serves_lru_ok [OF s] by (simp add: lru_ok_def)
  obtain r c' where rc: "lru_get ops k c = (r, c')" by fastforce
  with get have r: "map_of (lru_iter ops c) k = r" by simp
  show ?thesis using serves_lookup [OF s v] unfolding r by (cases loader) (auto simp: read_through_def rc)
qed

lemma serves_read:
  assumes s: "serves ops U loader c view" and k: "k \<in> U"
  shows "serves ops U loader (snd (read_through ops loader k c)) view"
proof -
  have get: "fst (lru_get ops k c) = map_of (lru_iter ops c) k"
    using serves_lru_ok [OF s] by (simp add: lru_ok_def)
  obtain r c' where rc: "lru_get ops k c = (r, c')" by fastforce
  have s': "serves ops U loader c' view" using serves_get [OF s k] rc by simp
  have r: "map_of (lru_iter ops c) k = r" using get rc by simp
  show "serves ops U loader (snd (read_through ops loader k c)) view"
  proof (cases "r = None \<and> (\<exists>v. Option.bind loader (\<lambda>load. load k) = Some v)")
    case True
    then obtain load v where l: "r = None" "loader = Some load" "load k = Some v" by (cases loader) auto
    have "serves ops U loader (lru_put ops k v c') (view(k \<mapsto> v))" by (rule serves_put [OF s' k])
    moreover have "w = v" if "view k = Some w" for w using serves_lookup [OF s that] r l by simp
    ultimately have "serves ops U loader (lru_put ops k v c') view"
      by (elim serves_mono) (auto simp: map_le_def)
    with l show ?thesis by (simp add: read_through_def rc)
  next
    case False
    with s' show ?thesis by (cases loader) (auto simp: read_through_def rc split: option.split)
  qed
qed

lemma serves_pop:
  assumes "serves ops U loader c view"
  shows "serves ops U loader (lru_pop ops k c) (view(k := None))"
proof -
  from assms obtain xs ys where e: "lru_ok ops" "finite U" "card U \<le> lru_cap ops c"
    "distinct (map fst (lru_iter ops c))" "lru_iter ops c = xs @ ys" "fst ` set xs \<subseteq> U"
    "\<forall>k v. view k = Some v \<longrightarrow> known loader (lru_iter ops c) xs k v" by (rule servesE)
  have it: "lru_iter ops (lru_pop ops k c) = without k (lru_iter ops c)"
    and cap: "lru_cap ops (lru_pop ops k c) = lru_cap ops c"
    using e(1) by (simp_all add: lru_ok_def)
  show ?thesis
  proof (rule servesI [OF e(1, 2)])
    show "lru_iter ops (lru_pop ops k c) = without k xs @ without k ys" unfolding it e(5) by simp
    show "known loader (lru_iter ops (lru_pop ops k c)) (without k xs) j w" if "(view(k := None)) j = Some w" for j w
      using that e(7) [rule_format, of j w] unfolding it by (auto simp: known_def split: if_splits)
  qed (use e(3, 4, 6) it cap in auto)
qed

lemma serves_fresh:
  "lru_ok ops \<Longrightarrow> finite U \<Longrightarrow> card U \<le> lru_cap ops c \<Longrightarrow> lru_iter ops c = [] \<Longrightarrow> serves ops U loader c Map.empty"
  by (simp add: serves_def)

text \<open>Once the loader knows the whole view, the window may be chosen anew.\<close>

lemma serves_persisted:
  assumes s: "serves ops U loader c view" and U': "finite U'" "card U' \<le> lru_cap ops c"
    and l: "\<And>k v. view k = Some v \<Longrightarrow> load k = Some v"
  shows "serves ops U' (Some load) c view"
proof (rule servesI [OF serves_lru_ok [OF s] U', where xs = "[]"])
  show "known (Some load) (lru_iter ops c) [] k v" if "view k = Some v" for k v
    using serves_lookup [OF s that] l [OF that] by (auto simp: known_def)
qed (use s in \<open>simp_all add: serves_def\<close>)

section \<open>The store\<close>

definition store_serves ::
  "('hc, 'sc, 'm) lru_lib_scheme \<Rightarrow> nat set \<Rightarrow> ('hc, 'sc) lazy_header_store \<Rightarrow> (nat \<Rightarrow> header option) \<Rightarrow> (nat \<Rightarrow> nat option) \<Rightarrow> bool" where
  "store_serves L U z hview sview \<longleftrightarrow>
     serves (header_lru L) U (header_loader z) (headers z) hview \<and>
     serves (score_lru L) U (score_loader z) (scores z) sview"

lemma store_get_header:
  assumes "store_serves L U z hview sview"
  shows "k \<in> U \<Longrightarrow> store_serves L U (snd (get_header L k z)) hview sview"
    and "hview k = Some h \<Longrightarrow> fst (get_header L k z) = Some h"
  using assms serves_read [of "header_lru L" U "header_loader z" "headers z" hview k]
    serves_value [of "header_lru L" U "header_loader z" "headers z" hview k]
  by (simp_all add: store_serves_def get_header_def split_beta)

lemma store_get_score:
  assumes "store_serves L U z hview sview"
  shows "k \<in> U \<Longrightarrow> store_serves L U (snd (get_score L k z)) hview sview"
    and "sview k = Some v \<Longrightarrow> fst (get_score L k z) = Some v"
  using assms serves_read [of "score_lru L" U "score_loader z" "scores z" sview k]
    serves_value [of "score_lru L" U "score_loader z" "scores z" sview k]
  by (simp_all add: store_serves_def get_score_def split_beta)

lemma store_serves_put:
  "store_serves L U z hview sview \<Longrightarrow> k \<in> U \<Longrightarrow>
     store_serves L U (store_put L k h v z) (hview(k \<mapsto> h)) (sview(k \<mapsto> v))"
  by (simp add: store_serves_def store_put_def serves_put)

lemma store_serves_evict:
  "store_serves L U z hview sview \<Longrightarrow>
     store_serves L U (store_evict L k z) (hview(k := None)) (sview(k := None))"
  by (simp add: store_serves_def store_evict_def serves_pop)

lemma store_serves_mono:
  "store_serves L U z hview sview \<Longrightarrow> hview' \<subseteq>\<^sub>m hview \<Longrightarrow> sview' \<subseteq>\<^sub>m sview \<Longrightarrow> store_serves L U z hview' sview'"
  by (auto simp: store_serves_def intro: serves_mono)

definition lru_lib_ok :: "('hc, 'sc, 'm) lru_lib_scheme \<Rightarrow> bool" where
  "lru_lib_ok L \<longleftrightarrow> lru_ok (header_lru L) \<and> lru_ok (score_lru L)"

definition fits :: "('hc, 'sc, 'm) lru_lib_scheme \<Rightarrow> nat set \<Rightarrow> ('hc, 'sc) lazy_header_store \<Rightarrow> bool" where
  "fits L U z \<longleftrightarrow> finite U \<and> card U \<le> lru_cap (header_lru L) (headers z) \<and> card U \<le> lru_cap (score_lru L) (scores z)"

lemma store_serves_clear:
  "store_serves L U z hview sview \<Longrightarrow> store_serves L U (store_clear L z) Map.empty Map.empty"
  unfolding store_serves_def store_clear_def
  by (auto intro!: serves_fresh simp: serves_def lru_ok_def)

lemma store_serves_new:
  "lru_lib_ok L \<Longrightarrow> finite U \<Longrightarrow> card U \<le> n \<Longrightarrow> store_serves L U (with_capacity L n) Map.empty Map.empty"
  unfolding store_serves_def with_capacity_def
  by (auto intro!: serves_fresh simp: lru_lib_ok_def lru_ok_def)

lemma store_serves_persisted:
  assumes "store_serves L U z hview sview" "fits L U' z"
    and "\<And>k h. hview k = Some h \<Longrightarrow> hl k = Some h" "\<And>k v. sview k = Some v \<Longrightarrow> sl k = Some v"
  shows "store_serves L U' (z\<lparr>header_loader := Some hl, score_loader := Some sl\<rparr>) hview sview"
  using assms by (auto simp: store_serves_def fits_def intro!: serves_persisted)

lemma serves_resize:
  assumes s: "serves ops {} loader c view"
  shows "serves ops {} loader (lru_resize ops n c) view"
proof -
  note ok = serves_lru_ok [OF s]
  obtain ys where ys: "lru_iter ops c = ys" "distinct (map fst ys)"
    "\<forall>k v. view k = Some v \<longrightarrow> known loader ys [] k v" using s by (auto simp: serves_def)
  have it: "lru_iter ops (lru_resize ops n c) = take n ys" using ok ys(1) by (simp add: lru_ok_def)
  have "known loader (take n ys) [] k v" if "view k = Some v" for k v
    using ys(3) [rule_format, OF that] map_of_take_Some [of n ys k] by (cases "map_of (take n ys) k") (auto simp: known_def)
  with ok it ys(2) show ?thesis by (auto intro!: servesI [where xs = "[]" and ys = "take n ys"] simp: take_map [symmetric])
qed

lemma store_serves_resize: "store_serves L {} z hview sview \<Longrightarrow> store_serves L {} (store_resize L n z) hview sview"
  by (simp add: store_serves_def store_resize_def serves_resize)

lemma serves_widen: "serves ops {} loader c view \<Longrightarrow> finite U \<Longrightarrow> card U \<le> lru_cap ops c \<Longrightarrow> serves ops U loader c view"
  by (rule servesI [where xs = "[]" and ys = "lru_iter ops c"]) (auto simp: serves_def)

lemma store_serves_widen: "store_serves L {} z hview sview \<Longrightarrow> fits L U z \<Longrightarrow> store_serves L U z hview sview"
  by (auto simp: store_serves_def fits_def intro: serves_widen)

end
