(* ===== verification/Voting.thy ===== *)
theory Voting
  imports Chain_Header Vlq "HOL-Library.Signed_Division"
begin

text \<open>
  Soft-fork voting (\<open>chain/src/voting.rs\<close>): the vote tally of an epoch, the parameter table the block at an
  epoch boundary must carry, the gate on fork votes, the checks on a header's votes, and the extension
  and settings-update codecs. The external pieces (the VLQ integers of \<open>sigma_ser\<close>, the rule
  status codec and the table constructor of \<open>ergo_lib\<close>) are fields of a record of parameters. The table
  holds \<open>i32\<close> values as integers, with the wrapping of casts and \<open>wrapping_add\<close> written out.
\<close>

section \<open>Parameters\<close>

datatype parameter =
    StorageFeeFactor | MinValuePerByte | MaxBlockSize | MaxBlockCost | TokenAccessCost | InputCost
  | DataInputCost | OutputCost | SubblocksPerBlock | SoftForkVotesCollected | SoftForkStartingHeight
  | BlockVersion

type_synonym param_table = "(parameter, int) hmap"

record 'st sigma_lib =
  parameters_new :: "int \<Rightarrow> int \<Rightarrow> int \<Rightarrow> int \<Rightarrow> int \<Rightarrow> int \<Rightarrow> int \<Rightarrow> int \<Rightarrow> int \<Rightarrow> param_table"
  get_u32 :: "bytes \<Rightarrow> (u32 \<times> bytes) option"
  get_u16 :: "bytes \<Rightarrow> (u16 \<times> bytes) option"
  put_u32 :: "u32 \<Rightarrow> bytes"
  put_u16 :: "u16 \<Rightarrow> bytes"
  rule_status_parse :: "bytes \<Rightarrow> ('st \<times> bytes) option"
  rule_status_serialize :: "'st \<Rightarrow> bytes option"
  FIRST_RULE_ID :: u16

definition SOFT_FORK_VOTE :: int where
  "SOFT_FORK_VOTE = 120"

definition PARAM_VOTES_COUNT :: nat where
  "PARAM_VOTES_COUNT = 2"

definition ID_SUBBLOCKS_PER_BLOCK :: int where
  "ID_SUBBLOCKS_PER_BLOCK = 9"

definition ID_SOFT_FORK_VOTES_COLLECTED :: int where
  "ID_SOFT_FORK_VOTES_COLLECTED = 121"

definition ID_SOFT_FORK_STARTING_HEIGHT :: int where
  "ID_SOFT_FORK_STARTING_HEIGHT = 122"

definition ID_BLOCK_VERSION :: int where
  "ID_BLOCK_VERSION = 123"

definition ID_SOFT_FORK_DISABLING_RULES :: int where
  "ID_SOFT_FORK_DISABLING_RULES = 124"

definition SUBBLOCKS_PER_BLOCK_DEFAULT :: int where
  "SUBBLOCKS_PER_BLOCK_DEFAULT = 30"

definition soft_fork_approved :: "voting_config \<Rightarrow> int \<Rightarrow> bool" where
  "soft_fork_approved v votes \<longleftrightarrow> votes > int (voting_length v * soft_fork_epochs v * 9 div 10)"

definition change_approved :: "voting_config \<Rightarrow> nat \<Rightarrow> bool" where
  "change_approved v votes \<longleftrightarrow> votes > voting_length v div 2"

definition parameter_step :: "int \<Rightarrow> int option" where
  "parameter_step i = (let a = \<bar>i\<bar> in
     if a = 1 then Some 25000 else if a = 2 then Some 10 else if a = 9 then Some 1 else None)"

definition parameter_min :: "int \<Rightarrow> int option" where
  "parameter_min i = (let a = \<bar>i\<bar> in
     if a = 3 \<or> a = 4 then Some (16 * 1024)
     else if a \<in> {1, 2, 5, 6, 7, 8} then Some 0
     else if a = 9 then Some 2 else None)"

definition parameter_max :: "int \<Rightarrow> int option" where
  "parameter_max i = (let a = \<bar>i\<bar> in
     if a = 1 then Some 2500000 else if a = 2 then Some 10000 else if a = 9 then Some 2048
     else if 3 \<le> a \<and> a \<le> 8 then Some ((2 ^ 31 - 1) div 2) else None)"

definition ordinary_param :: "int \<Rightarrow> parameter option" where
  "ordinary_param i = (let a = \<bar>i\<bar> in
     if a = 1 then Some StorageFeeFactor else if a = 2 then Some MinValuePerByte
     else if a = 3 then Some MaxBlockSize else if a = 4 then Some MaxBlockCost
     else if a = 5 then Some TokenAccessCost else if a = 6 then Some InputCost
     else if a = 7 then Some DataInputCost else if a = 8 then Some OutputCost
     else if a = 9 then Some SubblocksPerBlock else None)"

definition default_parameters :: "'st sigma_lib \<Rightarrow> network \<Rightarrow> param_table" where
  "default_parameters lib net =
     (let block_version = (case net of Mainnet \<Rightarrow> 1 | Testnet \<Rightarrow> 4);
          params = parameters_new lib block_version 1250000 360 524288 1000000 100 2000 100 100 in
      case net of
        Testnet \<Rightarrow> hm_insert SubblocksPerBlock SUBBLOCKS_PER_BLOCK_DEFAULT params
      | Mainnet \<Rightarrow> params)"

section \<open>Extension fields\<close>

type_synonym extension_field = "(u8 \<times> u8) \<times> bytes"

definition i32_from_be_bytes :: "bytes \<Rightarrow> int" where
  "i32_from_be_bytes bs = (case bs of
     [a, b, c, d] \<Rightarrow> sint (u32_from_be_bytes a b c d) | _ \<Rightarrow> 0)"

definition i32_to_be_bytes :: "int \<Rightarrow> bytes" where
  "i32_to_be_bytes v = u32_to_be_bytes (word_of_int v)"

fun parse_parameters_loop ::
  "extension_field list \<Rightarrow> (int, int) hmap \<Rightarrow> chain_error + (int, int) hmap" where
  "parse_parameters_loop [] out = Inr out"
| "parse_parameters_loop (((k0, k1), v) # kv) out =
     (if k0 \<noteq> 0 then parse_parameters_loop kv out
      else let i = sint k1 in
        if i = ID_SOFT_FORK_DISABLING_RULES then parse_parameters_loop kv out
        else if length v \<noteq> 4 then Inl ExtensionParse
        else parse_parameters_loop kv (hm_insert i (i32_from_be_bytes v) out))"

definition parse_parameters_from_kv :: "extension_field list \<Rightarrow> chain_error + (int, int) hmap" where
  "parse_parameters_from_kv kv = parse_parameters_loop kv []"

fun extract_disabling_rules_from_kv :: "extension_field list \<Rightarrow> bytes" where
  "extract_disabling_rules_from_kv [] = []"
| "extract_disabling_rules_from_kv (((k0, k1), v) # kv) =
     (if k0 = 0 \<and> sint k1 = ID_SOFT_FORK_DISABLING_RULES then v else extract_disabling_rules_from_kv kv)"

definition pack_parameters_to_kv :: "(int, int) hmap \<Rightarrow> extension_field list" where
  "pack_parameters_to_kv params =
     map (\<lambda>(i, v). ((0, word_of_int i), i32_to_be_bytes v))
       (sort_key fst (filter (\<lambda>(i, _). i \<noteq> ID_SOFT_FORK_DISABLING_RULES) params))"

text \<open>The fields of an extension body from position \<open>pos\<close> on.\<close>

fun parse_fields :: "bytes \<Rightarrow> nat \<Rightarrow> nat \<Rightarrow> chain_error + extension_field list" where
  "parse_fields bs pos 0 = Inr []"
| "parse_fields bs pos (Suc n) =
     (if pos + 3 > length bs then Inl ExtensionParse
      else let key = (bs ! pos, bs ! (pos + 1)); value_len = unat (bs ! (pos + 2)) in
        if value_len > 64 then Inl ExtensionParse
        else if pos + 3 + value_len > length bs then Inl ExtensionParse
        else and_then (parse_fields bs (pos + 3 + value_len) n)
          (\<lambda>fields. Inr ((key, take value_len (drop (pos + 3) bs)) # fields)))"

definition parse_extension_bytes ::
  "'st sigma_lib \<Rightarrow> bytes \<Rightarrow> chain_error + (bytes \<times> extension_field list)" where
  "parse_extension_bytes lib bs =
     (if length bs < 32 then Inl ExtensionParse
      else case get_u32 lib (drop 32 bs) of
        None \<Rightarrow> Inl ExtensionParse
      | Some (field_count, rest) \<Rightarrow>
          and_then (parse_fields bs (length bs - length rest) (unat field_count))
            (\<lambda>fields. Inr (take 32 bs, fields)))"

definition pack_field :: "extension_field \<Rightarrow> bytes" where
  "pack_field f = (case f of ((k0, k1), v) \<Rightarrow> [k0, k1, of_nat (length v)] @ v)"

definition pack_extension_bytes :: "'st sigma_lib \<Rightarrow> bytes \<Rightarrow> extension_field list \<Rightarrow> bytes" where
  "pack_extension_bytes lib header_id fs =
     header_id @ put_u32 lib (of_nat (length fs)) @ concat (map pack_field fs)"

section \<open>Validation settings updates\<close>

definition rule_may_not_be_disabled :: "u16 \<Rightarrow> bool" where
  "rule_may_not_be_disabled r \<longleftrightarrow> (let i = unat r in
     100 \<le> i \<and> i \<le> 109 \<or> 112 \<le> i \<and> i \<le> 117 \<or> i = 119 \<or> i = 122
     \<or> i = 200 \<or> i = 201 \<or> 203 \<le> i \<and> i \<le> 211 \<or> i = 213 \<or> i = 214 \<or> i = 216
     \<or> 300 \<le> i \<and> i \<le> 305 \<or> i = 307 \<or> i = 403 \<or> i = 500 \<or> i = 501)"

record 'st validation_settings_update =
  vsu_rules :: "u16 list"
  vsu_statuses :: "(int \<times> 'st) list"

definition vsu_default :: "'st validation_settings_update" where
  "vsu_default = \<lparr>vsu_rules = [], vsu_statuses = []\<rparr>"

text \<open>\<open>n\<close> items in a row.\<close>

fun read_seq :: "(bytes \<Rightarrow> ('a \<times> bytes) option) \<Rightarrow> nat \<Rightarrow> bytes \<Rightarrow> ('a list \<times> bytes) option" where
  "read_seq get 0 r = Some ([], r)"
| "read_seq get (Suc n) r =
     (case get r of
        None \<Rightarrow> None
      | Some (x, r1) \<Rightarrow> (case read_seq get n r1 of None \<Rightarrow> None | Some (xs, r2) \<Rightarrow> Some (x # xs, r2)))"

definition status_entry :: "'st sigma_lib \<Rightarrow> bytes \<Rightarrow> ((int \<times> 'st) \<times> bytes) option" where
  "status_entry lib r =
     (case get_u16 lib r of
        None \<Rightarrow> None
      | Some (offset, r1) \<Rightarrow>
          (case rule_status_parse lib r1 of
             None \<Rightarrow> None
           | Some (st, r2) \<Rightarrow> Some ((sint (offset + FIRST_RULE_ID lib), st), r2)))"

text \<open>A count of \<open>2 ^ 31\<close> or more reads as zero entries.\<close>

definition jvm_count :: "u32 \<Rightarrow> nat" where
  "jvm_count c = (if unat c > 2 ^ 31 - 1 then 0 else unat c)"

definition parse_validation_settings_update ::
  "'st sigma_lib \<Rightarrow> bytes \<Rightarrow> chain_error + 'st validation_settings_update" where
  "parse_validation_settings_update lib bs =
     (if bs = [] then Inr vsu_default
      else case get_u32 lib bs of
        None \<Rightarrow> Inl ExtensionParse
      | Some (raw_count, r1) \<Rightarrow>
          (case read_seq (get_u16 lib) (jvm_count raw_count) r1 of
             None \<Rightarrow> Inl ExtensionParse
           | Some (rules, r2) \<Rightarrow>
               if list_ex rule_may_not_be_disabled rules then Inl ExtensionParse
               else case get_u32 lib r2 of
                 None \<Rightarrow> Inl ExtensionParse
               | Some (raw_status_count, r3) \<Rightarrow>
                   (case read_seq (status_entry lib) (jvm_count raw_status_count) r3 of
                      None \<Rightarrow> Inl ExtensionParse
                    | Some (statuses, _) \<Rightarrow> Inr \<lparr>vsu_rules = rules, vsu_statuses = statuses\<rparr>)))"

text \<open>One status on the wire; a rule id below the first one has no offset.\<close>

definition encode_status :: "'st sigma_lib \<Rightarrow> int \<times> 'st \<Rightarrow> chain_error + bytes" where
  "encode_status lib e = (case e of (rule_id, st) \<Rightarrow>
     let offset = rule_id - sint (FIRST_RULE_ID lib) in
     if offset < 0 \<or> offset \<ge> 2 ^ 16 then Inl VotingError
     else case rule_status_serialize lib st of
       None \<Rightarrow> Inl VotingError
     | Some bs \<Rightarrow> Inr (put_u16 lib (word_of_int offset) @ bs))"

fun encode_statuses :: "'st sigma_lib \<Rightarrow> (int \<times> 'st) list \<Rightarrow> chain_error + bytes" where
  "encode_statuses lib [] = Inr []"
| "encode_statuses lib (e # es) =
     and_then (encode_status lib e) (\<lambda>bs. and_then (encode_statuses lib es) (\<lambda>bs'. Inr (bs @ bs')))"

definition encode_validation_settings_update ::
  "'st sigma_lib \<Rightarrow> 'st validation_settings_update \<Rightarrow> chain_error + bytes" where
  "encode_validation_settings_update lib update =
     and_then (encode_statuses lib (vsu_statuses update))
       (\<lambda>bs. Inr (put_u32 lib (of_nat (length (vsu_rules update))) @ concat (map (put_u16 lib) (vsu_rules update))
               @ put_u32 lib (of_nat (length (vsu_statuses update))) @ bs))"

definition encode_disabled_rules :: "'st sigma_lib \<Rightarrow> u16 list \<Rightarrow> bytes" where
  "encode_disabled_rules lib rules =
     put_u32 lib (of_nat (length rules)) @ concat (map (put_u16 lib) rules) @ put_u32 lib 0"

definition default_proposed_update_bytes :: "'st sigma_lib \<Rightarrow> network \<Rightarrow> bytes" where
  "default_proposed_update_bytes lib net = encode_disabled_rules lib [215, 409]"

section \<open>Tally\<close>

fun count_slot :: "u8 \<Rightarrow> (int \<times> nat) list \<Rightarrow> (int \<times> nat) list" where
  "count_slot slot tally = (if slot \<noteq> 0
     then map (\<lambda>(i, c). if i = sint slot then (i, c + 1) else (i, c)) tally else tally)"

definition tally_votes_seeded :: "(nat \<times> u8 list) list \<Rightarrow> nat \<Rightarrow> nat \<Rightarrow> (int \<times> nat) list" where
  "tally_votes_seeded window boundary_height len =
     (case window of
        [] \<Rightarrow> []
      | (seed_height, seed_votes) # rest \<Rightarrow>
          if \<not> (len \<le> boundary_height \<and> boundary_height - len = seed_height) then []
          else fold (\<lambda>(_, votes) tally. fold count_slot votes tally) rest
            (map (\<lambda>slot. (sint slot, 1)) (filter (\<lambda>slot. slot \<noteq> 0) seed_votes)))"

section \<open>The boundary table\<close>

definition votes_in_prev_epoch :: "(int \<times> nat) list \<Rightarrow> nat" where
  "votes_in_prev_epoch tally =
     (case find (\<lambda>(i, _). i = SOFT_FORK_VOTE) tally of None \<Rightarrow> 0 | Some (_, c) \<Rightarrow> c)"

text \<open>The running total of fork votes: an error when it is needed and the table has none.\<close>

definition force_votes :: "param_table \<Rightarrow> (int \<times> nat) list \<Rightarrow> chain_error + int" where
  "force_votes current tally =
     (case map_of current SoftForkVotesCollected of
        None \<Rightarrow> Inl VotingError
      | Some c \<Rightarrow> Inr (wrap_i32 (wrap_i32 (int (votes_in_prev_epoch tally)) + c)))"

text \<open>\<open>cond && P(force_votes()?)\<close>: the total is forced only when the first conjunct holds.\<close>

definition and_forced :: "bool \<Rightarrow> chain_error + int \<Rightarrow> (int \<Rightarrow> bool) \<Rightarrow> chain_error + bool" where
  "and_forced cond votes P = (if cond then and_then votes (\<lambda>v. Inr (P v)) else Inr False)"

definition drop_round :: "param_table \<Rightarrow> param_table" where
  "drop_round t = hm_remove SoftForkVotesCollected (hm_remove SoftForkStartingHeight t)"

definition start_round :: "nat \<Rightarrow> param_table \<Rightarrow> param_table" where
  "start_round h t = hm_insert SoftForkVotesCollected 0 (hm_insert SoftForkStartingHeight (wrap_i32 (int h)) t)"

definition update_fork ::
  "voting_config \<Rightarrow> nat \<Rightarrow> param_table \<Rightarrow> (int \<times> nat) list \<Rightarrow> bool \<Rightarrow> chain_error + (param_table \<times> bool)" where
  "update_fork voting boundary_height current tally boundary_fork_vote =
     (let h = int boundary_height; l = int (voting_length voting);
          ve = int (soft_fork_epochs voting); ae = int (activation_epochs voting);
          votes = force_votes current tally; approved = soft_fork_approved voting in
      case map_of current SoftForkStartingHeight of
        Some start \<Rightarrow>
          let mid_end = start + l * ve; activation = start + l * (ve + ae);
              cleanup_fail = start + l * (ve + 1); cleanup_success = start + l * (ve + ae + 1) in
          and_then (and_forced (h = cleanup_success) votes approved) (\<lambda>succeeded.
          let t1 = (if succeeded then drop_round current else current) in
          and_then (and_forced (h = cleanup_fail) votes (\<lambda>v. \<not> approved v)) (\<lambda>failed.
          let t2 = (if failed then drop_round t1 else t1) in
          and_then (if boundary_fork_vote
                    then if h = cleanup_success then Inr True
                         else and_forced (h = cleanup_fail) votes (\<lambda>v. \<not> approved v)
                    else Inr False) (\<lambda>restart.
          let t3 = (if restart then start_round boundary_height t2 else t2) in
          and_then (if h \<le> mid_end then and_then votes (\<lambda>v. Inr (hm_insert SoftForkVotesCollected v t3))
                    else Inr t3) (\<lambda>t4.
          and_then (and_forced (h = activation) votes approved) (\<lambda>activate.
          if activate
          then case map_of t4 BlockVersion of
                 None \<Rightarrow> Inl VotingError
               | Some bv \<Rightarrow> Inr (hm_insert BlockVersion (wrap_i32 (bv + 1)) t4, True)
          else Inr (t4, False))))))
      | None \<Rightarrow>
          Inr (if boundary_fork_vote \<and> voting_length voting dvd boundary_height
               then start_round boundary_height current else current, False))"

definition force_v2 :: "voting_config \<Rightarrow> nat \<Rightarrow> param_table \<Rightarrow> chain_error + param_table" where
  "force_v2 voting boundary_height t =
     (if boundary_height = version2_activation_height voting then
        (case map_of t BlockVersion of
           None \<Rightarrow> Inl VotingError
         | Some bv \<Rightarrow> Inr (if bv = 1 then hm_insert BlockVersion 2 t else t))
      else Inr t)"

text \<open>The new value of a parameter after an approved vote. Release arithmetic wraps.\<close>

definition stepped :: "int \<Rightarrow> int \<Rightarrow> int" where
  "stepped signed_id current_value =
     (let lo = (case parameter_min signed_id of None \<Rightarrow> 0 | Some m \<Rightarrow> m);
          hi = (case parameter_max signed_id of None \<Rightarrow> (2 ^ 31 - 1) div 2 | Some m \<Rightarrow> m);
          step = (case parameter_step signed_id of None \<Rightarrow> max 1 (current_value sdiv 100) | Some s \<Rightarrow> s) in
      if signed_id > 0 then (if current_value < hi then wrap_i32 (current_value + step) else current_value)
      else if current_value > lo then wrap_i32 (current_value - step) else current_value)"

fun update_params ::
  "voting_config \<Rightarrow> param_table \<Rightarrow> (int \<times> nat) list \<Rightarrow> param_table \<Rightarrow> chain_error + param_table" where
  "update_params voting base [] t = Inr t"
| "update_params voting base ((signed_id, count) # tally) t =
     (if signed_id \<ge> SOFT_FORK_VOTE then update_params voting base tally t
      else if \<not> change_approved voting count then update_params voting base tally t
      else case ordinary_param signed_id of
        None \<Rightarrow> Inl VotingError
      | Some p \<Rightarrow>
          (case map_of base p of
             None \<Rightarrow> Inl VotingError
           | Some current_value \<Rightarrow>
               update_params voting base tally (hm_insert p (stepped signed_id current_value) t)))"

definition insert_subblocks :: "u16 list \<Rightarrow> param_table \<Rightarrow> param_table" where
  "insert_subblocks activated_rules t =
     (if (case map_of t BlockVersion of None \<Rightarrow> - 1 | Some bv \<Rightarrow> bv) = 4
         \<and> map_of t SubblocksPerBlock = None \<and> 409 \<notin> set activated_rules
      then hm_insert SubblocksPerBlock SUBBLOCKS_PER_BLOCK_DEFAULT t else t)"

definition compute_boundary_parameters ::
  "'st sigma_lib \<Rightarrow> voting_config \<Rightarrow> nat \<Rightarrow> param_table \<Rightarrow> (int \<times> nat) list \<Rightarrow> bool \<Rightarrow> bytes
    \<Rightarrow> chain_error + (param_table \<times> 'st validation_settings_update)" where
  "compute_boundary_parameters lib voting boundary_height current tally boundary_fork_vote proposed_update =
     and_then (parse_validation_settings_update lib proposed_update) (\<lambda>parsed_update.
     if voting_length voting = 0 then Inl VotingError
     else
       and_then (update_fork voting boundary_height current tally boundary_fork_vote) (\<lambda>(t1, activated).
       and_then (force_v2 voting boundary_height t1) (\<lambda>t2.
       and_then (update_params voting t2 tally t2) (\<lambda>t3.
       let activated_update = (if activated then parsed_update else vsu_default) in
       Inr (insert_subblocks (vsu_rules activated_update) t3, activated_update)))))"

section \<open>Gates on header votes\<close>

definition check_fork_vote ::
  "voting_config \<Rightarrow> nat \<Rightarrow> u8 list \<Rightarrow> param_table \<Rightarrow> chain_error + bool" where
  "check_fork_vote voting header_height header_votes current =
     (if word_of_int SOFT_FORK_VOTE \<notin> set header_votes then Inr True
      else case map_of current SoftForkStartingHeight of
        None \<Rightarrow> Inr True
      | Some start \<Rightarrow>
          (case map_of current SoftForkVotesCollected of
             None \<Rightarrow> Inl VotingError
           | Some collected \<Rightarrow>
               let approved = soft_fork_approved voting collected;
                   h = int header_height; l = int (voting_length voting);
                   finishing = start + l * int (soft_fork_epochs voting);
                   after_activation = finishing + l * (int (activation_epochs voting) + 1) in
               Inr (\<not> (h \<ge> finishing \<and> h < finishing + l \<and> \<not> approved
                     \<or> h \<ge> finishing \<and> h < after_activation \<and> approved))))"

fun check_votes_each :: "int list \<Rightarrow> int list \<Rightarrow> chain_error + unit" where
  "check_votes_each all [] = Inr ()"
| "check_votes_each all (v # vs) =
     (if length (filter (\<lambda>x. x = v) all) \<noteq> 1 then Inl VotingError
      else if wrap_i8 (- v) \<in> set all then Inl VotingError
      else check_votes_each all vs)"

definition check_header_votes :: "u8 list \<Rightarrow> chain_error + unit" where
  "check_header_votes votes =
     (let vs = map sint (filter (\<lambda>b. b \<noteq> 0) votes) in
      if length (filter (\<lambda>v. v \<noteq> SOFT_FORK_VOTE) vs) > PARAM_VOTES_COUNT then Inl VotingError
      else check_votes_each vs vs)"

end
