(* ===== verification/Difficulty.thy ===== *)
theory Difficulty
  imports Chain_Header "HOL-Library.Signed_Division"
begin

text \<open>
  Difficulty adjustment and proof of work (\<open>chain/src/difficulty.rs\<close>, \<open>chain/src/pow.rs\<close>). \<open>BigInt\<close> is
  \<open>int\<close>; its division truncates and panics on zero, so every division goes through \<open>big_div\<close>, and a
  function that may divide returns \<open>None\<close> where the source would panic. The compact encoding, the group order and
  the Autolykos hit come from outside and are fields of a record of parameters.
\<close>

section \<open>Definitions\<close>

record pow_lib =
  decode_compact_bits :: "u32 \<Rightarrow> int"
  encode_compact_bits :: "int \<Rightarrow> u64"
  order_bigint :: int
  pow_hit :: "header \<Rightarrow> chain_error + nat"

definition big_div :: "int \<Rightarrow> int \<Rightarrow> int option" where
  "big_div a b = (if b = 0 then None else Some (a sdiv b))"

definition PRECISION :: int where
  "PRECISION = 1000000000"

definition pow_target :: "pow_lib \<Rightarrow> u32 \<Rightarrow> int option" where
  "pow_target lib n_bits = big_div (order_bigint lib) (decode_compact_bits lib n_bits)"

definition verify_pow :: "pow_lib \<Rightarrow> header \<Rightarrow> (chain_error + unit) option" where
  "verify_pow lib h =
     (case pow_hit lib h of
        Inl e \<Rightarrow> Some (Inl e)
      | Inr hit \<Rightarrow>
          map_option (\<lambda>target. if int hit < target then Inr () else Inl PowInvalid)
            (pow_target lib (h_n_bits h)))"

definition previous_heights_for_recalculation :: "nat \<Rightarrow> nat \<Rightarrow> nat \<Rightarrow> nat list" where
  "previous_heights_for_recalculation height len epochs =
     (if len dvd height - 1 \<and> len > 1 then
        rev (List.map_filter (\<lambda>i. if i * len \<le> height - 1 then Some (height - 1 - i * len) else None) [0..<Suc epochs])
      else if len dvd height - 1 \<and> height > len * epochs then
        rev (map (\<lambda>i. height - 1 - i * len) [0..<Suc epochs])
      else [height - 1])"

definition required_difficulty :: "pow_lib \<Rightarrow> header \<Rightarrow> int" where
  "required_difficulty lib h = decode_compact_bits lib (h_n_bits h)"

definition normalize_to_n_bits :: "pow_lib \<Rightarrow> int \<Rightarrow> u32 \<Rightarrow> u32" where
  "normalize_to_n_bits lib difficulty initial =
     (let n_bits = ucast (encode_compact_bits lib difficulty) :: u32 in if n_bits = 0 then initial else n_bits)"

text \<open>\<open>end.timestamp as i64 - start.timestamp as i64\<close>\<close>

definition time_delta :: "header \<Rightarrow> header \<Rightarrow> int" where
  "time_delta s e = sint (h_timestamp e - h_timestamp s)"

definition cap_difficulty :: "int \<Rightarrow> int \<Rightarrow> int" where
  "cap_difficulty diff reference =
     (let upper = reference * 3 sdiv 2; lower = reference sdiv 2 in
      if diff > upper then upper else if diff < lower then lower else diff)"

definition interpolate :: "(int \<times> int) list \<Rightarrow> int \<Rightarrow> int option" where
  "interpolate data len =
     (case data of
        [] \<Rightarrow> None
      | [(_, y)] \<Rightarrow> Some y
      | _ \<Rightarrow>
          let n = int (length data);
              xy_sum = sum_list (map (\<lambda>(x, y). x * y) data);
              x_sum = sum_list (map fst data);
              x2_sum = sum_list (map (\<lambda>(x, _). x * x) data);
              y_sum = sum_list (map snd data) in
          Option.bind (big_div ((xy_sum * n - x_sum * y_sum) * PRECISION) (x2_sum * n - x_sum * x_sum)) (\<lambda>b.
          Option.bind (big_div (y_sum * PRECISION - b * x_sum) n) (\<lambda>a'.
          Option.bind (big_div a' PRECISION) (\<lambda>a.
          let max_height = Max (set (map fst data)) in
          map_option (\<lambda>s. a + s) (big_div (b * (max_height + len)) PRECISION)))))"

fun epoch_points :: "pow_lib \<Rightarrow> int \<Rightarrow> header list \<Rightarrow> (int \<times> int) list option" where
  "epoch_points lib desired_ms (s # e # hs) =
     Option.bind (big_div (required_difficulty lib e * desired_ms) (time_delta s e)) (\<lambda>diff.
     map_option (\<lambda>ps. (int (h_height e), diff) # ps) (epoch_points lib desired_ms (e # hs)))"
| "epoch_points lib desired_ms _ = Some []"

definition calculate :: "pow_lib \<Rightarrow> header list \<Rightarrow> nat \<Rightarrow> u64 \<Rightarrow> u32 \<Rightarrow> (chain_error + u32) option" where
  "calculate lib hs len interval_ms initial =
     (if hs = [] then Some (Inl DifficultyCalc)
      else
        let first_header = hd hs; last_header = last hs in
        map_option (\<lambda>uncompressed. Inr (normalize_to_n_bits lib uncompressed initial))
          (if length hs = 1 \<or> h_timestamp first_header \<ge> h_timestamp last_header
           then Some (required_difficulty lib first_header)
           else
             let desired_ms = int (unat interval_ms) * int len in
             Option.bind (epoch_points lib desired_ms hs) (\<lambda>data.
             map_option (\<lambda>diff. if diff \<ge> 1 then diff else decode_compact_bits lib initial)
               (interpolate data (int len)))))"

definition bitcoin_calculate :: "pow_lib \<Rightarrow> header list \<Rightarrow> nat \<Rightarrow> u64 \<Rightarrow> int option" where
  "bitcoin_calculate lib hs len interval_ms =
     (case rev (take 2 (rev hs)) of
        [s, e] \<Rightarrow> big_div (required_difficulty lib e * (int (unat interval_ms) * int len)) (time_delta s e)
      | _ \<Rightarrow> None)"

definition eip37_calculate :: "pow_lib \<Rightarrow> header list \<Rightarrow> nat \<Rightarrow> u64 \<Rightarrow> u32 \<Rightarrow> (chain_error + u32) option" where
  "eip37_calculate lib hs len interval_ms initial =
     (if length hs < 2 then Some (Inl DifficultyCalc)
      else
        let last_diff = required_difficulty lib (last hs) in
        Option.bind (calculate lib hs len interval_ms initial) (\<lambda>r.
        case r of
          Inl e \<Rightarrow> Some (Inl e)
        | Inr predictive_n_bits \<Rightarrow>
            let limited = cap_difficulty (decode_compact_bits lib predictive_n_bits) last_diff in
            map_option (\<lambda>classic.
                let capped = cap_difficulty ((classic + limited) sdiv 2) last_diff in
                Inr (normalize_to_n_bits lib capped initial))
              (bitcoin_calculate lib hs len interval_ms)))"

text \<open>The chain enters through its \<open>header_at\<close>.\<close>

definition expected_difficulty ::
  "pow_lib \<Rightarrow> chain_config \<Rightarrow> (nat \<Rightarrow> header option) \<Rightarrow> header \<Rightarrow> (chain_error + u32) option" where
  "expected_difficulty lib config header_at parent =
     (let v2_height = version2_activation_height (cc_voting config) in
      if version2_activation_n_bits config \<noteq> None \<and> v2_height > 0
         \<and> (h_height parent = v2_height \<or> h_height parent + 1 = v2_height)
      then Some (Inr (the (version2_activation_n_bits config)))
      else
        let len = epoch_length_at (h_height parent + 1) config in
        if len dvd h_height parent \<and> h_height parent > 0 then
          let heights = previous_heights_for_recalculation (h_height parent + 1) len (use_last_epochs config);
              hs = List.map_filter header_at heights in
          if hs = [] then Some (Inr (initial_n_bits config))
          else if eip37_active (h_height parent + 1) config
          then eip37_calculate lib hs len (block_interval_ms config) (initial_n_bits config)
          else calculate lib hs len (block_interval_ms config) (initial_n_bits config)
        else Some (Inr (h_n_bits parent)))"

section \<open>The heights of a recalculation\<close>

lemma map_filter_heights:
  "List.map_filter (\<lambda>i. if i * len \<le> h then Some (h - i * len) else None) xs
     = map (\<lambda>i. h - i * len) (filter (\<lambda>i. i * len \<le> h) xs)"
  by (induction xs) (auto simp: List.map_filter_def)

lemma heights_descend:
  "0 < len \<Longrightarrow> sorted_wrt (<) xs \<Longrightarrow> (\<And>i. i \<in> set xs \<Longrightarrow> i * len \<le> (h :: nat)) \<Longrightarrow>
     sorted_wrt (>) (map (\<lambda>i. h - i * len) xs)"
proof (induction xs)
  case (Cons i xs)
  have "h - j * len < h - i * len" if "j \<in> set xs" for j
  proof -
    have "i < j" "j * len \<le> h" using Cons.prems that by auto
    moreover have "i * len < j * len" using \<open>i < j\<close> \<open>0 < len\<close> by simp
    ultimately show ?thesis by linarith
  qed
  with Cons show ?case by simp
qed simp

lemma previous_heights_eq:
  "previous_heights_for_recalculation (Suc h) len epochs =
     (if len dvd h \<and> len > 1 then rev (map (\<lambda>i. h - i * len) (filter (\<lambda>i. i * len \<le> h) [0..<Suc epochs]))
      else if len dvd h \<and> len * epochs \<le> h then rev (map (\<lambda>i. h - i * len) [0..<Suc epochs])
      else [h])"
  by (simp only: previous_heights_for_recalculation_def diff_Suc_1 map_filter_heights less_Suc_eq_le)

lemma previous_heights_sorted:
  assumes "0 < len"
  shows "sorted_wrt (<) (previous_heights_for_recalculation (Suc h) len epochs)"
proof -
  have up: "sorted_wrt (<) [0..<Suc epochs]" by (simp only: sorted_wrt_upt)
  have f: "sorted_wrt (>) (map (\<lambda>i. h - i * len) (filter (\<lambda>i. i * len \<le> h) [0..<Suc epochs]))"
    by (rule heights_descend [OF assms sorted_wrt_filter [OF up]]) (simp del: upt_Suc)
  have m: "sorted_wrt (>) (map (\<lambda>i. h - i * len) [0..<Suc epochs])" if le: "len * epochs \<le> h"
  proof (rule heights_descend [OF assms up])
    fix i
    assume "i \<in> set [0..<Suc epochs]"
    then have "i \<le> epochs" by auto
    then have "len * i \<le> len * epochs" by (rule mult_le_mono2)
    then show "i * len \<le> h" using le by (metis le_trans mult.commute)
  qed
  show ?thesis unfolding previous_heights_eq using f m by (simp only: sorted_wrt_rev split: if_split) simp
qed

lemma previous_heights_set:
  assumes "1 < len" and "len dvd h"
  shows "set (previous_heights_for_recalculation (Suc h) len epochs) = {h - i * len | i. i \<le> epochs \<and> i * len \<le> h}"
  unfolding previous_heights_eq using assms by (auto simp: image_iff less_Suc_eq_le simp del: upt_Suc)

section \<open>No division by zero\<close>

definition increasing :: "header list \<Rightarrow> bool" where
  "increasing hs \<longleftrightarrow> sorted_wrt (\<lambda>a b. h_height a < h_height b \<and> h_timestamp a < h_timestamp b) hs"

lemma increasing_simps [simp]: "increasing []" "increasing [h]"
  "increasing (a # b # hs) \<longleftrightarrow> h_height a < h_height b \<and> h_timestamp a < h_timestamp b \<and> increasing (b # hs)"
  by (auto simp: increasing_def)

lemma time_delta_nonzero: "h_timestamp a < h_timestamp b \<Longrightarrow> time_delta a b \<noteq> 0"
proof
  assume lt: "h_timestamp a < h_timestamp b" and "time_delta a b = 0"
  then have "sint (h_timestamp b - h_timestamp a) = sint (0 :: u64)" by (simp add: time_delta_def)
  then have "h_timestamp b - h_timestamp a = 0" by (rule signed_word_eqI)
  with lt show False by simp
qed

lemma epoch_points_defined:
  "increasing hs \<Longrightarrow> \<exists>ps. epoch_points lib d hs = Some ps \<and> map fst ps = map (int \<circ> h_height) (tl hs)"
proof (induction lib d hs rule: epoch_points.induct)
  case (1 lib d s e hs)
  then have q: "big_div (required_difficulty lib e * d) (time_delta s e) =
      Some (required_difficulty lib e * d sdiv time_delta s e)"
    by (simp add: big_div_def time_delta_nonzero)
  with 1 obtain ps where "epoch_points lib d (e # hs) = Some ps" "map fst ps = map (int \<circ> h_height) hs" by auto
  then show ?case by (simp add: q)
qed simp_all

text \<open>The denominator of the regression: \<open>n\<close> times it is a sum of squares.\<close>

lemma sum_squares:
  fixes a b :: int
  shows "sum_list (map (\<lambda>x. (a * x - b) ^ 2) xs)
     = a ^ 2 * sum_list (map (\<lambda>x. x * x) xs) - 2 * a * b * sum_list xs + int (length xs) * b ^ 2"
  by (induction xs) (auto simp: algebra_simps power2_eq_square)

lemma regression_denominator:
  fixes xs :: "int list"
  assumes "distinct xs" and "2 \<le> length xs"
  shows "sum_list (map (\<lambda>x. x * x) xs) * int (length xs) - sum_list xs * sum_list xs \<noteq> 0"
proof
  let ?n = "int (length xs)" and ?s = "sum_list xs"
  assume 0: "sum_list (map (\<lambda>x. x * x) xs) * ?n - ?s * ?s = 0"
  have "sum_list (map (\<lambda>x. (?n * x - ?s) ^ 2) xs) = ?n * (sum_list (map (\<lambda>x. x * x) xs) * ?n - ?s * ?s)"
    unfolding sum_squares by (simp add: algebra_simps power2_eq_square)
  then have "sum_list (map (\<lambda>x. (?n * x - ?s) ^ 2) xs) = 0" using 0 by simp
  then have all: "\<forall>x \<in> set xs. (?n * x - ?s) ^ 2 = 0"
    by (subst (asm) sum_list_nonneg_eq_0_iff) auto
  obtain x y zs where "xs = x # y # zs" using assms(2) by (auto simp: numeral_2_eq_2 Suc_le_length_iff)
  with assms(1) have "x \<noteq> y" "?n * x = ?s" "?n * y = ?s" "?n \<noteq> 0" using all by auto
  then show False by (metis mult_cancel_left)
qed

lemma interpolate_defined:
  assumes "data \<noteq> []" and "distinct (map fst data)"
  shows "\<exists>y. interpolate data len = Some y"
proof (cases "length data = 1")
  case True
  then show ?thesis by (auto simp: interpolate_def length_Suc_conv)
next
  case False
  then have l: "2 \<le> length (map fst data)" using assms(1) by (cases data) (auto simp: Suc_le_eq)
  have x2: "map (\<lambda>(x, _). x * x) data = map (\<lambda>x. x * x) (map fst data)" by (simp add: split_beta)
  note d = regression_denominator [OF assms(2) l, folded x2, unfolded length_map]
  obtain e1 e2 es where data: "data = e1 # e2 # es"
    using l by (auto simp: numeral_2_eq_2 Suc_le_length_iff)
  have c: "(case data of [] \<Rightarrow> a | [(_, y)] \<Rightarrow> f y | _ \<Rightarrow> r) = r" for a :: "'z" and f r
    by (simp add: data split_beta)
  show ?thesis
    unfolding interpolate_def c Let_def using d assms(1) by (simp add: big_div_def PRECISION_def)
qed

lemma increasing_distinct: "increasing hs \<Longrightarrow> distinct (map (int \<circ> h_height) (tl hs))"
proof -
  assume "increasing hs"
  then have "sorted_wrt (\<lambda>a b. h_height a < h_height b) hs"
    unfolding increasing_def by (rule sorted_wrt_mono_rel [rotated]) simp
  then have "sorted_wrt (<) (map h_height hs)" by (simp add: sorted_wrt_map)
  then have "distinct (map h_height hs)" by (simp add: strict_sorted_iff)
  then have "distinct (map int (map h_height hs))" by (simp only: distinct_map) (simp add: inj_on_def)
  then show ?thesis by (cases hs) auto
qed

lemma calculate_defined:
  assumes "increasing hs" and "hs \<noteq> []"
  shows "\<exists>n. calculate lib hs len interval_ms initial = Some (Inr n)"
proof (cases "length hs = 1 \<or> h_timestamp (hd hs) \<ge> h_timestamp (last hs)")
  case True
  with assms(2) show ?thesis by (simp add: calculate_def Let_def)
next
  case False
  let ?d = "int (unat interval_ms) * int len"
  obtain ps where ps: "epoch_points lib ?d hs = Some ps" "map fst ps = map (int \<circ> h_height) (tl hs)"
    using epoch_points_defined [OF assms(1)] by blast
  have "tl hs \<noteq> []" using False assms(2) by (cases hs) auto
  then have "ps \<noteq> []" using ps(2) by auto
  then obtain y where "interpolate ps (int len) = Some y"
    using interpolate_defined [of ps "int len"] increasing_distinct [OF assms(1)] ps(2) by auto
  with False assms(2) ps(1) show ?thesis by (simp add: calculate_def Let_def)
qed

lemma bitcoin_defined:
  assumes "increasing hs" and "2 \<le> length hs"
  shows "\<exists>y. bitcoin_calculate lib hs len interval_ms = Some y"
proof -
  obtain zs s e where hs: "hs = zs @ [s, e]"
    using assms(2) by (cases hs rule: rev_cases; cases "butlast hs" rule: rev_cases) auto
  have "increasing (zs @ [s, e]) \<Longrightarrow> h_timestamp s < h_timestamp e" by (simp add: increasing_def sorted_wrt_append)
  then show ?thesis using assms(1) hs by (simp add: bitcoin_calculate_def big_div_def time_delta_nonzero)
qed

lemma eip37_defined:
  assumes "increasing hs"
  shows "if length hs < 2 then eip37_calculate lib hs len interval_ms initial = Some (Inl DifficultyCalc)
    else \<exists>n. eip37_calculate lib hs len interval_ms initial = Some (Inr n)"
proof (cases "length hs < 2")
  case False
  then have "hs \<noteq> []" "2 \<le> length hs" by auto
  then obtain n y where "calculate lib hs len interval_ms initial = Some (Inr n)"
    "bitcoin_calculate lib hs len interval_ms = Some y"
    using calculate_defined [OF assms] bitcoin_defined [OF assms] by metis
  then show ?thesis using False by (simp add: eip37_calculate_def Let_def)
qed (simp add: eip37_calculate_def)

text \<open>What the chain's \<open>header_at\<close> promises: headers filed under their heights, with rising timestamps.\<close>

definition view_ok :: "(nat \<Rightarrow> header option) \<Rightarrow> bool" where
  "view_ok header_at \<longleftrightarrow> (\<forall>h a. header_at h = Some a \<longrightarrow> h_height a = h)
     \<and> (\<forall>h h' a b. header_at h = Some a \<longrightarrow> header_at h' = Some b \<longrightarrow> h < h' \<longrightarrow> h_timestamp a < h_timestamp b)"

lemma view_increasing:
  assumes "view_ok header_at" and "sorted_wrt (<) heights"
  shows "increasing (List.map_filter header_at heights)"
  using assms(2)
proof (induction heights)
  case (Cons h heights)
  have "h_height a < h_height b \<and> h_timestamp a < h_timestamp b"
    if "header_at h = Some a" "b \<in> set (List.map_filter header_at heights)" for a b
  proof -
    from that(2) obtain h' where "h' \<in> set heights" "header_at h' = Some b"
      by (auto simp: List.map_filter_def)
    with that(1) assms(1) Cons.prems show ?thesis by (auto simp: view_ok_def)
  qed
  with Cons show ?case by (auto simp: List.map_filter_simps increasing_def split: option.split)
qed (simp add: List.map_filter_simps)

text \<open>(C29) On a chain whose headers have rising timestamps, the required difficulty of the next block is always
  computed: no timestamp difference, regression denominator or other divisor is ever zero, so the node
  cannot be made to panic here. The only error is the EIP-37 rule on a chain that knows fewer than two
  of the epoch headers.\<close>

theorem expected_difficulty_defined:
  assumes "view_ok header_at"
  shows "\<exists>r. expected_difficulty lib config header_at parent = Some r
    \<and> (\<forall>e. r = Inl e \<longrightarrow> e = DifficultyCalc \<and> eip37_active (h_height parent + 1) config
         \<and> length (List.map_filter header_at (previous_heights_for_recalculation (h_height parent + 1)
              (epoch_length_at (h_height parent + 1) config) (use_last_epochs config))) < 2)"
proof -
  let ?len = "epoch_length_at (h_height parent + 1) config"
  let ?hs = "List.map_filter header_at
    (previous_heights_for_recalculation (h_height parent + 1) ?len (use_last_epochs config))"
  show ?thesis
  proof (cases "?len dvd h_height parent \<and> h_height parent > 0")
    case True
    then have "0 < ?len" by (metis dvd_0_left_iff gr0I less_numeral_extra(3))
    then have inc: "increasing ?hs"
      using view_increasing [OF assms previous_heights_sorted] by (simp only: Suc_eq_plus1 [symmetric])
    define len where "len = ?len"
    define hs where "hs = List.map_filter header_at
      (previous_heights_for_recalculation (h_height parent + 1) len (use_last_epochs config))"
    have e: "if length hs < 2 then eip37_calculate lib hs len (block_interval_ms config) (initial_n_bits config)
          = Some (Inl DifficultyCalc)
        else \<exists>n. eip37_calculate lib hs len (block_interval_ms config) (initial_n_bits config) = Some (Inr n)"
      and c: "hs \<noteq> [] \<Longrightarrow> \<exists>n. calculate lib hs len (block_interval_ms config) (initial_n_bits config) = Some (Inr n)"
      using eip37_defined calculate_defined inc by (simp_all only: hs_def len_def)
    show ?thesis
      unfolding expected_difficulty_def Let_def len_def [symmetric] unfolding hs_def [symmetric]
      using True e c unfolding len_def [symmetric] by (auto split: if_splits)
  next
    case False
    then show ?thesis by (auto simp: expected_difficulty_def Let_def)
  qed
qed

definition sample_header :: "nat \<Rightarrow> u64 \<Rightarrow> header" where
  "sample_header h ts = \<lparr>h_version = 2, h_id = of_nat h, h_parent_id = of_nat (h - 1), h_height = h, h_timestamp = ts,
     h_n_bits = 16842752, h_votes = [0, 0, 0]\<rparr>"

definition sample_pow :: pow_lib where
  "sample_pow = \<lparr>decode_compact_bits = (\<lambda>n. int (unat n)), encode_compact_bits = word_of_int, order_bigint = 2 ^ 256,
     pow_hit = (\<lambda>_. Inr 0)\<rparr>"

definition sample_view :: "nat \<Rightarrow> header option" where
  "sample_view h = (if h = 128 then Some (sample_header 128 1000) else if h = 256 then Some (sample_header 256 5000) else None)"

theorem expected_difficulty_defined_witness:
  "\<exists>r. expected_difficulty sample_pow config_testnet sample_view (sample_header 256 5000) = Some (Inr r)"
proof -
  have "view_ok sample_view" by (auto simp: view_ok_def sample_view_def sample_header_def split: if_splits)
  moreover have "\<not> eip37_active (h_height (sample_header 256 5000) + 1) config_testnet"
    by (simp add: eip37_active_def config_testnet_def)
  ultimately obtain r where r: "expected_difficulty sample_pow config_testnet sample_view (sample_header 256 5000) = Some r"
    "\<forall>e. r \<noteq> Inl e"
    using expected_difficulty_defined [of sample_view sample_pow config_testnet "sample_header 256 5000"] by blast
  then show ?thesis by (cases r) auto
qed

section \<open>Bounds and exactness\<close>

lemma sdiv_nonneg: "0 \<le> a \<Longrightarrow> 0 < b \<Longrightarrow> a sdiv b = a div (b :: int)"
  by (cases "a = 0") (auto simp: signed_divide_int_def)

lemma sdiv_exact: "d \<noteq> 0 \<Longrightarrow> k * d sdiv d = (k :: int)"
proof -
  assume d: "d \<noteq> 0"
  then have "\<bar>k * d\<bar> div \<bar>d\<bar> = \<bar>k\<bar>" "sgn (k * d) * sgn d = sgn k"
    by (simp_all add: abs_mult sgn_mult mult.assoc)
  then show ?thesis by (simp only: signed_divide_int_def sgn_mult_abs)
qed

text \<open>(C30) Under EIP-37 the difficulty that is encoded for the next epoch lies between a half and three
  halves of the last one, whatever the timestamps and the regression say.\<close>

theorem eip37_bounded:
  assumes "eip37_calculate lib hs len interval_ms initial = Some (Inr n)"
    and "0 \<le> required_difficulty lib (last hs)"
  shows "\<exists>d. n = normalize_to_n_bits lib d initial
    \<and> required_difficulty lib (last hs) div 2 \<le> d \<and> d \<le> required_difficulty lib (last hs) * 3 div 2"
proof -
  let ?l = "required_difficulty lib (last hs)"
  from assms(1) obtain x where x: "n = normalize_to_n_bits lib (cap_difficulty x ?l) initial"
    by (cases "calculate lib hs len interval_ms initial"; cases "the (calculate lib hs len interval_ms initial)")
      (auto simp: eip37_calculate_def Let_def split: if_splits)
  have "?l sdiv 2 = ?l div 2" "?l * 3 sdiv 2 = ?l * 3 div 2" using assms(2) by (simp_all add: sdiv_nonneg)
  moreover have "?l div 2 \<le> ?l * 3 div 2" using assms(2) by simp
  ultimately show ?thesis using x by (intro exI [of _ "cap_difficulty x ?l"]) (simp add: cap_difficulty_def Let_def)
qed

theorem eip37_bounded_witness:
  "\<exists>n d. eip37_calculate sample_pow [sample_header 128 1000, sample_header 256 5000] 128 45000 16842752 = Some (Inr n)
     \<and> n = normalize_to_n_bits sample_pow d 16842752 \<and> 8421376 \<le> d \<and> d \<le> 25264128"
proof -
  let ?hs = "[sample_header 128 1000, sample_header 256 5000]"
  have "increasing ?hs" by (simp add: sample_header_def)
  from eip37_defined [OF this, of sample_pow 128 45000 16842752] obtain n where
    n: "eip37_calculate sample_pow ?hs 128 45000 16842752 = Some (Inr n)" by auto
  have l: "required_difficulty sample_pow (last ?hs) = 16842752"
    by (simp add: required_difficulty_def sample_pow_def sample_header_def)
  show ?thesis using eip37_bounded [OF n] n unfolding l by auto
qed

text \<open>The regression is exact on a linear trend: difficulties that lie on a line are extrapolated to the
  point of that line one epoch after the last height, in spite of the fixed-point arithmetic and its
  truncating divisions.\<close>

theorem interpolate_linear_exact:
  assumes "distinct xs" and "2 \<le> length xs"
  shows "interpolate (map (\<lambda>x. (x, a + b * x)) xs) len = Some (a + b * (Max (set xs) + len))"
proof -
  let ?data = "map (\<lambda>x. (x, a + b * x)) xs" and ?n = "int (length xs)"
  define D where "D = sum_list (map (\<lambda>x. x * x) xs) * ?n - sum_list xs * sum_list xs"
  have D: "D \<noteq> 0" unfolding D_def by (rule regression_denominator [OF assms])
  have xy: "sum_list (map (\<lambda>x. x * (a + b * x)) xs) = a * sum_list xs + b * sum_list (map (\<lambda>x. x * x) xs)"
    by (induction xs) (simp_all add: algebra_simps)
  have y: "sum_list (map (\<lambda>x. a + b * x) xs) = ?n * a + b * sum_list xs"
    by (induction xs) (simp_all add: algebra_simps)
  have bn: "(sum_list (map (\<lambda>x. x * (a + b * x)) xs) * ?n - sum_list xs * sum_list (map (\<lambda>x. a + b * x) xs)) * PRECISION
      = b * PRECISION * D"
    unfolding xy y D_def by (simp add: algebra_simps)
  have an: "sum_list (map (\<lambda>x. a + b * x) xs) * PRECISION - b * PRECISION * sum_list xs = a * PRECISION * ?n"
    unfolding y by (simp add: algebra_simps)
  have n: "?n \<noteq> 0" "xs \<noteq> []" and P: "PRECISION \<noteq> 0" using assms(2) by (auto simp: PRECISION_def)
  obtain x1 x2 zs where xs: "xs = x1 # x2 # zs" using assms(2) by (auto simp: numeral_2_eq_2 Suc_le_length_iff)
  have c: "(case ?data of [] \<Rightarrow> u | [(_, y)] \<Rightarrow> f y | _ \<Rightarrow> r) = r" for u :: "'z" and f r by (simp add: xs)
  have last: "b * PRECISION * (m + len) = b * (m + len) * PRECISION" for m by simp
  show ?thesis
    unfolding interpolate_def c Let_def
    by (simp add: comp_def bn D_def [symmetric] big_div_def D sdiv_exact an n P last del: list.set)
qed

theorem interpolate_linear_exact_witness:
  "interpolate [(128, 266), (256, 522), (384, 778)] 128 = Some 1034"
  using interpolate_linear_exact [of "[128, 256, 384]" 10 2 128] by simp

section \<open>Proof of work\<close>

lemma sdiv_neg: "0 \<le> a \<Longrightarrow> b < 0 \<Longrightarrow> a sdiv b \<le> (0 :: int)"
  by (auto simp: signed_divide_int_def pos_imp_zdiv_nonneg_iff sgn_if)

lemma less_div_pos: "0 < d \<Longrightarrow> (k < q div d) = ((k + 1) * d \<le> (q :: int))"
proof -
  assume d: "0 < d"
  have "k < q div d \<longleftrightarrow> k + 1 \<le> q div d" by linarith
  also have "\<dots> \<longleftrightarrow> (k + 1) * d \<le> q"
  proof
    assume "k + 1 \<le> q div d"
    then have "(k + 1) * d \<le> q div d * d" using d by (intro mult_right_mono) auto
    also have "\<dots> \<le> q" using pos_mod_sign [OF d, of q] div_mult_mod_eq [of q d] by linarith
    finally show "(k + 1) * d \<le> q" .
  next
    assume "(k + 1) * d \<le> q"
    then show "k + 1 \<le> q div d" using zdiv_mono1 [OF _ d] d by fastforce
  qed
  finally show ?thesis .
qed

text \<open>(C31) Proof of work. A header whose hit can be computed is accepted exactly when the hit is small enough that
  \<open>hit + 1\<close> times the difficulty stays within the group order; a negative difficulty is never met. A
  header that claims difficulty zero is not refused: the target division panics.\<close>

theorem verify_pow_exact:
  assumes "0 \<le> order_bigint lib"
  shows "case pow_hit lib h of
      Inl e \<Rightarrow> verify_pow lib h = Some (Inl e)
    | Inr hit \<Rightarrow> (let d = decode_compact_bits lib (h_n_bits h) in
        verify_pow lib h = (if d = 0 then None
          else Some (if 0 < d \<and> (int hit + 1) * d \<le> order_bigint lib then Inr () else Inl PowInvalid)))"
proof (cases "pow_hit lib h")
  case (Inr hit)
  let ?d = "decode_compact_bits lib (h_n_bits h)"
  have "int hit < order_bigint lib sdiv ?d \<longleftrightarrow> 0 < ?d \<and> (int hit + 1) * ?d \<le> order_bigint lib" if "?d \<noteq> 0"
    using sdiv_neg [OF assms, of ?d] sdiv_nonneg [OF assms, of ?d] less_div_pos [of ?d "int hit" "order_bigint lib"] that
    by (cases "?d < 0") auto
  with Inr show ?thesis by (simp add: verify_pow_def pow_target_def big_div_def Let_def)
qed (simp add: verify_pow_def)

theorem verify_pow_exact_witness:
  "verify_pow sample_pow (sample_header 1 5) = Some (Inr ())
   \<and> verify_pow sample_pow ((sample_header 1 5)\<lparr>h_n_bits := 0\<rparr>) = None"
  using verify_pow_exact [of sample_pow "sample_header 1 5"] verify_pow_exact [of sample_pow "(sample_header 1 5)\<lparr>h_n_bits := 0\<rparr>"]
  by (simp add: sample_pow_def sample_header_def)

end
