(* ===== verification/Header_Chain.thy ===== *)
theory Header_Chain
  imports Lazy_Store Voting Difficulty
begin

text \<open>
  The header chain (\<open>chain/src/chain.rs\<close>, \<open>chain/src/tracker.rs\<close>): queries through the lazy store, appending,
  both reorganisations with their rollback, installation of a proof suffix, the linkage audit, restoring from an
  index and the epoch parameters. A method is a function from the chain to an optional pair: \<open>None\<close> is a
  panic, otherwise the \<open>Result\<close> and the chain after the call. Reads change the chain too, since they
  touch the caches. The clock reading is an argument; \<open>debug_assert\<close>s are not part of a release build.
\<close>

section \<open>Methods\<close>

type_synonym ('s, 'a) run = "'s \<Rightarrow> ((chain_error + 'a) \<times> 's) option"

definition ret :: "'a \<Rightarrow> ('s, 'a) run" where
  "ret x s = Some (Inr x, s)"

definition throw :: "chain_error \<Rightarrow> ('s, 'a) run" where
  "throw e s = Some (Inl e, s)"

definition panic :: "('s, 'a) run" where
  "panic s = None"

definition bnd :: "('s, 'a) run \<Rightarrow> ('a \<Rightarrow> ('s, 'b) run) \<Rightarrow> ('s, 'b) run" where
  "bnd m f s = (case m s of
     None \<Rightarrow> None | Some (Inl e, s') \<Rightarrow> Some (Inl e, s') | Some (Inr x, s') \<Rightarrow> f x s')"

definition catch :: "('s, 'a) run \<Rightarrow> (chain_error \<Rightarrow> ('s, 'a) run) \<Rightarrow> ('s, 'a) run" where
  "catch m f s = (case m s of
     None \<Rightarrow> None | Some (Inl e, s') \<Rightarrow> f e s' | Some (Inr x, s') \<Rightarrow> Some (Inr x, s'))"

definition ensure :: "bool \<Rightarrow> chain_error \<Rightarrow> ('s, unit) run" where
  "ensure b e = (if b then ret () else throw e)"

definition lift_result :: "chain_error + 'a \<Rightarrow> ('s, 'a) run" where
  "lift_result r s = Some (r, s)"

definition lift_panicking :: "(chain_error + 'a) option \<Rightarrow> ('s, 'a) run" where
  "lift_panicking r s = map_option (\<lambda>x. (x, s)) r"

text \<open>A read that touches the caches and cannot fail.\<close>

definition observe_with :: "('s \<Rightarrow> 'a \<times> 's) \<Rightarrow> ('s, 'a) run" where
  "observe_with f s = (case f s of (x, s') \<Rightarrow> Some (Inr x, s'))"

definition change :: "('s \<Rightarrow> 's) \<Rightarrow> ('s, unit) run" where
  "change f s = Some (Inr (), f s)"

section \<open>The chain\<close>

record ('hc, 'sc, 'st) chain_lib = "('hc, 'sc) lru_lib" +
  pow :: pow_lib
  sigma :: "'st sigma_lib"

datatype append_result = Extended | Forked nat

record installed_header =
  ih_id :: id32
  ih_height :: nat
  ih_score :: nat

record ('hc, 'sc) header_chain =
  config :: chain_config
  base_height :: "nat option"
  by_id :: "(id32, nat) hmap"
  active_parameters :: param_table
  active_proposed_update_bytes :: bytes
  extension_loader :: "(nat \<Rightarrow> bytes option) option"
  light_client_mode :: bool
  lazy :: "('hc, 'sc) lazy_header_store"

definition genesis_parent_id :: id32 where
  "genesis_parent_id = 0"

definition header_difficulty :: "('hc, 'sc, 'st) chain_lib \<Rightarrow> header \<Rightarrow> nat" where
  "header_difficulty L h = nat (decode_compact_bits (pow L) (h_n_bits h))"

definition new_chain :: "('hc, 'sc, 'st) chain_lib \<Rightarrow> chain_config \<Rightarrow> ('hc, 'sc) header_chain" where
  "new_chain L cfg =
     \<lparr>config = cfg, base_height = None, by_id = [],
      active_parameters = default_parameters (sigma L) (cc_network cfg),
      active_proposed_update_bytes = default_proposed_update_bytes (sigma L) (cc_network cfg),
      extension_loader = None, light_client_mode = False, lazy = with_default_capacity L\<rparr>"

fun restore_loop ::
  "(nat \<times> id32) list \<Rightarrow> nat option \<Rightarrow> nat option \<Rightarrow> (id32, nat) hmap
    \<Rightarrow> restore_error + nat option \<times> (id32, nat) hmap" where
  "restore_loop [] base prev m = Inr (base, m)"
| "restore_loop ((height, i) # entries) base prev m =
     (case prev of
        None \<Rightarrow>
          if map_of m i \<noteq> None then Inl (DuplicateHeight height)
          else restore_loop entries (Some height) (Some height) (hm_insert i height m)
      | Some p \<Rightarrow>
          if height \<noteq> p + 1 then Inl (NonContiguousHeights (p + 1) height)
          else if map_of m i \<noteq> None then Inl (DuplicateHeight height)
          else restore_loop entries base (Some height) (hm_insert i height m))"

definition restore ::
  "('hc, 'sc, 'st) chain_lib \<Rightarrow> chain_config \<Rightarrow> (nat \<times> id32) list \<Rightarrow> restore_error + ('hc, 'sc) header_chain" where
  "restore L cfg entries =
     and_then (restore_loop entries None None []) (\<lambda>(base, m).
       Inr ((new_chain L cfg)\<lparr>base_height := base, by_id := m,
              light_client_mode := (case base of None \<Rightarrow> 1 | Some b \<Rightarrow> b) > 1\<rparr>))"

section \<open>Queries\<close>

definition is_empty :: "('hc, 'sc) header_chain \<Rightarrow> bool" where
  "is_empty s \<longleftrightarrow> by_id s = []"

definition height :: "('hc, 'sc) header_chain \<Rightarrow> nat" where
  "height s = (case base_height s of
     Some base \<Rightarrow> if by_id s \<noteq> [] then base + length (by_id s) - 1 else 0 | None \<Rightarrow> 0)"

definition header_at ::
  "('hc, 'sc, 'st) chain_lib \<Rightarrow> nat \<Rightarrow> ('hc, 'sc) header_chain \<Rightarrow> header option \<times> ('hc, 'sc) header_chain" where
  "header_at L h s =
     (case base_height s of
        None \<Rightarrow> (None, s)
      | Some base \<Rightarrow>
          if h < base \<or> h > height s then (None, s)
          else case get_header L h (lazy s) of
            (None, z) \<Rightarrow> (None, s\<lparr>lazy := z\<rparr>)
          | (Some hdr, z) \<Rightarrow>
              (if map_of (by_id s) (h_id hdr) \<noteq> Some h then None else Some hdr, s\<lparr>lazy := z\<rparr>))"

definition score_at ::
  "('hc, 'sc, 'st) chain_lib \<Rightarrow> nat \<Rightarrow> ('hc, 'sc) header_chain \<Rightarrow> nat option \<times> ('hc, 'sc) header_chain" where
  "score_at L h s =
     (case base_height s of
        None \<Rightarrow> (None, s)
      | Some base \<Rightarrow>
          if h < base \<or> h > height s then (None, s)
          else case get_score L h (lazy s) of (r, z) \<Rightarrow> (r, s\<lparr>lazy := z\<rparr>))"

definition tip :: "('hc, 'sc, 'st) chain_lib \<Rightarrow> (('hc, 'sc) header_chain, header) run" where
  "tip L s =
     (if is_empty s then None
      else bnd (observe_with (header_at L (height s))) (\<lambda>r. case r of None \<Rightarrow> panic | Some t \<Rightarrow> ret t) s)"

definition contains :: "id32 \<Rightarrow> ('hc, 'sc) header_chain \<Rightarrow> bool" where
  "contains i s \<longleftrightarrow> map_of (by_id s) i \<noteq> None"

definition height_of :: "id32 \<Rightarrow> ('hc, 'sc) header_chain \<Rightarrow> nat option" where
  "height_of i s = map_of (by_id s) i"

fun read_heights ::
  "(nat \<Rightarrow> 's \<Rightarrow> 'v option \<times> 's) \<Rightarrow> nat list \<Rightarrow> 's \<Rightarrow> 'v option list \<times> 's" where
  "read_heights rd [] s = ([], s)"
| "read_heights rd (h # hs) s =
     (case rd h s of (r, s1) \<Rightarrow> (case read_heights rd hs s1 of (rs, s2) \<Rightarrow> (r # rs, s2)))"

definition headers_from ::
  "('hc, 'sc, 'st) chain_lib \<Rightarrow> nat \<Rightarrow> nat \<Rightarrow> ('hc, 'sc) header_chain \<Rightarrow> header list \<times> ('hc, 'sc) header_chain" where
  "headers_from L h count s =
     (if count = 0 \<or> is_empty s \<or> h > height s then ([], s)
      else case base_height s of
        None \<Rightarrow> ([], s)
      | Some base \<Rightarrow>
          if h < base then ([], s)
          else let n = min count (height s - h + 1) in
            (case read_heights (header_at L) [h..<h + n] s of
               (rs, s') \<Rightarrow> (List.map_filter id rs, s')))"

definition cumulative_score ::
  "('hc, 'sc, 'st) chain_lib \<Rightarrow> ('hc, 'sc) header_chain \<Rightarrow> nat \<times> ('hc, 'sc) header_chain" where
  "cumulative_score L s =
     (if is_empty s then (0, s)
      else case score_at L (height s) s of (r, s') \<Rightarrow> (case r of None \<Rightarrow> 0 | Some v \<Rightarrow> v, s'))"

definition is_epoch_boundary :: "nat \<Rightarrow> ('hc, 'sc) header_chain \<Rightarrow> bool" where
  "is_epoch_boundary h s \<longleftrightarrow> h > 0 \<and> voting_length (cc_voting (config s)) dvd h"

definition reorg_floor :: "('hc, 'sc) header_chain \<Rightarrow> nat" where
  "reorg_floor s = (case base_height s of None \<Rightarrow> 1 | Some b \<Rightarrow> b)"

definition set_header_loader :: "(nat \<Rightarrow> header option) \<Rightarrow> ('hc, 'sc) header_chain \<Rightarrow> ('hc, 'sc) header_chain" where
  "set_header_loader f s = s\<lparr>lazy := (lazy s)\<lparr>header_loader := Some f\<rparr>\<rparr>"

definition set_score_loader :: "(nat \<Rightarrow> nat option) \<Rightarrow> ('hc, 'sc) header_chain \<Rightarrow> ('hc, 'sc) header_chain" where
  "set_score_loader f s = s\<lparr>lazy := (lazy s)\<lparr>score_loader := Some f\<rparr>\<rparr>"

definition set_extension_loader :: "(nat \<Rightarrow> bytes option) \<Rightarrow> ('hc, 'sc) header_chain \<Rightarrow> ('hc, 'sc) header_chain" where
  "set_extension_loader f s = s\<lparr>extension_loader := Some f\<rparr>"

definition set_cache_capacity ::
  "('hc, 'sc, 'st) chain_lib \<Rightarrow> nat \<Rightarrow> ('hc, 'sc) header_chain \<Rightarrow> ('hc, 'sc) header_chain" where
  "set_cache_capacity L capacity s = s\<lparr>lazy := store_resize L capacity (lazy s)\<rparr>"

section \<open>Validation\<close>

text \<open>The heights \<open>expected_difficulty\<close> asks the chain for.\<close>

definition recalculation_heights :: "chain_config \<Rightarrow> header \<Rightarrow> nat list" where
  "recalculation_heights cfg parent =
     (let v2_height = version2_activation_height (cc_voting cfg);
          len = epoch_length_at (h_height parent + 1) cfg in
      if version2_activation_n_bits cfg \<noteq> None \<and> v2_height > 0
         \<and> (h_height parent = v2_height \<or> h_height parent + 1 = v2_height) then []
      else if len dvd h_height parent \<and> h_height parent > 0
      then previous_heights_for_recalculation (h_height parent + 1) len (use_last_epochs cfg)
      else [])"

text \<open>\<open>expected_difficulty(&tip, self)\<close>: the headers are read through the chain, then the formula is applied.\<close>

definition chain_difficulty ::
  "('hc, 'sc, 'st) chain_lib \<Rightarrow> header \<Rightarrow> (('hc, 'sc) header_chain, u32) run" where
  "chain_difficulty L parent s =
     (let heights = recalculation_heights (config s) parent in
      case read_heights (header_at L) heights s of
        (rs, s') \<Rightarrow>
          lift_panicking (expected_difficulty (pow L) (config s)
            (\<lambda>h. case map_of (zip heights rs) h of None \<Rightarrow> None | Some r \<Rightarrow> r) parent) s')"

definition check_fork_vote_gate :: "header \<Rightarrow> (('hc, 'sc) header_chain, unit) run" where
  "check_fork_vote_gate hdr s =
     lift_result (and_then (check_fork_vote (cc_voting (config s)) (h_height hdr) (h_votes hdr) (active_parameters s))
       (\<lambda>ok. if ok then Inr () else Inl VotingError)) s"

definition validate_genesis :: "('hc, 'sc, 'st) chain_lib \<Rightarrow> header \<Rightarrow> (('hc, 'sc) header_chain, unit) run" where
  "validate_genesis L hdr s =
     (let cfg = config s in
      bnd (ensure (h_parent_id hdr = genesis_parent_id) (InvalidGenesisParent (h_parent_id hdr))) (\<lambda>_.
      bnd (ensure (h_height hdr = 1) (InvalidGenesisHeight (h_height hdr))) (\<lambda>_.
      bnd (ensure (h_n_bits hdr = initial_n_bits cfg)
            (WrongDifficulty (h_height hdr) (initial_n_bits cfg) (h_n_bits hdr))) (\<lambda>_.
      bnd (lift_panicking (verify_pow (pow L) hdr)) (\<lambda>_.
      case genesis_id cfg of
        None \<Rightarrow> ret ()
      | Some expected \<Rightarrow> ensure (h_id hdr = expected) (GenesisIdMismatch expected (h_id hdr)))))) s)"

definition validate_child ::
  "('hc, 'sc, 'st) chain_lib \<Rightarrow> u64 \<Rightarrow> header \<Rightarrow> (('hc, 'sc) header_chain, unit) run" where
  "validate_child L now_ms hdr s =
     (let max_allowed = now_ms + max_time_drift_ms (config s) in
      bnd (tip L) (\<lambda>t.
      bnd (ensure (h_parent_id hdr = h_id t) (ParentNotFound (h_parent_id hdr))) (\<lambda>_.
      bnd (ensure (h_height hdr = h_height t + 1) (NonSequentialHeight (h_height t + 1) (h_height hdr))) (\<lambda>_.
      bnd (ensure (h_timestamp hdr > h_timestamp t) (TimestampNotIncreasing (h_timestamp t) (h_timestamp hdr))) (\<lambda>_.
      bnd (ensure (h_timestamp hdr \<le> max_allowed) (TimestampTooFarInFuture (h_timestamp hdr) max_allowed)) (\<lambda>_.
      bnd (if light_client_mode s then ret ()
           else bnd (chain_difficulty L t) (\<lambda>expected_n_bits.
             ensure (h_n_bits hdr = expected_n_bits) (WrongDifficulty (h_height hdr) expected_n_bits (h_n_bits hdr)))) (\<lambda>_.
      bnd (lift_panicking (verify_pow (pow L) hdr)) (\<lambda>_.
      bnd (lift_result (check_header_votes (h_votes hdr))) (\<lambda>_.
      check_fork_vote_gate hdr)))))))) s)"

definition validate_reorg_header ::
  "('hc, 'sc, 'st) chain_lib \<Rightarrow> u64 \<Rightarrow> bool \<Rightarrow> header \<Rightarrow> (('hc, 'sc) header_chain, unit) run" where
  "validate_reorg_header L now_ms pow_check hdr s =
     (let max_allowed = now_ms + max_time_drift_ms (config s) in
      bnd (tip L) (\<lambda>t.
      bnd (ensure (h_timestamp hdr > h_timestamp t) (TimestampNotIncreasing (h_timestamp t) (h_timestamp hdr))) (\<lambda>_.
      bnd (ensure (h_timestamp hdr \<le> max_allowed) (TimestampTooFarInFuture (h_timestamp hdr) max_allowed)) (\<lambda>_.
      bnd (chain_difficulty L t) (\<lambda>expected_n_bits.
      bnd (ensure (h_n_bits hdr = expected_n_bits) (WrongDifficulty (h_height hdr) expected_n_bits (h_n_bits hdr))) (\<lambda>_.
      bnd (if pow_check then lift_panicking (verify_pow (pow L) hdr) else ret ()) (\<lambda>_.
      bnd (lift_result (check_header_votes (h_votes hdr))) (\<lambda>_.
      check_fork_vote_gate hdr))))))) s)"

section \<open>Appending\<close>

definition push_header :: "('hc, 'sc, 'st) chain_lib \<Rightarrow> header \<Rightarrow> (('hc, 'sc) header_chain, unit) run" where
  "push_header L hdr s =
     (let put = (\<lambda>parent_score s. s\<lparr>lazy := store_put L (h_height hdr) hdr (parent_score + header_difficulty L hdr) (lazy s),
                                   by_id := hm_insert (h_id hdr) (h_height hdr) (by_id s)\<rparr>) in
      if base_height s = None then change (put 0) (s\<lparr>base_height := Some (h_height hdr)\<rparr>)
      else case score_at L (h_height hdr - 1) s of
        (None, _) \<Rightarrow> None
      | (Some parent_score, s') \<Rightarrow> change (put parent_score) s')"

definition pop_header ::
  "('hc, 'sc, 'st) chain_lib \<Rightarrow> (('hc, 'sc) header_chain, (header \<times> nat) option) run" where
  "pop_header L s =
     (if is_empty s then ret None s
      else let tip_height = height s in
        case header_at L tip_height s of
          (None, _) \<Rightarrow> None
        | (Some hdr, s1) \<Rightarrow>
            (case score_at L tip_height s1 of
               (r, s2) \<Rightarrow>
                 let s3 = s2\<lparr>by_id := hm_remove (h_id hdr) (by_id s2), lazy := store_evict L tip_height (lazy s2)\<rparr> in
                 ret (Some (hdr, case r of None \<Rightarrow> 0 | Some v \<Rightarrow> v))
                   (if by_id s3 = [] then s3\<lparr>base_height := None\<rparr> else s3)))"

definition restore_header :: "('hc, 'sc, 'st) chain_lib \<Rightarrow> header \<times> nat \<Rightarrow> ('hc, 'sc) header_chain \<Rightarrow> ('hc, 'sc) header_chain" where
  "restore_header L saved s =
     (case saved of (hdr, score) \<Rightarrow>
        let s1 = (if base_height s = None then s\<lparr>base_height := Some (h_height hdr)\<rparr> else s) in
        s1\<lparr>by_id := hm_insert (h_id hdr) (h_height hdr) (by_id s1),
           lazy := store_put L (h_height hdr) hdr score (lazy s1)\<rparr>)"

definition try_append ::
  "('hc, 'sc, 'st) chain_lib \<Rightarrow> u64 \<Rightarrow> header \<Rightarrow> (('hc, 'sc) header_chain, append_result) run" where
  "try_append L now_ms hdr s =
     (if is_empty s then
        bnd (validate_genesis L hdr) (\<lambda>_. bnd (push_header L hdr) (\<lambda>_. ret Extended)) s
      else
        bnd (tip L) (\<lambda>t.
          if h_parent_id hdr = h_id t then
            bnd (validate_child L now_ms hdr) (\<lambda>_. bnd (push_header L hdr) (\<lambda>_. ret Extended))
          else case map_of (by_id s) (h_parent_id hdr) of
            Some parent_height \<Rightarrow>
              bnd (ensure (h_height hdr = parent_height + 1) (NonSequentialHeight (parent_height + 1) (h_height hdr))) (\<lambda>_.
              ret (Forked parent_height))
          | None \<Rightarrow> throw (ParentNotFound (h_parent_id hdr))) s)"

section \<open>Reorganisations\<close>

definition try_reorg_impl ::
  "('hc, 'sc, 'st) chain_lib \<Rightarrow> u64 \<Rightarrow> bool \<Rightarrow> header \<Rightarrow> header \<Rightarrow> (('hc, 'sc) header_chain, id32) run" where
  "try_reorg_impl L now_ms pow_check alternative_tip continuation s =
     bnd (ensure (length (by_id s) \<ge> 2) Reorg) (\<lambda>_.
     bnd (tip L) (\<lambda>t.
     bnd (ensure (h_height alternative_tip = height s) Reorg) (\<lambda>_.
     bnd (ensure (h_parent_id alternative_tip = h_parent_id t) Reorg) (\<lambda>_.
     bnd (ensure (h_parent_id continuation = h_id alternative_tip) Reorg) (\<lambda>_.
     bnd (ensure (h_height continuation = h_height alternative_tip + 1)
           (NonSequentialHeight (h_height alternative_tip + 1) (h_height continuation))) (\<lambda>_.
     bnd (pop_header L) (\<lambda>popped.
     case popped of
       None \<Rightarrow> panic
     | Some old \<Rightarrow>
         bnd (catch (validate_reorg_header L now_ms pow_check alternative_tip)
               (\<lambda>e. bnd (change (restore_header L old)) (\<lambda>_. throw e))) (\<lambda>_.
         bnd (push_header L alternative_tip) (\<lambda>_.
         bnd (catch (validate_reorg_header L now_ms pow_check continuation)
               (\<lambda>e. bnd (pop_header L) (\<lambda>p. if p = None then panic
                  else bnd (change (restore_header L old)) (\<lambda>_. throw e)))) (\<lambda>_.
         bnd (push_header L continuation) (\<lambda>_.
         ret (h_id (fst old))))))))))))) s"

definition try_reorg ::
  "('hc, 'sc, 'st) chain_lib \<Rightarrow> u64 \<Rightarrow> header \<Rightarrow> header \<Rightarrow> (('hc, 'sc) header_chain, id32) run" where
  "try_reorg L now_ms alternative_tip continuation = try_reorg_impl L now_ms True alternative_tip continuation"

text \<open>The headers and scores above the fork point, read before anything is changed.\<close>

fun save_above ::
  "('hc, 'sc, 'st) chain_lib \<Rightarrow> nat list \<Rightarrow> (('hc, 'sc) header_chain, (header \<times> nat) list) run" where
  "save_above L [] s = ret [] s"
| "save_above L (h # hs) s =
     bnd (observe_with (header_at L h)) (\<lambda>hdr.
       case hdr of None \<Rightarrow> throw Reorg | Some hdr \<Rightarrow>
     bnd (observe_with (score_at L h)) (\<lambda>score.
       case score of None \<Rightarrow> throw Reorg | Some score \<Rightarrow>
     bnd (save_above L hs) (\<lambda>saved. ret ((hdr, score) # saved)))) s"

fun drain :: "('hc, 'sc, 'st) chain_lib \<Rightarrow> (header \<times> nat) list \<Rightarrow> ('hc, 'sc) header_chain \<Rightarrow> ('hc, 'sc) header_chain" where
  "drain L [] s = s"
| "drain L ((hdr, _) # saved) s =
     drain L saved (s\<lparr>by_id := hm_remove (h_id hdr) (by_id s), lazy := store_evict L (h_height hdr) (lazy s)\<rparr>)"

text \<open>The loop over the new branch; the second argument is \<open>fork_point_height + 1 + i\<close> and \<open>first\<close> is \<open>i == 0\<close>.\<close>

fun apply_branch ::
  "('hc, 'sc, 'st) chain_lib \<Rightarrow> u64 \<Rightarrow> bool \<Rightarrow> nat \<Rightarrow> bool \<Rightarrow> header list \<Rightarrow> (('hc, 'sc) header_chain, unit) run" where
  "apply_branch L now_ms pow_check expected_height first [] s = ret () s"
| "apply_branch L now_ms pow_check expected_height first (hdr # branch) s =
     bnd (if first then ret ()
          else bnd (tip L) (\<lambda>t. ensure (h_parent_id hdr = h_id t) (ParentNotFound (h_parent_id hdr)))) (\<lambda>_.
     bnd (ensure (h_height hdr = expected_height) (NonSequentialHeight expected_height (h_height hdr))) (\<lambda>_.
     bnd (validate_reorg_header L now_ms pow_check hdr) (\<lambda>_.
     bnd (push_header L hdr) (\<lambda>_.
     apply_branch L now_ms pow_check (expected_height + 1) False branch)))) s"

lemma length_hm_remove: "map_of m k \<noteq> None \<Longrightarrow> length (hm_remove k m) < length m"
  unfolding hm_remove_def AList.delete_eq
  by (rule length_filter_less [of "(k, the (map_of m k))"]) (auto dest: map_of_SomeD)

lemma header_at_frame:
  "header_at L h s = (r, s') \<Longrightarrow> by_id s' = by_id s \<and> base_height s' = base_height s \<and> config s' = config s
     \<and> (\<forall>hdr. r = Some hdr \<longrightarrow> map_of (by_id s) (h_id hdr) = Some h)"
  by (auto simp: header_at_def split: option.splits prod.splits if_splits)

lemma score_at_frame:
  "score_at L h s = (r, s') \<Longrightarrow> by_id s' = by_id s \<and> base_height s' = base_height s \<and> config s' = config s"
  by (auto simp: score_at_def split: option.splits prod.splits if_splits)

lemma pop_header_shrinks:
  assumes "pop_header L s = Some (r, s')" "height s > n"
  shows "length (by_id s') < length (by_id s)"
proof -
  have ne: "\<not> is_empty s" using assms(2) by (auto simp: height_def is_empty_def split: option.splits)
  obtain hr s1 where h: "header_at L (height s) s = (hr, s1)" by fastforce
  obtain sr s2 where sc: "score_at L (height s) s1 = (sr, s2)" by fastforce
  from assms(1) ne h obtain hdr where hr: "hr = Some hdr" by (cases hr) (auto simp: pop_header_def)
  have "by_id s' = hm_remove (h_id hdr) (by_id s)"
    using assms(1) ne h sc hr header_at_frame [OF h] score_at_frame [OF sc]
    by (auto simp: pop_header_def ret_def Let_def split: if_splits)
  moreover have "map_of (by_id s) (h_id hdr) \<noteq> None" using header_at_frame [OF h] hr by auto
  ultimately show ?thesis by (simp add: length_hm_remove)
qed

function pop_to ::
  "('hc, 'sc, 'st) chain_lib \<Rightarrow> nat \<Rightarrow> ('hc, 'sc) header_chain \<Rightarrow> ('hc, 'sc) header_chain option" where
  "pop_to L fork_point_height s =
     (if height s > fork_point_height then
        case pop_header L s of None \<Rightarrow> None | Some (_, s') \<Rightarrow> pop_to L fork_point_height s'
      else Some s)"
  by pat_completeness auto
termination
  by (relation "measure (\<lambda>(_, _, s). length (by_id s))") (auto dest: pop_header_shrinks)

declare pop_to.simps [simp del]

fun reinsert :: "('hc, 'sc, 'st) chain_lib \<Rightarrow> (header \<times> nat) list \<Rightarrow> ('hc, 'sc) header_chain \<Rightarrow> ('hc, 'sc) header_chain" where
  "reinsert L [] s = s"
| "reinsert L ((hdr, score) # saved) s =
     reinsert L saved (s\<lparr>by_id := hm_insert (h_id hdr) (h_height hdr) (by_id s),
                         lazy := store_put L (h_height hdr) hdr score (lazy s)\<rparr>)"

definition try_reorg_deep_impl ::
  "('hc, 'sc, 'st) chain_lib \<Rightarrow> u64 \<Rightarrow> bool \<Rightarrow> nat \<Rightarrow> header list \<Rightarrow> (('hc, 'sc) header_chain, id32 list) run" where
  "try_reorg_deep_impl L now_ms pow_check fork_point_height new_branch s =
     bnd (ensure (new_branch \<noteq> []) Reorg) (\<lambda>_.
     bnd (ensure (\<not> is_empty s) Reorg) (\<lambda>_.
     bnd (ensure (fork_point_height \<ge> reorg_floor s) Reorg) (\<lambda>_.
     case base_height s of None \<Rightarrow> panic | Some base \<Rightarrow>
     bnd (ensure (base \<le> fork_point_height \<and> fork_point_height \<le> height s) Reorg) (\<lambda>_.
     bnd (observe_with (header_at L fork_point_height)) (\<lambda>fork_point.
       case fork_point of None \<Rightarrow> throw Reorg | Some fork_point \<Rightarrow>
     bnd (ensure (h_parent_id (hd new_branch) = h_id fork_point) Reorg) (\<lambda>_.
     bnd (save_above L [fork_point_height + 1..<height s + 1]) (\<lambda>saved.
     bnd (change (drain L saved)) (\<lambda>_.
     bnd (catch (apply_branch L now_ms pow_check (fork_point_height + 1) True new_branch)
           (\<lambda>e s'. case pop_to L fork_point_height s' of
              None \<Rightarrow> None
            | Some s'' \<Rightarrow> throw e (reinsert L saved s''))) (\<lambda>_.
     ret (map (h_id \<circ> fst) saved)))))))))) s"

definition try_reorg_deep ::
  "('hc, 'sc, 'st) chain_lib \<Rightarrow> u64 \<Rightarrow> nat \<Rightarrow> header list \<Rightarrow> (('hc, 'sc) header_chain, id32 list) run" where
  "try_reorg_deep L now_ms fork_point_height new_branch = try_reorg_deep_impl L now_ms True fork_point_height new_branch"

section \<open>The linkage audit\<close>

definition load_for_linkage_walk ::
  "('hc, 'sc, 'st) chain_lib \<Rightarrow> nat \<Rightarrow> (('hc, 'sc) header_chain, header) run" where
  "load_for_linkage_walk L h s =
     (case get_header L h (lazy s) of
        (None, z) \<Rightarrow> throw (IndexInconsistency h) (s\<lparr>lazy := z\<rparr>)
      | (Some hdr, z) \<Rightarrow>
          (if h_height hdr \<noteq> h then throw (IndexInconsistency h)
           else if map_of (by_id s) (h_id hdr) = Some h then ret hdr
           else throw (IndexInconsistency h)) (s\<lparr>lazy := z\<rparr>))"

fun linkage_walk ::
  "('hc, 'sc, 'st) chain_lib \<Rightarrow> header \<Rightarrow> nat list \<Rightarrow> (('hc, 'sc) header_chain, unit) run" where
  "linkage_walk L child [] s = ret () s"
| "linkage_walk L child (h # hs) s =
     bnd (load_for_linkage_walk L (h - 1)) (\<lambda>parent.
     bnd (ensure (h_parent_id child = h_id parent)
           (BrokenParentLink h (h_id child) (h_parent_id child) (h_id parent))) (\<lambda>_.
     linkage_walk L parent hs)) s"

definition verify_best_chain_linkage ::
  "('hc, 'sc, 'st) chain_lib \<Rightarrow> nat option \<Rightarrow> (('hc, 'sc) header_chain, unit) run" where
  "verify_best_chain_linkage L max_depth s =
     (case base_height s of
        None \<Rightarrow> ret () s
      | Some base \<Rightarrow>
          let tip_height = height s; links = tip_height - base;
              checked_links = (case max_depth of Some d \<Rightarrow> min links d | None \<Rightarrow> links);
              start_child = tip_height - checked_links + 1 in
          if tip_height \<le> base \<or> checked_links = 0 then ret () s
          else bnd (load_for_linkage_walk L tip_height) (\<lambda>child.
                 linkage_walk L child (rev [start_child..<tip_height + 1])) s)"

section \<open>Installing a proof suffix\<close>

definition rollback_install :: "('hc, 'sc, 'st) chain_lib \<Rightarrow> ('hc, 'sc) header_chain \<Rightarrow> ('hc, 'sc) header_chain" where
  "rollback_install L s =
     s\<lparr>base_height := None, by_id := [], light_client_mode := False, lazy := store_clear L (lazy s)\<rparr>"

fun install_tail ::
  "('hc, 'sc, 'st) chain_lib \<Rightarrow> bool \<Rightarrow> header list \<Rightarrow> (('hc, 'sc) header_chain, installed_header list) run" where
  "install_tail L pow_check [] s = ret [] s"
| "install_tail L pow_check (hdr # hs) s =
     bnd (tip L) (\<lambda>t.
     if h_parent_id hdr \<noteq> h_id t then throw (ParentNotFound (h_parent_id hdr)) \<circ> rollback_install L
     else if h_height hdr \<noteq> h_height t + 1
     then throw (NonSequentialHeight (h_height t + 1) (h_height hdr)) \<circ> rollback_install L
     else
       bnd (catch (if pow_check then lift_panicking (verify_pow (pow L) hdr) else ret ())
             (\<lambda>e. throw e \<circ> rollback_install L)) (\<lambda>_.
       bnd (push_header L hdr) (\<lambda>_.
       bnd (observe_with (score_at L (h_height hdr))) (\<lambda>score.
         case score of None \<Rightarrow> panic | Some score \<Rightarrow>
       bnd (install_tail L pow_check hs) (\<lambda>installed.
       ret (\<lparr>ih_id = h_id hdr, ih_height = h_height hdr, ih_score = score\<rparr> # installed)))))) s"

definition install_from_nipopow_proof_impl ::
  "('hc, 'sc, 'st) chain_lib \<Rightarrow> header \<Rightarrow> header list \<Rightarrow> bool \<Rightarrow> (('hc, 'sc) header_chain, installed_header list) run" where
  "install_from_nipopow_proof_impl L suffix_head suffix_tail pow_check s =
     bnd (ensure (is_empty s) ChainNotEmpty) (\<lambda>_.
     bnd (if pow_check then lift_panicking (verify_pow (pow L) suffix_head) else ret ()) (\<lambda>_.
     bnd (change (\<lambda>s. s\<lparr>base_height := Some (h_height suffix_head),
                          by_id := hm_insert (h_id suffix_head) (h_height suffix_head) (by_id s),
                          lazy := store_put L (h_height suffix_head) suffix_head 0 (lazy s),
                          light_client_mode := True\<rparr>)) (\<lambda>_.
     bnd (install_tail L pow_check suffix_tail) (\<lambda>installed.
     ret (\<lparr>ih_id = h_id suffix_head, ih_height = h_height suffix_head, ih_score = 0\<rparr> # installed))))) s"

definition install_from_nipopow_proof ::
  "('hc, 'sc, 'st) chain_lib \<Rightarrow> header \<Rightarrow> header list \<Rightarrow> (('hc, 'sc) header_chain, installed_header list) run" where
  "install_from_nipopow_proof L suffix_head suffix_tail = install_from_nipopow_proof_impl L suffix_head suffix_tail True"

section \<open>Epoch parameters\<close>

fun read_window ::
  "('hc, 'sc, 'st) chain_lib \<Rightarrow> nat list \<Rightarrow> (('hc, 'sc) header_chain, (nat \<times> u8 list) list) run" where
  "read_window L [] s = ret [] s"
| "read_window L (h # hs) s =
     bnd (observe_with (header_at L h)) (\<lambda>hdr.
       case hdr of None \<Rightarrow> throw VotingError | Some hdr \<Rightarrow>
     bnd (read_window L hs) (\<lambda>window. ret ((h, h_votes hdr) # window))) s"

definition tally_just_ended_epoch ::
  "('hc, 'sc, 'st) chain_lib \<Rightarrow> nat \<Rightarrow> (('hc, 'sc) header_chain, (int \<times> nat) list) run" where
  "tally_just_ended_epoch L epoch_boundary_height s =
     (let len = voting_length (cc_voting (config s));
          start = max (epoch_boundary_height - len) 1 in
      if epoch_boundary_height = 0 then throw VotingError s
      else if start > epoch_boundary_height - 1 then ret [] s
      else bnd (read_window L [start..<epoch_boundary_height]) (\<lambda>window.
             ret (tally_votes_seeded window epoch_boundary_height len)) s)"

definition count_votes_in_epoch ::
  "('hc, 'sc, 'st) chain_lib \<Rightarrow> nat \<Rightarrow> (('hc, 'sc) header_chain, (int \<times> nat) list) run" where
  "count_votes_in_epoch L epoch_end_height s =
     (let len = voting_length (cc_voting (config s));
          boundary_height = epoch_end_height + 1;
          start = max (boundary_height - len) 1 in
      if len = 0 then throw VotingError s
      else if start > epoch_end_height then ret [] s
      else bnd (read_window L [start..<epoch_end_height + 1]) (\<lambda>window.
             ret (tally_votes_seeded window boundary_height len)) s)"

definition compute_boundary_parameters_at ::
  "('hc, 'sc, 'st) chain_lib \<Rightarrow> nat \<Rightarrow> bytes \<Rightarrow> bool
    \<Rightarrow> (('hc, 'sc) header_chain, param_table \<times> 'st validation_settings_update) run" where
  "compute_boundary_parameters_at L epoch_boundary_height block_proposed_update boundary_fork_vote s =
     bnd (tally_just_ended_epoch L epoch_boundary_height) (\<lambda>tally s.
       let proposed_update =
             (case parse_validation_settings_update (sigma L) block_proposed_update of
                Inr _ \<Rightarrow> block_proposed_update
              | Inl _ \<Rightarrow> encode_disabled_rules (sigma L) []) in
       lift_result (compute_boundary_parameters (sigma L) (cc_voting (config s)) epoch_boundary_height
         (active_parameters s) tally boundary_fork_vote proposed_update) s) s"

definition compute_expected_parameters ::
  "('hc, 'sc, 'st) chain_lib \<Rightarrow> nat \<Rightarrow> bytes \<Rightarrow> (('hc, 'sc) header_chain, param_table) run" where
  "compute_expected_parameters L epoch_boundary_height block_proposed_update =
     bnd (observe_with (header_at L epoch_boundary_height)) (\<lambda>boundary.
     let boundary_fork_vote =
           (case boundary of None \<Rightarrow> False | Some hdr \<Rightarrow> word_of_int SOFT_FORK_VOTE \<in> set (h_votes hdr)) in
     bnd (compute_boundary_parameters_at L epoch_boundary_height block_proposed_update boundary_fork_vote)
       (\<lambda>(params, _). ret params))"

definition compute_expected_parameters_for_candidate ::
  "('hc, 'sc, 'st) chain_lib \<Rightarrow> nat \<Rightarrow> bytes \<Rightarrow> u8 list
    \<Rightarrow> (('hc, 'sc) header_chain, param_table \<times> 'st validation_settings_update) run" where
  "compute_expected_parameters_for_candidate L epoch_boundary_height block_proposed_update candidate_votes =
     compute_boundary_parameters_at L epoch_boundary_height block_proposed_update
       (word_of_int SOFT_FORK_VOTE \<in> set candidate_votes)"

definition apply_epoch_boundary_parameters ::
  "param_table \<Rightarrow> bytes \<Rightarrow> ('hc, 'sc) header_chain \<Rightarrow> ('hc, 'sc) header_chain" where
  "apply_epoch_boundary_parameters params proposed_update_bytes s =
     s\<lparr>active_parameters := params, active_proposed_update_bytes := proposed_update_bytes\<rparr>"

text \<open>The chain's own map from ids 1 to 8 to table entries.\<close>

definition chain_ordinary_param :: "int \<Rightarrow> parameter option" where
  "chain_ordinary_param i = (let a = \<bar>i\<bar> in
     if a = 1 then Some StorageFeeFactor else if a = 2 then Some MinValuePerByte
     else if a = 3 then Some MaxBlockSize else if a = 4 then Some MaxBlockCost
     else if a = 5 then Some TokenAccessCost else if a = 6 then Some InputCost
     else if a = 7 then Some DataInputCost else if a = 8 then Some OutputCost
     else None)"

definition install_parsed :: "int \<times> int \<Rightarrow> param_table \<Rightarrow> param_table" where
  "install_parsed = (\<lambda>(signed_id, v) t.
     case chain_ordinary_param signed_id of
       Some p \<Rightarrow> hm_insert p v t
     | None \<Rightarrow>
         if signed_id = ID_SUBBLOCKS_PER_BLOCK then hm_insert SubblocksPerBlock v t
         else if signed_id = ID_BLOCK_VERSION then hm_insert BlockVersion v t
         else if signed_id = ID_SOFT_FORK_VOTES_COLLECTED then hm_insert SoftForkVotesCollected v t
         else if signed_id = ID_SOFT_FORK_STARTING_HEIGHT then hm_insert SoftForkStartingHeight v t
         else t)"

text \<open>A \<open>BlockId\<close> as its 32 bytes.\<close>

definition block_id :: "bytes \<Rightarrow> id32" where
  "block_id bs = foldl (\<lambda>a b. push_bit 8 a + ucast b) 0 bs"

definition recompute_active_parameters_from_storage ::
  "('hc, 'sc, 'st) chain_lib \<Rightarrow> nat \<Rightarrow> (('hc, 'sc) header_chain, unit) run" where
  "recompute_active_parameters_from_storage L target_height s =
     (let len = voting_length (cc_voting (config s));
          boundary_height = target_height div len * len in
      if target_height < len then ret () s
      else if len = 0 then panic s
      else if boundary_height = 0 then ret () s
      else case extension_loader s of
        None \<Rightarrow> throw VotingError s
      | Some load \<Rightarrow>
          (case load boundary_height of
             None \<Rightarrow> throw VotingError s
           | Some extension_bytes \<Rightarrow>
               bnd (lift_result (parse_extension_bytes (sigma L) extension_bytes)) (\<lambda>(header_id, fs).
               bnd (observe_with (header_at L boundary_height)) (\<lambda>expected.
                 case expected of None \<Rightarrow> throw VotingError | Some expected \<Rightarrow>
               bnd (ensure (block_id header_id = h_id expected) VotingError) (\<lambda>_.
               bnd (lift_result (parse_parameters_from_kv fs)) (\<lambda>parsed.
               change (\<lambda>s.
                 let extracted = extract_disabling_rules_from_kv fs in
                 s\<lparr>active_parameters := fold install_parsed parsed (default_parameters (sigma L) (cc_network (config s))),
                   active_proposed_update_bytes :=
                     (if extracted = [] then default_proposed_update_bytes (sigma L) (cc_network (config s))
                      else extracted)\<rparr>))))) s))"

section \<open>The network tip tracker\<close>

text \<open>\<open>HeaderTracker\<close>: the highest header seen, with its id.\<close>

type_synonym header_tracker = "(nat \<times> id32) option"

definition tracker_observe :: "header \<Rightarrow> header_tracker \<Rightarrow> header_tracker" where
  "tracker_observe hdr best =
     (case best of
        None \<Rightarrow> Some (h_height hdr, h_id hdr)
      | Some (tip_height, _) \<Rightarrow> if h_height hdr > tip_height then Some (h_height hdr, h_id hdr) else best)"

definition best_height :: "header_tracker \<Rightarrow> nat option" where
  "best_height best = map_option fst best"

definition best_header_id :: "header_tracker \<Rightarrow> id32 option" where
  "best_header_id best = map_option snd best"

end
