(* ===== verification/Voting_Spec.thy ===== *)
theory Voting_Spec
  imports Voting
begin

text \<open>
  What voting guarantees: the tally counts exactly the seeded votes, the vote checks accept exactly the
  well-formed vote bytes, the parameter table stays complete, bounded and consistent across every
  sequence of epoch boundaries, a soft fork is activated exactly when its round collected the
  supermajority, and the extension codecs round-trip.
\<close>

section \<open>Tally\<close>

lemma sint_u8_eq_iff [simp]: "sint (a :: u8) = sint b \<longleftrightarrow> a = b"
  by (auto intro: signed_word_eqI)

lemma count_slot_map:
  "0 \<notin> set seed \<Longrightarrow> count_slot s (map (\<lambda>x. (sint x, f x)) seed) =
     map (\<lambda>x. (sint x, f x + (if x = s then 1 else 0))) seed"
  by (auto simp: comp_def)

lemma count_slots_map:
  "0 \<notin> set seed \<Longrightarrow> fold count_slot vs (map (\<lambda>x. (sint x, f x)) seed) =
     map (\<lambda>x. (sint x, f x + length (filter (\<lambda>v. v = x) vs))) seed"
proof (induction vs arbitrary: f)
  case (Cons v vs)
  show ?case
    unfolding fold_simps(2) comp_def count_slot_map [OF Cons.prems] Cons.IH [OF Cons.prems]
    by auto
qed simp

lemma count_window_map:
  "0 \<notin> set seed \<Longrightarrow> fold (\<lambda>(_, votes) t. fold count_slot votes t) rest (map (\<lambda>x. (sint x, f x)) seed) =
     map (\<lambda>x. (sint x, f x + length (filter (\<lambda>v. v = x) (concat (map snd rest))))) seed"
proof (induction rest arbitrary: f)
  case (Cons r rest)
  obtain h votes where r: "r = (h, votes)" by (cases r)
  show ?case
    unfolding fold_simps(2) comp_def r prod.case count_slots_map [OF Cons.prems] Cons.IH [OF Cons.prems]
    by (simp add: add.assoc)
qed simp

text \<open>The tally of an epoch counts exactly the votes for the ids seeded by the previous boundary header:
  one for the seed itself and one for each vote byte equal to it in the rest of the window, in slot
  order; a window that does not start at the previous boundary tallies nothing.\<close>

theorem tally_exact:
  "tally_votes_seeded window boundary_height len =
     (case window of
        [] \<Rightarrow> []
      | (h, seed) # rest \<Rightarrow>
          if boundary_height = h + len
          then map (\<lambda>slot. (sint slot, 1 + length (filter (\<lambda>v. v = slot) (concat (map snd rest)))))
                 (filter (\<lambda>slot. slot \<noteq> 0) seed)
          else [])"
proof (cases window)
  case (Cons w rest)
  obtain h seed where w: "w = (h, seed)" by (cases w)
  have c: "\<not> (len \<le> boundary_height \<and> boundary_height - len = h) \<longleftrightarrow> boundary_height \<noteq> h + len" by auto
  show ?thesis
    using count_window_map [of "filter (\<lambda>slot. slot \<noteq> 0) seed" rest "\<lambda>_. 1"]
    unfolding tally_votes_seeded_def Cons w list.case prod.case c by simp
qed (simp add: tally_votes_seeded_def)

section \<open>Vote checks\<close>

lemma check_votes_each_iff:
  "check_votes_each all vs = (if \<forall>v \<in> set vs. length (filter (\<lambda>x. x = v) all) = 1 \<and> wrap_i8 (- v) \<notin> set all
     then Inr () else Inl VotingError)"
  by (induction vs) auto

lemma distinct_count1: "(\<forall>v \<in> set vs. length (filter (\<lambda>x. x = v) vs) = 1) \<longleftrightarrow> distinct vs"
proof
  show "distinct vs \<Longrightarrow> \<forall>v \<in> set vs. length (filter (\<lambda>x. x = v) vs) = 1"
    by (induction vs) (auto simp: filter_empty_conv)
  show "distinct vs" if c: "\<forall>v \<in> set vs. length (filter (\<lambda>x. x = v) vs) = 1"
  proof (rule ccontr)
    assume "\<not> distinct vs"
    then obtain xs y ys zs where "vs = xs @ [y] @ ys @ [y] @ zs" using not_distinct_decomp by blast
    with c show False by (auto dest: bspec [of _ _ y])
  qed
qed

text \<open>A header's vote bytes are accepted exactly when its non-zero votes are pairwise distinct, none comes
  with its opposite (a vote of -128 is its own opposite), and at most two of them are for ordinary
  parameters.\<close>

theorem check_header_votes_exact:
  "check_header_votes votes =
     (let vs = map sint (filter (\<lambda>b. b \<noteq> 0) votes) in
      if distinct vs \<and> (\<forall>v \<in> set vs. wrap_i8 (- v) \<notin> set vs) \<and> length (filter (\<lambda>v. v \<noteq> 120) vs) \<le> 2
      then Inr () else Inl VotingError)"
  unfolding check_header_votes_def Let_def check_votes_each_iff PARAM_VOTES_COUNT_def SOFT_FORK_VOTE_def
    distinct_count1 [symmetric] by auto

theorem check_header_votes_exact_witness:
  "check_header_votes [3, 120, 0] = Inr () \<and> check_header_votes [3, 0xFD, 0] = Inl VotingError
   \<and> check_header_votes [0x80, 0, 0] = Inl VotingError"
  using check_header_votes_exact [of "[3, 120, 0]"] check_header_votes_exact [of "[3, 0xFD, 0]"]
    check_header_votes_exact [of "[0x80, 0, 0]"]
  by (simp add: wrap_i8_def)

section \<open>The table across boundaries\<close>

text \<open>The range each entry stays in: a step may overshoot a bound by less than its size.\<close>

fun value_ok :: "parameter \<Rightarrow> int \<Rightarrow> bool" where
  "value_ok StorageFeeFactor v = (- 25000 < v \<and> v < 2525000)"
| "value_ok MinValuePerByte v = (- 10 < v \<and> v < 10010)"
| "value_ok MaxBlockSize v = (16222 \<le> v \<and> v \<le> 1084479240)"
| "value_ok MaxBlockCost v = (16222 \<le> v \<and> v \<le> 1084479240)"
| "value_ok SubblocksPerBlock v = (2 \<le> v \<and> v \<le> 2048)"
| "value_ok SoftForkVotesCollected v = (- (2 ^ 31) \<le> v \<and> v < 2 ^ 31)"
| "value_ok SoftForkStartingHeight v = (- (2 ^ 31) \<le> v \<and> v < 2 ^ 31)"
| "value_ok BlockVersion v = (- (2 ^ 31) \<le> v \<and> v < 2 ^ 31)"
| "value_ok p v = (0 \<le> v \<and> v \<le> 1084479240)"

definition mandatory :: "parameter list" where
  "mandatory = [StorageFeeFactor, MinValuePerByte, MaxBlockSize, MaxBlockCost, TokenAccessCost, InputCost,
     DataInputCost, OutputCost, BlockVersion]"

definition table_ok :: "param_table \<Rightarrow> bool" where
  "table_ok t \<longleftrightarrow> (\<forall>p v. map_of t p = Some v \<longrightarrow> value_ok p v)
     \<and> (\<forall>p \<in> set mandatory. map_of t p \<noteq> None)
     \<and> (map_of t SoftForkStartingHeight = None \<longleftrightarrow> map_of t SoftForkVotesCollected = None)"

lemma table_ok_insert:
  "table_ok t \<Longrightarrow> value_ok p v \<Longrightarrow> p \<noteq> SoftForkStartingHeight \<Longrightarrow>
     p = SoftForkVotesCollected \<longrightarrow> map_of t SoftForkStartingHeight \<noteq> None \<Longrightarrow> table_ok (hm_insert p v t)"
  by (auto simp: table_ok_def)

lemma table_ok_drop_round: "table_ok t \<Longrightarrow> table_ok (drop_round t)"
  by (auto simp: table_ok_def drop_round_def mandatory_def split: if_splits)

lemma table_ok_start_round: "table_ok t \<Longrightarrow> table_ok (start_round h t)"
  using wrap_i32_range [of "int h"] by (auto simp: table_ok_def start_round_def)

lemma value_ok_wrap [simp]:
  "value_ok SoftForkVotesCollected (wrap_i32 v)" "value_ok BlockVersion (wrap_i32 v)"
  using wrap_i32_range [of v] by simp_all

lemma stepped_fixed:
  assumes "parameter_step i = Some s" "parameter_min i = Some lo" "parameter_max i = Some hi"
    and "0 < s" "s \<le> 25000" "0 \<le> lo" "hi \<le> 2500000" "lo - s < v" "v < hi + s"
  shows "lo - s < stepped i v \<and> stepped i v < hi + s"
proof -
  have "wrap_i32 (v + s) = v + s" "wrap_i32 (v - s) = v - s" using assms(4-9) by (simp_all)
  with assms show ?thesis by (simp add: stepped_def Let_def)
qed

lemma stepped_dynamic:
  assumes "parameter_step i = None" "parameter_min i = Some lo" "parameter_max i = Some 1073741823"
    and "0 \<le> v" "v \<le> 1084479240" "lo = 0 \<and> lo' = 0 \<or> lo = 16384 \<and> lo' = 16222" "lo' \<le> v"
  shows "lo' \<le> stepped i v \<and> stepped i v \<le> 1084479240"
proof -
  define d where "d = max 1 (v sdiv 100)"
  have "v sdiv 100 = v div 100" using assms(4) by (cases "v = 0") (auto simp: signed_divide_int_def)
  then have d: "1 \<le> d" "d = 1 \<or> d = v div 100" by (auto simp: d_def)
  then have "d \<le> 10844793" "v < 1073741823 \<Longrightarrow> v + d \<le> 1084479240" using assms(4,5) by auto
  moreover have "lo < v \<Longrightarrow> lo' \<le> v - d" using assms(6) d by auto
  moreover from calculation have "wrap_i32 (v + d) = v + d" "wrap_i32 (v - d) = v - d" using assms(4,5) d by auto
  ultimately show ?thesis using assms d by (auto simp: stepped_def Let_def d_def [symmetric])
qed

lemma ordinary_cases:
  assumes "ordinary_param i = Some p"
  shows "\<bar>i\<bar> = 1 \<and> p = StorageFeeFactor \<or> \<bar>i\<bar> = 2 \<and> p = MinValuePerByte \<or> \<bar>i\<bar> = 9 \<and> p = SubblocksPerBlock
    \<or> (\<bar>i\<bar> = 3 \<or> \<bar>i\<bar> = 4) \<and> p \<in> {MaxBlockSize, MaxBlockCost}
    \<or> \<bar>i\<bar> \<in> {5, 6, 7, 8} \<and> p \<in> {TokenAccessCost, InputCost, DataInputCost, OutputCost}"
  using assms by (auto simp: ordinary_param_def Let_def split: if_splits)

lemmas step_defs = parameter_min_def parameter_max_def parameter_step_def Let_def

lemma stepped_ok:
  assumes p: "ordinary_param i = Some p" and v: "value_ok p v"
  shows "value_ok p (stepped i v)"
proof -
  consider (fee) "\<bar>i\<bar> = 1" "p = StorageFeeFactor" | (min) "\<bar>i\<bar> = 2" "p = MinValuePerByte"
    | (sub) "\<bar>i\<bar> = 9" "p = SubblocksPerBlock"
    | (block) "\<bar>i\<bar> = 3 \<or> \<bar>i\<bar> = 4" "p \<in> {MaxBlockSize, MaxBlockCost}"
    | (cost) "\<bar>i\<bar> \<in> {5, 6, 7, 8}" "p \<in> {TokenAccessCost, InputCost, DataInputCost, OutputCost}"
    using ordinary_cases [OF p] by blast
  then show ?thesis
  proof cases
    case fee
    then show ?thesis using v stepped_fixed [of i 25000 0 2500000 v] by (simp add: step_defs)
  next
    case min
    then show ?thesis using v stepped_fixed [of i 10 0 10000 v] by (simp add: step_defs)
  next
    case sub
    then show ?thesis using v stepped_fixed [of i 1 2 2048 v] by (simp add: step_defs)
  next
    case block
    then show ?thesis using v stepped_dynamic [of i 16384 v 16222] by (auto simp: step_defs)
  next
    case cost
    then show ?thesis using v stepped_dynamic [of i 0 v 0] by (auto simp: step_defs)
  qed
qed

lemma ordinary_not_round:
  "ordinary_param i = Some p \<Longrightarrow> p \<noteq> SoftForkStartingHeight \<and> p \<noteq> SoftForkVotesCollected \<and> p \<noteq> BlockVersion"
  using ordinary_cases [of i p] by auto

text \<open>An approved vote the table cannot serve: for an unknown id, or for an absent entry.\<close>

definition unservable :: "voting_config \<Rightarrow> param_table \<Rightarrow> int \<times> nat \<Rightarrow> bool" where
  "unservable voting t e \<longleftrightarrow> (case e of (i, c) \<Rightarrow> i < 120 \<and> change_approved voting c
     \<and> (case ordinary_param i of None \<Rightarrow> True | Some p \<Rightarrow> map_of t p = None))"

lemma update_params_ok:
  assumes "table_ok base" and "table_ok t"
  shows "case update_params voting base tally t of
      Inl e \<Rightarrow> list_ex (unservable voting base) tally
    | Inr t' \<Rightarrow> table_ok t' \<and> map_of t' BlockVersion = map_of t BlockVersion
        \<and> map_of t' SoftForkStartingHeight = map_of t SoftForkStartingHeight
        \<and> map_of t' SoftForkVotesCollected = map_of t SoftForkVotesCollected"
  using assms(2)
proof (induction tally arbitrary: t)
  case (Cons e tally)
  obtain i c where e: "e = (i, c)" by (cases e)
  show ?case
  proof (cases "i \<ge> SOFT_FORK_VOTE \<or> \<not> change_approved voting c")
    case True
    with Cons.IH [OF Cons.prems] show ?thesis by (auto simp: e split: sum.splits)
  next
    case False
    show ?thesis
    proof (cases "ordinary_param i")
      case (Some p)
      show ?thesis
      proof (cases "map_of base p")
        case (Some v)
        then have "value_ok p v" using assms(1) by (simp add: table_ok_def)
        with Cons.prems have "table_ok (hm_insert p (stepped i v) t)"
          using ordinary_not_round [OF \<open>ordinary_param i = Some p\<close>]
          by (intro table_ok_insert stepped_ok [OF \<open>ordinary_param i = Some p\<close>]) auto
        from Cons.IH [OF this] False Some \<open>ordinary_param i = Some p\<close>
          ordinary_not_round [OF \<open>ordinary_param i = Some p\<close>]
        show ?thesis by (auto simp: e split: sum.splits)
      qed (use False Some in \<open>simp add: e unservable_def SOFT_FORK_VOTE_def\<close>)
    qed (use False in \<open>simp add: e unservable_def SOFT_FORK_VOTE_def\<close>)
  qed
qed simp

lemma and_forced_Inr [simp]: "and_forced cond (Inr v) P = Inr (cond \<and> P v)"
  by (simp add: and_forced_def)

lemma round_BlockVersion [simp]:
  "map_of (drop_round t) BlockVersion = map_of t BlockVersion"
  "map_of (start_round h t) BlockVersion = map_of t BlockVersion"
  by (simp_all add: drop_round_def start_round_def)

text \<open>What the running total and the height decide, once the total is known to exist.\<close>

lemma update_fork_round:
  fixes voting :: voting_config
  assumes "map_of t SoftForkStartingHeight = Some start" and "force_votes t tally = Inr v"
  defines "l \<equiv> int (voting_length voting)" and "ve \<equiv> int (soft_fork_epochs voting)"
    and "ae \<equiv> int (activation_epochs voting)"
  shows "update_fork voting h t tally fork_vote =
    (let ok = int h = start + l * (ve + ae + 1) \<and> soft_fork_approved voting v;
         bad = int h = start + l * (ve + 1) \<and> \<not> soft_fork_approved voting v;
         t2 = (if ok \<or> bad then drop_round t else t);
         t3 = (if fork_vote \<and> (int h = start + l * (ve + ae + 1) \<or> bad) then start_round h t2 else t2);
         t4 = (if int h \<le> start + l * ve then hm_insert SoftForkVotesCollected v t3 else t3) in
     if int h = start + l * (ve + ae) \<and> soft_fork_approved voting v
     then case map_of t BlockVersion of
            None \<Rightarrow> Inl VotingError
          | Some bv \<Rightarrow> Inr (hm_insert BlockVersion (wrap_i32 (bv + 1)) t4, True)
     else Inr (t4, False))"
  unfolding update_fork_def assms(1,2) Let_def option.case and_forced_Inr and_then_simps l_def ve_def ae_def
  by auto

lemma update_fork_ok:
  assumes ok: "table_ok t" and l: "0 < voting_length voting"
  shows "\<exists>t' act. update_fork voting h t tally fork_vote = Inr (t', act) \<and> table_ok t'
    \<and> map_of t' BlockVersion = (if act then map_option (\<lambda>bv. wrap_i32 (bv + 1)) (map_of t BlockVersion)
        else map_of t BlockVersion)
    \<and> (\<forall>p. p \<notin> {SoftForkStartingHeight, SoftForkVotesCollected, BlockVersion} \<longrightarrow> map_of t' p = map_of t p)"
proof (cases "map_of t SoftForkStartingHeight")
  case None
  then show ?thesis using table_ok_start_round [OF ok] ok
    by (auto simp: update_fork_def Let_def start_round_def)
next
  case (Some start)
  then obtain c where "map_of t SoftForkVotesCollected = Some c" using ok by (auto simp: table_ok_def)
  then obtain v where v: "force_votes t tally = Inr v" "value_ok SoftForkVotesCollected v"
    using wrap_i32_range by (auto simp: force_votes_def)
  let ?l = "int (voting_length voting)" and ?ve = "int (soft_fork_epochs voting)"
    and ?ae = "int (activation_epochs voting)"
  define bad where "bad \<longleftrightarrow> int h = start + ?l * (?ve + 1) \<and> \<not> soft_fork_approved voting v"
  define t2 where "t2 = (if int h = start + ?l * (?ve + ?ae + 1) \<and> soft_fork_approved voting v \<or> bad
    then drop_round t else t)"
  define t3 where "t3 = (if fork_vote \<and> (int h = start + ?l * (?ve + ?ae + 1) \<or> bad) then start_round h t2 else t2)"
  define t4 where "t4 = (if int h \<le> start + ?l * ?ve then hm_insert SoftForkVotesCollected v t3 else t3)"
  have "start + ?l * ?ve < start + ?l * (?ve + 1)" "start + ?l * ?ve < start + ?l * (?ve + ?ae + 1)"
    using l by (simp_all add: algebra_simps add_pos_nonneg)
  then have "int h \<le> start + ?l * ?ve \<Longrightarrow> t3 = t" by (auto simp: t3_def t2_def bad_def)
  moreover have "table_ok t3" using ok by (simp add: t3_def t2_def table_ok_drop_round table_ok_start_round)
  ultimately have t4: "table_ok t4" using v(2) Some ok by (simp add: t4_def table_ok_insert)
  have bv4: "map_of t4 BlockVersion = map_of t BlockVersion" by (simp add: t4_def t3_def t2_def)
  have rest: "p \<notin> {SoftForkStartingHeight, SoftForkVotesCollected, BlockVersion} \<Longrightarrow> map_of t4 p = map_of t p" for p
    by (simp add: t4_def t3_def t2_def drop_round_def start_round_def)
  obtain bv where bv: "map_of t BlockVersion = Some bv" using ok by (auto simp: table_ok_def mandatory_def)
  have "table_ok (hm_insert BlockVersion (wrap_i32 (bv + 1)) t4)" using t4 by (intro table_ok_insert value_ok_wrap) simp_all
  with t4 bv bv4 rest show ?thesis
    unfolding update_fork_round [OF Some v(1)] Let_def bad_def [symmetric] t2_def [symmetric] t3_def [symmetric]
      t4_def [symmetric] by auto
qed


text \<open>The external pieces, instantiated with the VLQ codec of the wire layer.\<close>

definition sample_lib :: "unit sigma_lib" where
  "sample_lib = \<lparr>parameters_new = (\<lambda>bv a b c d e f g h. [(BlockVersion, bv), (StorageFeeFactor, a),
       (MinValuePerByte, b), (MaxBlockSize, c), (MaxBlockCost, d), (TokenAccessCost, e), (InputCost, f),
       (DataInputCost, g), (OutputCost, h)]),
     get_u32 = (\<lambda>r. case read_vlq r of Inl _ \<Rightarrow> None | Inr (v, r') \<Rightarrow> Some (ucast v, r')),
     get_u16 = (\<lambda>r. case read_vlq r of Inl _ \<Rightarrow> None | Inr (v, r') \<Rightarrow> Some (ucast v, r')),
     put_u32 = (\<lambda>v. write_vlq (ucast v)), put_u16 = (\<lambda>v. write_vlq (ucast v)),
     rule_status_parse = (\<lambda>r. None), rule_status_serialize = (\<lambda>_. None), FIRST_RULE_ID = 1000\<rparr>"

definition lib_table_ok :: "'st sigma_lib \<Rightarrow> bool" where
  "lib_table_ok lib \<longleftrightarrow> (\<forall>bv a b c d e f g h. map_of (parameters_new lib bv a b c d e f g h) =
     [BlockVersion \<mapsto> bv, StorageFeeFactor \<mapsto> a, MinValuePerByte \<mapsto> b, MaxBlockSize \<mapsto> c, MaxBlockCost \<mapsto> d,
      TokenAccessCost \<mapsto> e, InputCost \<mapsto> f, DataInputCost \<mapsto> g, OutputCost \<mapsto> h])"

lemma sample_lib_table_ok: "lib_table_ok sample_lib"
  by (auto simp: lib_table_ok_def sample_lib_def fun_eq_iff)

lemma default_parameters_ok: "lib_table_ok lib \<Longrightarrow> table_ok (default_parameters lib net)"
  by (cases net) (auto simp: table_ok_def lib_table_ok_def default_parameters_def Let_def mandatory_def
      SUBBLOCKS_PER_BLOCK_DEFAULT_def split: if_splits)


section \<open>The life of a soft fork\<close>

type_synonym boundary_input = "(int \<times> nat) list \<times> bool \<times> bytes"

fun boundaries ::
  "'st sigma_lib \<Rightarrow> voting_config \<Rightarrow> nat \<Rightarrow> boundary_input list \<Rightarrow> param_table \<Rightarrow> chain_error + param_table" where
  "boundaries lib voting h [] t = Inr t"
| "boundaries lib voting h ((tally, fork_vote, update) # xs) t =
     and_then (compute_boundary_parameters lib voting h t tally fork_vote update)
       (\<lambda>(t', _). boundaries lib voting (h + voting_length voting) xs t')"

definition fork_votes :: "boundary_input list \<Rightarrow> nat" where
  "fork_votes xs = sum_list (map (\<lambda>(tally, _, _). votes_in_prev_epoch tally) xs)"

lemma boundaries_append:
  "boundaries lib voting h (xs @ ys) t =
     and_then (boundaries lib voting h xs t) (\<lambda>t'. boundaries lib voting (h + voting_length voting * length xs) ys t')"
proof (induction xs arbitrary: h t)
  case (Cons x xs)
  then show ?case
    by (cases x; cases "compute_boundary_parameters lib voting h t (fst x) (fst (snd x)) (snd (snd x))")
      (auto simp: algebra_simps)
qed simp

definition round_state :: "param_table \<Rightarrow> int option \<times> int option \<times> int option" where
  "round_state t = (map_of t SoftForkStartingHeight, map_of t SoftForkVotesCollected, map_of t BlockVersion)"

lemma round_state_eq: "round_state t = (a, b, c) \<longleftrightarrow> map_of t SoftForkStartingHeight = a
    \<and> map_of t SoftForkVotesCollected = b \<and> map_of t BlockVersion = c"
  by (auto simp: round_state_def)

text \<open>Only \<open>update_fork\<close> moves the round.\<close>

lemma compute_round_state:
  assumes c: "compute_boundary_parameters lib voting h t tally fork_vote update = Inr (t', u')"
    and ok: "table_ok t" and v2: "h \<noteq> version2_activation_height voting"
  shows "\<exists>t1 act. update_fork voting h t tally fork_vote = Inr (t1, act) \<and> round_state t' = round_state t1
    \<and> table_ok t' \<and> 0 < voting_length voting"
proof -
  from c have l: "0 < voting_length voting"
    by (auto simp: compute_boundary_parameters_def split: if_splits)
  from update_fork_ok [OF ok l, of h tally fork_vote] obtain t1 act where
    t1: "update_fork voting h t tally fork_vote = Inr (t1, act)" "table_ok t1" by blast
  from c obtain t3 rules where t3: "update_params voting t1 tally t1 = Inr t3" "t' = insert_subblocks rules t3"
    using v2 by (auto simp: compute_boundary_parameters_def t1(1) force_v2_def Let_def split: if_splits)
  have "table_ok t3" "round_state t3 = round_state t1"
    using update_params_ok [OF t1(2) t1(2), of voting tally] t3(1) by (simp_all add: round_state_def)
  moreover have "round_state t' = round_state t3" by (simp add: t3(2) insert_subblocks_def round_state_def)
  moreover have "table_ok t'"
    using \<open>table_ok t3\<close> by (auto simp: t3(2) insert_subblocks_def SUBBLOCKS_PER_BLOCK_DEFAULT_def intro: table_ok_insert)
  ultimately show ?thesis using t1(1) l by auto
qed

text \<open>The votes at a boundary \<open>i\<close> epochs after the start of the round.\<close>

lemma force_votes_sum:
  assumes "round_state t = (a, Some (int c), b)" and "c + votes_in_prev_epoch tally < 2 ^ 31"
  shows "force_votes t tally = Inr (int (c + votes_in_prev_epoch tally))"
  using assms by (simp add: force_votes_def round_state_eq add.commute)

lemma round_height_eq:
  assumes "0 < l"
  shows "int S + int l * int i = int S + int l * (int n) \<longleftrightarrow> i = n"
    "int S + int l * int i \<le> int S + int l * int n \<longleftrightarrow> i \<le> n"
  using assms by (simp_all flip: of_nat_mult)

lemma round_step:
  fixes voting :: voting_config
  assumes c: "compute_boundary_parameters lib voting (S + voting_length voting * i) t tally fork_vote update = Inr (t', u')"
    and ok: "table_ok t" and v2: "S + voting_length voting * i \<noteq> version2_activation_height voting"
    and st: "round_state t = (Some (int S), Some (int c), Some bv)"
    and small: "c + votes_in_prev_epoch tally < 2 ^ 31"
  defines "ve \<equiv> soft_fork_epochs voting" and "ae \<equiv> activation_epochs voting"
    and "v \<equiv> c + votes_in_prev_epoch tally"
  shows "table_ok t'"
    and "i \<le> ve \<Longrightarrow> 0 < ae \<Longrightarrow> round_state t' = (Some (int S), Some (int v), Some bv)"
    and "ve < i \<Longrightarrow> i < ve + ae \<Longrightarrow> soft_fork_approved voting (int v) \<Longrightarrow> round_state t' = round_state t"
    and "0 < ae \<Longrightarrow> i = ve + ae \<Longrightarrow> soft_fork_approved voting (int v) \<Longrightarrow>
       map_of t' BlockVersion = Some (wrap_i32 (bv + 1))"
    and "i = ve + 1 \<Longrightarrow> 0 < ae \<Longrightarrow> \<not> soft_fork_approved voting (int v) \<Longrightarrow> \<not> fork_vote \<Longrightarrow>
       round_state t' = (None, None, Some bv)"
proof -
  from compute_round_state [OF c ok v2] obtain t1 act where
    t1: "update_fork voting (S + voting_length voting * i) t tally fork_vote = Inr (t1, act)"
      "round_state t' = round_state t1" "table_ok t'" and l: "0 < voting_length voting" by blast
  show "table_ok t'" by fact
  have s: "map_of t SoftForkStartingHeight = Some (int S)" "map_of t BlockVersion = Some bv"
    using st by (simp_all add: round_state_eq)
  have fv: "force_votes t tally = Inr (int v)" unfolding v_def by (rule force_votes_sum [OF st small])
  have idx: "int (S + voting_length voting * i) = int S + int (voting_length voting) * (int n) \<longleftrightarrow> i = n"
    "int (S + voting_length voting * i) \<le> int S + int (voting_length voting) * int n \<longleftrightarrow> i \<le> n" for n
    using round_height_eq [OF l] by simp_all
  have arith: "int (soft_fork_epochs voting) = int ve"
    "int (soft_fork_epochs voting) + int (activation_epochs voting) + 1 = int (ve + ae + 1)"
    "int (soft_fork_epochs voting) + 1 = int (ve + 1)"
    "int (soft_fork_epochs voting) + int (activation_epochs voting) = int (ve + ae)"
    by (simp_all add: ve_def ae_def)
  let ?ap = "soft_fork_approved voting (int v)"
  define t2 where "t2 = (if i = ve + ae + 1 \<and> ?ap \<or> i = ve + 1 \<and> \<not> ?ap then drop_round t else t)"
  define t3 where "t3 = (if fork_vote \<and> (i = ve + ae + 1 \<or> i = ve + 1 \<and> \<not> ?ap)
    then start_round (S + voting_length voting * i) t2 else t2)"
  define t4 where "t4 = (if i \<le> ve then hm_insert SoftForkVotesCollected (int v) t3 else t3)"
  have uf: "t1 = (if i = ve + ae \<and> ?ap then hm_insert BlockVersion (wrap_i32 (bv + 1)) t4 else t4)"
  proof -
    have "update_fork voting (S + voting_length voting * i) t tally fork_vote =
        (if i = ve + ae \<and> ?ap then Inr (hm_insert BlockVersion (wrap_i32 (bv + 1)) t4, True) else Inr (t4, False))"
      unfolding update_fork_round [OF s(1) fv] Let_def s(2) option.case
      unfolding arith(2) unfolding arith(3,4) unfolding arith(1) unfolding idx
      unfolding t4_def t3_def t2_def by (rule refl)
    then show ?thesis unfolding t1(1) by (auto split: if_splits)
  qed
  show "i \<le> ve \<Longrightarrow> 0 < ae \<Longrightarrow> round_state t' = (Some (int S), Some (int v), Some bv)"
    using s by (simp add: t1(2) uf t4_def t3_def t2_def round_state_eq)
  show "ve < i \<Longrightarrow> i < ve + ae \<Longrightarrow> ?ap \<Longrightarrow> round_state t' = round_state t"
    by (simp add: t1(2) uf t4_def t3_def t2_def)
  show "0 < ae \<Longrightarrow> i = ve + ae \<Longrightarrow> ?ap \<Longrightarrow> map_of t' BlockVersion = Some (wrap_i32 (bv + 1))"
    using t1(2) by (simp add: uf round_state_def)
  show "i = ve + 1 \<Longrightarrow> 0 < ae \<Longrightarrow> \<not> ?ap \<Longrightarrow> \<not> fork_vote \<Longrightarrow> round_state t' = (None, None, Some bv)"
    using s by (simp add: t1(2) uf t4_def t3_def t2_def round_state_eq drop_round_def)
qed

lemma boundaries_snoc:
  assumes "boundaries lib voting (S + voting_length voting) (xs @ [(tally, fork_vote, update)]) t = Inr t'"
  obtains t1 u where "boundaries lib voting (S + voting_length voting) xs t = Inr t1"
    "compute_boundary_parameters lib voting (S + voting_length voting * Suc (length xs)) t1 tally fork_vote update
       = Inr (t', u)"
  using assms by (auto simp: boundaries_append add.assoc elim!: and_then_InrE)

lemma fork_votes_snoc [simp]:
  "fork_votes (xs @ [(tally, fork_vote, update)]) = fork_votes xs + votes_in_prev_epoch tally"
  by (simp add: fork_votes_def)

definition no_forced_version :: "voting_config \<Rightarrow> nat \<Rightarrow> bool" where
  "no_forced_version voting S \<longleftrightarrow> (\<forall>i. S + voting_length voting * i \<noteq> version2_activation_height voting)"

lemma no_forced_versionD:
  "no_forced_version voting S \<Longrightarrow> S + voting_length voting * i \<noteq> version2_activation_height voting"
  by (simp add: no_forced_version_def)

lemma round_collects:
  assumes "boundaries lib voting (S + voting_length voting) xs t = Inr t'" and "table_ok t"
    and "round_state t = (Some (int S), Some 0, Some bv)" and "no_forced_version voting S"
    and "0 < activation_epochs voting" and "fork_votes xs < 2 ^ 31" and "length xs \<le> soft_fork_epochs voting"
  shows "table_ok t' \<and> round_state t' = (Some (int S), Some (int (fork_votes xs)), Some bv)"
  using assms(1,6,7)
proof (induction xs arbitrary: t' rule: rev_induct)
  case Nil
  then show ?case using assms(2,3) by (simp add: fork_votes_def)
next
  case (snoc x xs)
  obtain tally fork_vote update where x: "x = (tally, fork_vote, update)" by (cases x)
  from snoc.prems(1)[unfolded x] obtain t1 u where
    t1: "boundaries lib voting (S + voting_length voting) xs t = Inr t1"
      "compute_boundary_parameters lib voting (S + voting_length voting * Suc (length xs)) t1 tally fork_vote update
         = Inr (t', u)" by (rule boundaries_snoc)
  have small: "fork_votes xs + votes_in_prev_epoch tally < 2 ^ 31" using snoc.prems(2) by (simp add: x)
  with snoc.IH [OF t1(1)] snoc.prems(3) have
    IH: "table_ok t1" "round_state t1 = (Some (int S), Some (int (fork_votes xs)), Some bv)" by simp_all
  note step = round_step [OF t1(2) IH(1) no_forced_versionD [OF assms(4)] IH(2) small]
  show ?case using step(1,2) assms(5) snoc.prems(3) by (simp add: x)
qed

lemma round_waits:
  assumes "boundaries lib voting (S + voting_length voting) (xs @ ys) t = Inr t'" and "table_ok t"
    and "round_state t = (Some (int S), Some 0, Some bv)" and "no_forced_version voting S"
    and "0 < activation_epochs voting" and "fork_votes (xs @ ys) < 2 ^ 31"
    and "length xs = soft_fork_epochs voting" and "soft_fork_approved voting (int (fork_votes xs))"
    and "length ys < activation_epochs voting"
  shows "table_ok t' \<and> round_state t' = (Some (int S), Some (int (fork_votes xs)), Some bv)"
  using assms(1,6,9)
proof (induction ys arbitrary: t' rule: rev_induct)
  case Nil
  then show ?case using round_collects [of lib voting S xs t t' bv] assms by simp
next
  case (snoc x ys)
  obtain tally fork_vote update where x: "x = (tally, fork_vote, update)" by (cases x)
  from snoc.prems(1)[unfolded x append_assoc [symmetric]] obtain t1 u where
    t1: "boundaries lib voting (S + voting_length voting) (xs @ ys) t = Inr t1"
      "compute_boundary_parameters lib voting (S + voting_length voting * Suc (length (xs @ ys))) t1 tally fork_vote update
         = Inr (t', u)" by (rule boundaries_snoc)
  have small: "fork_votes (xs @ ys) + votes_in_prev_epoch tally < 2 ^ 31"
    "fork_votes xs + votes_in_prev_epoch tally < 2 ^ 31"
    using snoc.prems(2) by (simp_all add: x fork_votes_def)
  with snoc.IH [OF t1(1)] snoc.prems(3) have
    IH: "table_ok t1" "round_state t1 = (Some (int S), Some (int (fork_votes xs)), Some bv)" by simp_all
  have ap: "soft_fork_approved voting (int (fork_votes xs + votes_in_prev_epoch tally))"
    using assms(8) by (simp add: soft_fork_approved_def)
  note step = round_step [OF t1(2) IH(1) no_forced_versionD [OF assms(4)] IH(2) small(2)]
  show ?case using step(1,3) ap assms(7) snoc.prems(3) IH(2) by simp
qed

lemma round_activates:
  assumes "boundaries lib voting (S + voting_length voting) xs t = Inr t'" and "table_ok t"
    and "round_state t = (Some (int S), Some 0, Some bv)" and "no_forced_version voting S"
    and "0 < activation_epochs voting" and "fork_votes xs < 2 ^ 31"
    and ap: "soft_fork_approved voting (int (fork_votes (take (soft_fork_epochs voting) xs)))"
    and len: "length xs = soft_fork_epochs voting + activation_epochs voting"
  shows "map_of t' BlockVersion = Some (wrap_i32 (bv + 1))"
proof -
  let ?ve = "soft_fork_epochs voting"
  obtain zs tally fork_vote update where xs: "xs = zs @ [(tally, fork_vote, update)]"
    using len assms(5) by (cases xs rule: rev_cases) auto
  from assms(1)[unfolded xs] obtain t1 u where
    t1: "boundaries lib voting (S + voting_length voting) zs t = Inr t1"
      "compute_boundary_parameters lib voting (S + voting_length voting * Suc (length zs)) t1 tally fork_vote update
         = Inr (t', u)" by (rule boundaries_snoc)
  have tk: "take ?ve xs = take ?ve zs" using xs len assms(5) by simp
  have fv: "fork_votes (take ?ve zs) + votes_in_prev_epoch tally \<le> fork_votes xs"
    by (simp add: xs) (metis append_take_drop_id fork_votes_def le_add1 map_append sum_list_append)
  have w: "table_ok t1 \<and> round_state t1 = (Some (int S), Some (int (fork_votes (take ?ve zs))), Some bv)"
    using round_waits [of lib voting S "take ?ve zs" "drop ?ve zs" t t1 bv] t1(1) assms(2-6) ap tk xs len by simp
  have "soft_fork_approved voting (int (fork_votes (take ?ve zs) + votes_in_prev_epoch tally))"
    using ap tk by (simp add: soft_fork_approved_def)
  moreover have "fork_votes (take ?ve zs) + votes_in_prev_epoch tally < 2 ^ 31" using fv assms(6) by simp
  ultimately show ?thesis
    using round_step(4) [OF t1(2) _ no_forced_versionD [OF assms(4)]] w assms(5) len xs by simp
qed

lemma round_fails:
  assumes "boundaries lib voting (S + voting_length voting) xs t = Inr t'" and "table_ok t"
    and "round_state t = (Some (int S), Some 0, Some bv)" and "no_forced_version voting S"
    and "0 < activation_epochs voting" and "fork_votes xs < 2 ^ 31"
    and f: "\<not> soft_fork_approved voting (int (fork_votes xs))" "length xs = soft_fork_epochs voting + 1"
      "\<not> fst (snd (last xs))"
  shows "round_state t' = (None, None, Some bv)"
proof -
  obtain zs tally fork_vote update where xs: "xs = zs @ [(tally, fork_vote, update)]"
    using f by (cases xs rule: rev_cases) auto
  from assms(1)[unfolded xs] obtain t1 u where
    t1: "boundaries lib voting (S + voting_length voting) zs t = Inr t1"
      "compute_boundary_parameters lib voting (S + voting_length voting * Suc (length zs)) t1 tally fork_vote update
         = Inr (t', u)" by (rule boundaries_snoc)
  have w: "table_ok t1 \<and> round_state t1 = (Some (int S), Some (int (fork_votes zs)), Some bv)"
    using round_collects [OF t1(1) assms(2-5)] assms(6) f xs by simp
  then show ?thesis
    using round_step(5) [OF t1(2) _ no_forced_versionD [OF assms(4)]] assms(5,6) f xs by simp
qed

text \<open>(C13) The life of a soft fork. Take a round started at boundary \<open>S\<close>, and the following boundaries one
  voting epoch apart (none of them the forced-v2 height). While the round is open the table holds its start and
  exactly the sum of the fork votes of the closed epochs. If the votes of the open epochs are a
  supermajority, the block version goes up by one precisely after the activation epochs; if even with the
  votes of the next epoch they are not, that boundary ends the round and the version never moved.\<close>

theorem soft_fork_lifecycle:
  assumes "boundaries lib voting (S + voting_length voting) xs t = Inr t'" and "table_ok t"
    and "round_state t = (Some (int S), Some 0, Some bv)" and "no_forced_version voting S"
    and "0 < activation_epochs voting" and "fork_votes xs < 2 ^ 31"
  shows "(length xs \<le> soft_fork_epochs voting \<longrightarrow>
       round_state t' = (Some (int S), Some (int (fork_votes xs)), Some bv))
    \<and> (soft_fork_approved voting (int (fork_votes (take (soft_fork_epochs voting) xs))) \<longrightarrow>
       (length xs < soft_fork_epochs voting + activation_epochs voting \<longrightarrow> map_of t' BlockVersion = Some bv)
       \<and> (length xs = soft_fork_epochs voting + activation_epochs voting
           \<longrightarrow> map_of t' BlockVersion = Some (wrap_i32 (bv + 1))))
    \<and> (\<not> soft_fork_approved voting (int (fork_votes xs)) \<and> length xs = soft_fork_epochs voting + 1
         \<and> \<not> fst (snd (last xs)) \<longrightarrow> round_state t' = (None, None, Some bv))"
proof (intro conjI impI)
  let ?ve = "soft_fork_epochs voting" and ?ae = "activation_epochs voting"
  show "round_state t' = (Some (int S), Some (int (fork_votes xs)), Some bv)" if "length xs \<le> ?ve"
    using round_collects [OF assms that] by simp
  show "map_of t' BlockVersion = Some bv"
    if "soft_fork_approved voting (int (fork_votes (take ?ve xs)))" "length xs < ?ve + ?ae"
  proof (cases "length xs \<le> ?ve")
    case True
    then show ?thesis using round_collects [OF assms True] by (simp add: round_state_eq)
  next
    case False
    then show ?thesis
      using round_waits [of lib voting S "take ?ve xs" "drop ?ve xs" t t' bv] assms that by (simp add: round_state_eq)
  qed
  show "map_of t' BlockVersion = Some (wrap_i32 (bv + 1))"
    if "soft_fork_approved voting (int (fork_votes (take ?ve xs)))" "length xs = ?ve + ?ae"
    using round_activates [OF assms that] .
  show "round_state t' = (None, None, Some bv)"
    if "\<not> soft_fork_approved voting (int (fork_votes xs)) \<and> length xs = ?ve + 1 \<and> \<not> fst (snd (last xs))"
    using round_fails [OF assms] that by blast
qed

definition sample_voting :: voting_config where
  "sample_voting = \<lparr>voting_length = 2, soft_fork_epochs = 1, activation_epochs = 1, version2_activation_height = 1\<rparr>"

definition sample_round :: "boundary_input list" where
  "sample_round = [([(120, 2)], False, []), ([], False, [])]"

lemma sample_boundaries:
  "\<exists>t'. boundaries sample_lib sample_voting 4 sample_round (start_round 2 (default_parameters sample_lib Mainnet)) = Inr t'"
  by (simp add: sample_round_def sample_voting_def compute_boundary_parameters_def parse_validation_settings_update_def
      update_fork_def Let_def start_round_def default_parameters_def sample_lib_def force_votes_def
      votes_in_prev_epoch_def SOFT_FORK_VOTE_def soft_fork_approved_def force_v2_def insert_subblocks_def)

theorem soft_fork_lifecycle_witness:
  "\<exists>t'. boundaries sample_lib sample_voting 4 sample_round (start_round 2 (default_parameters sample_lib Mainnet)) = Inr t'
     \<and> map_of t' BlockVersion = Some 2"
proof -
  let ?t = "start_round 2 (default_parameters sample_lib Mainnet)"
  obtain t' where t': "boundaries sample_lib sample_voting 4 sample_round ?t = Inr t'" using sample_boundaries by blast
  have st: "round_state ?t = (Some (int 2), Some 0, Some 1)"
    by (simp add: round_state_eq start_round_def default_parameters_def sample_lib_def Let_def)
  have ok: "table_ok ?t" by (intro table_ok_start_round default_parameters_ok sample_lib_table_ok)
  have v: "no_forced_version sample_voting 2" "0 < activation_epochs sample_voting" "fork_votes sample_round < 2 ^ 31"
    "soft_fork_approved sample_voting (int (fork_votes (take (soft_fork_epochs sample_voting) sample_round)))"
    "length sample_round = soft_fork_epochs sample_voting + activation_epochs sample_voting"
    by (auto simp: no_forced_version_def sample_voting_def sample_round_def fork_votes_def votes_in_prev_epoch_def
        SOFT_FORK_VOTE_def soft_fork_approved_def)
  have "boundaries sample_lib sample_voting (2 + voting_length sample_voting) sample_round ?t = Inr t'"
    using t' by (simp add: sample_voting_def)
  from soft_fork_lifecycle [OF this ok st v(1-3)] v(4,5) t' show ?thesis by simp
qed

section \<open>Codecs\<close>

text \<open>The documented behaviour of the external VLQ and rule-status codecs.\<close>

definition lib_codec_ok :: "'st sigma_lib \<Rightarrow> bool" where
  "lib_codec_ok lib \<longleftrightarrow> (\<forall>v r. get_u32 lib (put_u32 lib v @ r) = Some (v, r))
     \<and> (\<forall>v r. get_u16 lib (put_u16 lib v @ r) = Some (v, r))
     \<and> (\<forall>v. put_u32 lib v \<noteq> [])
     \<and> (\<forall>st bs r. rule_status_serialize lib st = Some bs \<longrightarrow> rule_status_parse lib (bs @ r) = Some (st, r))"

lemma parse_fields_pack:
  assumes "\<forall>f \<in> set fs. length (snd f) \<le> 64"
  shows "parse_fields (pre @ concat (map pack_field fs)) (length pre) (length fs) = Inr fs"
  using assms
proof (induction fs arbitrary: pre)
  case (Cons f fs)
  obtain k0 k1 v where f: "f = ((k0, k1), v)" by (metis prod.collapse)
  have v: "length v \<le> 64" using Cons.prems f by simp
  then have u: "unat (of_nat (length v) :: u8) = length v" by (simp add: unat_of_nat)
  let ?pre = "pre @ [k0, k1, of_nat (length v)] @ v"
  have IH: "parse_fields (?pre @ concat (map pack_field fs)) (length ?pre) (length fs) = Inr fs"
    using Cons by (intro Cons.IH) simp
  have len: "length ?pre = length pre + 3 + length v" by simp
  have pf: "pack_field f = [k0, k1, of_nat (length v)] @ v" by (simp add: f pack_field_def)
  show ?case using IH v u unfolding len by (simp add: pf nth_append Let_def) (simp add: f)
qed simp

lemma extension_roundtrip:
  assumes "lib_codec_ok lib" and "length hid = 32" and "length fs < 2 ^ 32"
    and "\<forall>f \<in> set fs. length (snd f) \<le> 64"
  shows "parse_extension_bytes lib (pack_extension_bytes lib hid fs) = Inr (hid, fs)"
proof -
  let ?n = "put_u32 lib (of_nat (length fs))" and ?body = "concat (map pack_field fs)"
  have g: "get_u32 lib (?n @ ?body) = Some (of_nat (length fs), ?body)" using assms(1) by (simp add: lib_codec_ok_def)
  have u: "unat (of_nat (length fs) :: u32) = length fs" using assms(3) by (simp add: unat_of_nat)
  have "parse_fields ((hid @ ?n) @ ?body) (length (hid @ ?n)) (length fs) = Inr fs"
    by (rule parse_fields_pack [OF assms(4)])
  then show ?thesis using assms(2) g u
    by (simp add: parse_extension_bytes_def pack_extension_bytes_def)
qed

lemma i32_bytes_roundtrip:
  assumes "- (2 ^ 31) \<le> v" and "v < 2 ^ 31"
  shows "i32_from_be_bytes (i32_to_be_bytes v) = v"
proof -
  have "sint (word_of_int v :: u32) = v" using assms by (simp add: int_word_sint)
  then show ?thesis by (simp add: i32_from_be_bytes_def i32_to_be_bytes_def u32_to_be_bytes_def)
qed

lemma sint_word_of_int_i8: "- (2 ^ 7) \<le> i \<Longrightarrow> i < 2 ^ 7 \<Longrightarrow> sint (word_of_int i :: u8) = i"
  by (simp add: int_word_sint)

definition i8_table_ok :: "(int, int) hmap \<Rightarrow> bool" where
  "i8_table_ok m \<longleftrightarrow> keys_distinct m \<and> list_all (\<lambda>(i, v). - (2 ^ 7) \<le> i \<and> i < 2 ^ 7 \<and> - (2 ^ 31) \<le> v \<and> v < 2 ^ 31) m"

lemma parse_parameters_loop_pack:
  assumes "list_all (\<lambda>(i, v). - (2 ^ 7) \<le> i \<and> i < 2 ^ 7 \<and> - (2 ^ 31) \<le> v \<and> v < 2 ^ 31
      \<and> i \<noteq> ID_SOFT_FORK_DISABLING_RULES) es" and "distinct (map fst es)"
  shows "\<exists>out'. parse_parameters_loop (map (\<lambda>(i, v). ((0, word_of_int i), i32_to_be_bytes v)) es) out = Inr out'
    \<and> map_of out' = map_of out ++ map_of es"
  using assms
proof (induction es arbitrary: out)
  case (Cons e es)
  obtain i v where e: "e = (i, v)" by (cases e)
  have s: "sint (word_of_int i :: u8) = i" and b: "i32_from_be_bytes (i32_to_be_bytes v) = v"
    and l: "length (i32_to_be_bytes v) = 4" and n: "i \<noteq> ID_SOFT_FORK_DISABLING_RULES"
    using Cons.prems sint_word_of_int_i8 [of i] i32_bytes_roundtrip [of v]
    by (auto simp: e i32_to_be_bytes_def)
  have "\<exists>out'. parse_parameters_loop (map (\<lambda>(i, v). ((0, word_of_int i), i32_to_be_bytes v)) es) (hm_insert i v out)
      = Inr out' \<and> map_of out' = map_of (hm_insert i v out) ++ map_of es"
    using Cons.prems by (intro Cons.IH) simp_all
  then obtain out' where
    out': "parse_parameters_loop (map (\<lambda>(i, v). ((0, word_of_int i), i32_to_be_bytes v)) es) (hm_insert i v out) = Inr out'"
      "map_of out' = map_of (hm_insert i v out) ++ map_of es" by blast
  have "map_of es i = None" using Cons.prems(2) by (simp add: e map_of_eq_None_iff)
  then have "map_of out' = map_of out ++ map_of (e # es)"
    by (auto simp: out'(2) e fun_eq_iff map_add_def split: option.split)
  moreover have "parse_parameters_loop (map (\<lambda>(i, v). ((0, word_of_int i), i32_to_be_bytes v)) (e # es)) out = Inr out'"
    using out'(1) n by (simp add: e Let_def s b l)
  ultimately show ?case by blast
qed simp

text \<open>(C28) Parameters survive the extension section: packing a table into fields, the fields into the body of a
  section, and parsing both back gives the same header id and, but for the rules entry 124, the same
  table.\<close>

theorem parameters_roundtrip:
  assumes "lib_codec_ok lib" and "length hid = 32" and "i8_table_ok m"
  shows "\<exists>kv out. parse_extension_bytes lib (pack_extension_bytes lib hid (pack_parameters_to_kv m)) = Inr (hid, kv)
    \<and> parse_parameters_from_kv kv = Inr out
    \<and> map_of out = (map_of m)(124 := None)"
proof -
  define es where "es = sort_key fst (filter (\<lambda>(i, _). i \<noteq> ID_SOFT_FORK_DISABLING_RULES) m)"
  have kv: "pack_parameters_to_kv m = map (\<lambda>(i, v). ((0, word_of_int i), i32_to_be_bytes v)) es"
    by (simp add: pack_parameters_to_kv_def es_def)
  have d: "distinct (map fst m)" using assms(3) by (simp add: i8_table_ok_def keys_distinct_def)
  have des: "distinct (map fst es)"
  proof -
    have "distinct (map fst (filter (\<lambda>(i, _). i \<noteq> ID_SOFT_FORK_DISABLING_RULES) m))"
      using d by (rule distinct_map_filter)
    then show ?thesis unfolding es_def by (simp add: distinct_map distinct_sort)
  qed
  have all: "list_all (\<lambda>(i, v). - (2 ^ 7) \<le> i \<and> i < 2 ^ 7 \<and> - (2 ^ 31) \<le> v \<and> v < 2 ^ 31
      \<and> i \<noteq> ID_SOFT_FORK_DISABLING_RULES) es"
    using assms(3) by (auto simp: es_def list_all_iff i8_table_ok_def)
  have "map_of es i = ((map_of m)(124 := None)) i" for i
    by (rule option_eqI) (use d des in \<open>auto simp: map_of_eq_Some_iff es_def ID_SOFT_FORK_DISABLING_RULES_def\<close>)
  then have mes: "map_of es = (map_of m)(124 := None)" by blast
  have "length es = card (set (map fst es))" using distinct_card [OF des] by simp
  also have "\<dots> \<le> card {- 128 .. 127 :: int}"
    using all by (intro card_mono) (auto simp: list_all_iff)
  finally have len: "length es < 2 ^ 32" by simp
  have "parse_extension_bytes lib (pack_extension_bytes lib hid (pack_parameters_to_kv m)) =
      Inr (hid, pack_parameters_to_kv m)"
    using len by (intro extension_roundtrip [OF assms(1,2)]) (auto simp: kv i32_to_be_bytes_def)
  with parse_parameters_loop_pack [OF all des, of "[]"] mes show ?thesis
    by (auto simp: kv parse_parameters_from_kv_def)
qed

lemma sample_lib_codec_ok: "lib_codec_ok sample_lib"
proof -
  have u: "ucast (ucast v :: u64) = v" for v :: u32 by (rule bit_word_eqI) (simp add: bit_simps)
  have u': "ucast (ucast v :: u64) = v" for v :: u16 by (rule bit_word_eqI) (simp add: bit_simps)
  show ?thesis
    by (simp add: lib_codec_ok_def sample_lib_def read_vlq_write write_vlq_nonempty u u')
qed

theorem parameters_roundtrip_witness:
  "\<exists>kv out. parse_extension_bytes sample_lib
      (pack_extension_bytes sample_lib (replicate 32 7) (pack_parameters_to_kv [(3, 524288), (-1, -5), (124, 1)])) = Inr (replicate 32 7, kv)
    \<and> parse_parameters_from_kv kv = Inr out \<and> map_of out 3 = Some 524288 \<and> map_of out 124 = None"
proof -
  have m: "i8_table_ok [(3, 524288), (-1, -5), (124, 1)]" by (simp add: i8_table_ok_def keys_distinct_def)
  have l: "length (replicate 32 (7 :: u8)) = 32" by simp
  obtain kv out where "parse_extension_bytes sample_lib (pack_extension_bytes sample_lib (replicate 32 7)
        (pack_parameters_to_kv [(3, 524288), (-1, -5), (124, 1)])) = Inr (replicate 32 7, kv)"
    "parse_parameters_from_kv kv = Inr out" "map_of out = (map_of [(3, 524288), (-1, -5), (124, 1)])(124 := None)"
    using parameters_roundtrip [OF sample_lib_codec_ok l m] by blast
  then show ?thesis by (intro exI [of _ kv] exI [of _ out]) simp
qed

lemma read_seq_concat:
  assumes "\<And>x r. x \<in> set xs \<Longrightarrow> get (put x @ r) = Some (x, r)"
  shows "read_seq get (length xs) (concat (map put xs) @ r) = Some (xs, r)"
  using assms by (induction xs) auto

lemma encode_status_read:
  assumes "lib_codec_ok lib" and "encode_status lib e = Inr bs" and "- (2 ^ 15) \<le> fst e" "fst e < 2 ^ 15"
  shows "status_entry lib (bs @ r) = Some (e, r)"
proof -
  obtain i st where e: "e = (i, st)" by (cases e)
  let ?o = "word_of_int (i - sint (FIRST_RULE_ID lib)) :: u16"
  from assms(2) obtain sb where sb: "rule_status_serialize lib st = Some sb" "bs = put_u16 lib ?o @ sb"
    by (auto simp: encode_status_def e Let_def split: if_splits option.splits)
  have "?o + FIRST_RULE_ID lib = (word_of_int i :: u16)" by simp
  moreover have "sint (word_of_int i :: u16) = i" using assms(3,4) by (simp add: e int_word_sint)
  ultimately have "sint (?o + FIRST_RULE_ID lib) = i" by (simp only:)
  then show ?thesis using assms(1) sb by (simp add: status_entry_def lib_codec_ok_def e)
qed

lemma encode_statuses_read:
  assumes "lib_codec_ok lib" and "encode_statuses lib es = Inr bs"
    and "list_all (\<lambda>(i, _). - (2 ^ 15) \<le> i \<and> i < 2 ^ 15) es"
  shows "read_seq (status_entry lib) (length es) (bs @ r) = Some (es, r)"
  using assms(2,3)
proof (induction es arbitrary: bs)
  case (Cons e es)
  from Cons.prems(1) obtain b bs' where b: "encode_status lib e = Inr b" "encode_statuses lib es = Inr bs'" "bs = b @ bs'"
    by auto
  have "read_seq (status_entry lib) (length es) (bs' @ r) = Some (es, r)"
    using Cons.prems(2) by (intro Cons.IH [OF b(2)]) simp
  moreover have "status_entry lib (b @ bs' @ r) = Some (e, bs' @ r)"
    using Cons.prems(2) by (intro encode_status_read [OF assms(1) b(1)]) (auto split: prod.splits)
  ultimately show ?case by (simp add: b(3))
qed simp

lemma jvm_count_of_nat: "n < 2 ^ 31 \<Longrightarrow> jvm_count (of_nat n) = n"
  by (simp add: jvm_count_def unat_of_nat)

text \<open>A settings update that can be encoded and disables only rules that may be disabled is parsed back
  exactly; the encoding is refused for a status below the first rule id, and a rules-only update is the
  special case of the launch defaults.\<close>

theorem settings_update_roundtrip:
  assumes "lib_codec_ok lib" and "encode_validation_settings_update lib u = Inr bs"
    and "list_all (\<lambda>r. \<not> rule_may_not_be_disabled r) (vsu_rules u)"
    and "list_all (\<lambda>(i, _). - (2 ^ 15) \<le> i \<and> i < 2 ^ 15) (vsu_statuses u)"
    and "length (vsu_rules u) < 2 ^ 31" and "length (vsu_statuses u) < 2 ^ 31"
  shows "parse_validation_settings_update lib bs = Inr u
    \<and> (vsu_statuses u = [] \<longrightarrow> bs = encode_disabled_rules lib (vsu_rules u))"
proof -
  from assms(2) obtain sb where sb: "encode_statuses lib (vsu_statuses u) = Inr sb"
    "bs = put_u32 lib (of_nat (length (vsu_rules u))) @ concat (map (put_u16 lib) (vsu_rules u))
       @ put_u32 lib (of_nat (length (vsu_statuses u))) @ sb"
    by (auto simp: encode_validation_settings_update_def)
  have ne: "bs \<noteq> []" using assms(1) by (simp add: sb(2) lib_codec_ok_def)
  have g: "get_u32 lib (put_u32 lib v @ r) = Some (v, r)" for v r using assms(1) by (simp add: lib_codec_ok_def)
  have rules: "read_seq (get_u16 lib) (length (vsu_rules u)) (concat (map (put_u16 lib) (vsu_rules u)) @ r)
      = Some (vsu_rules u, r)" for r
    using assms(1) by (intro read_seq_concat) (simp add: lib_codec_ok_def)
  have sts: "read_seq (status_entry lib) (length (vsu_statuses u)) sb = Some (vsu_statuses u, [])"
    using encode_statuses_read [OF assms(1) sb(1) assms(4), of "[]"] by simp
  have ok: "\<not> list_ex rule_may_not_be_disabled (vsu_rules u)" using assms(3) by (simp add: list_ex_iff list_all_iff)
  have "parse_validation_settings_update lib bs = Inr u"
    unfolding parse_validation_settings_update_def if_not_P [OF ne]
    by (simp add: sb(2) g rules sts ok jvm_count_of_nat [OF assms(5)] jvm_count_of_nat [OF assms(6)])
  moreover have "vsu_statuses u = [] \<Longrightarrow> bs = encode_disabled_rules lib (vsu_rules u)"
    using sb by (simp add: encode_disabled_rules_def)
  ultimately show ?thesis by blast
qed

theorem settings_update_roundtrip_witness:
  "parse_validation_settings_update sample_lib (default_proposed_update_bytes sample_lib Mainnet)
     = Inr \<lparr>vsu_rules = [215, 409], vsu_statuses = []\<rparr>"
proof -
  let ?u = "\<lparr>vsu_rules = [215, 409], vsu_statuses = []\<rparr> :: unit validation_settings_update"
  obtain bs where bs: "encode_validation_settings_update sample_lib ?u = Inr bs"
    by (simp add: encode_validation_settings_update_def)
  have "list_all (\<lambda>r. \<not> rule_may_not_be_disabled r) (vsu_rules ?u)"
    by (simp add: rule_may_not_be_disabled_def Let_def)
  then have r: "parse_validation_settings_update sample_lib bs = Inr ?u
      \<and> (vsu_statuses ?u = [] \<longrightarrow> bs = encode_disabled_rules sample_lib (vsu_rules ?u))"
    by (intro settings_update_roundtrip [OF sample_lib_codec_ok bs]) simp_all
  have e: "default_proposed_update_bytes sample_lib Mainnet = bs"
    using conjunct2 [OF r] by (simp add: default_proposed_update_bytes_def)
  show ?thesis unfolding e by (rule conjunct1 [OF r])
qed

end
