(* ===== verification/Header_Chain_Spec.thy ===== *)
theory Header_Chain_Spec
  imports Header_Chain Voting_Spec
begin

text \<open>
  What the header chain promises, over a plain list of headers: \<open>represents\<close> relates a chain state to the
  list of its headers and cumulative scores, every method is shown to act on the list, and the reachable
  states are those of a linked, valid list. The window \<open>U\<close> holds the heights an operation touches; it has to
  fit the caches, since a header that was pushed but not yet stored exists only there.
\<close>

section \<open>Chains as lists\<close>

definition at_height :: "nat \<Rightarrow> 'v list \<Rightarrow> nat \<Rightarrow> 'v option" where
  "at_height b xs h = (if b \<le> h \<and> h < b + length xs then Some (xs ! (h - b)) else None)"

definition linked :: "nat \<Rightarrow> header list \<Rightarrow> bool" where
  "linked b hs \<longleftrightarrow> (\<forall>k<length hs. h_height (hs ! k) = b + k)
     \<and> (\<forall>k. Suc k < length hs \<longrightarrow> h_parent_id (hs ! Suc k) = h_id (hs ! k))"

definition index_ok :: "nat \<Rightarrow> header list \<Rightarrow> (id32, nat) hmap \<Rightarrow> bool" where
  "index_ok b hs m \<longleftrightarrow> keys_distinct m \<and> distinct (map h_id hs)
     \<and> (\<forall>i h. map_of m i = Some h \<longleftrightarrow> (\<exists>k<length hs. h_id (hs ! k) = i \<and> h = b + k))"

definition represents ::
  "('hc, 'sc, 'st) chain_lib \<Rightarrow> nat set \<Rightarrow> nat \<Rightarrow> header list \<Rightarrow> nat list \<Rightarrow> ('hc, 'sc) header_chain \<Rightarrow> bool" where
  "represents L U b hs scs s \<longleftrightarrow>
     linked b hs \<and> length scs = length hs \<and> index_ok b hs (by_id s)
     \<and> base_height s = (if hs = [] then None else Some b)
     \<and> store_serves L U (lazy s) (at_height b hs) (at_height b scs)"

definition settings where
  "settings s = (config s, active_parameters s, active_proposed_update_bytes s, extension_loader s, light_client_mode s)"

lemma settings_eq:
  "settings s' = settings s \<longleftrightarrow> config s' = config s \<and> active_parameters s' = active_parameters s
     \<and> active_proposed_update_bytes s' = active_proposed_update_bytes s \<and> extension_loader s' = extension_loader s
     \<and> light_client_mode s' = light_client_mode s"
  by (auto simp: settings_def)

lemma at_height_Nil [simp]: "at_height b [] = Map.empty"
  by (auto simp: at_height_def)

lemma at_height_snoc: "at_height b (xs @ [x]) = (at_height b xs)(b + length xs \<mapsto> x)"
  by (rule ext) (auto simp: at_height_def nth_append)

lemma at_height_nth [simp]: "k < length xs \<Longrightarrow> at_height b xs (b + k) = Some (xs ! k)"
  by (simp add: at_height_def)

lemma at_height_last: "xs \<noteq> [] \<Longrightarrow> at_height b xs (b + length xs - 1) = Some (last xs)"
  by (cases xs rule: rev_cases) (simp_all add: at_height_snoc)

lemma at_height_append_le: "at_height b xs \<subseteq>\<^sub>m at_height b (xs @ ys)"
  by (auto simp: map_le_def at_height_def nth_append split: if_splits)

lemma at_height_butlast:
  "xs \<noteq> [] \<Longrightarrow> (at_height b xs)(b + length xs - 1 := None) = at_height b (butlast xs)"
  by (cases xs rule: rev_cases) (auto simp: at_height_snoc at_height_def fun_eq_iff)

lemma linked_snoc:
  "linked b (hs @ [x]) \<longleftrightarrow> linked b hs \<and> h_height x = b + length hs
     \<and> (hs \<noteq> [] \<longrightarrow> h_parent_id x = h_id (last hs))"
  unfolding linked_def
  by (cases hs rule: rev_cases) (auto simp: nth_append less_Suc_eq last_conv_nth)

lemma linked_take: "linked b hs \<Longrightarrow> linked b (take n hs)"
  by (simp add: linked_def)

lemma linked_appendD: "linked b (xs @ ys) \<Longrightarrow> linked b xs"
  using linked_take [of b "xs @ ys" "length xs"] by simp

lemma linked_height_mem: "linked b hs \<Longrightarrow> x \<in> set hs \<Longrightarrow> b \<le> h_height x \<and> h_height x < b + length hs"
  by (auto simp: linked_def in_set_conv_nth)

lemma index_get: "index_ok b hs m \<Longrightarrow> k < length hs \<Longrightarrow> map_of m (h_id (hs ! k)) = Some (b + k)"
  by (auto simp: index_ok_def)

lemma index_mem: "index_ok b hs m \<Longrightarrow> map_of m i \<noteq> None \<longleftrightarrow> i \<in> h_id ` set hs"
  unfolding index_ok_def by (fastforce simp: in_set_conv_nth)

lemma index_length:
  assumes "index_ok b hs m"
  shows "length m = length hs"
proof -
  have kd: "distinct (map fst m)" and d: "distinct (map h_id hs)"
    using assms by (auto simp: index_ok_def keys_distinct_def)
  have "dom (map_of m) = h_id ` set hs" using index_mem [OF assms] by (auto simp: dom_def)
  then have "fst ` set m = h_id ` set hs" by (simp add: dom_map_of_conv_image_fst)
  then have "set (map fst m) = set (map h_id hs)" by simp
  then show ?thesis using distinct_card [OF kd] distinct_card [OF d] by simp
qed

lemma index_snoc:
  assumes "index_ok b hs m" "h_id x \<notin> h_id ` set hs"
  shows "index_ok b (hs @ [x]) (hm_insert (h_id x) (b + length hs) m)"
proof -
  have "h_id (hs ! k) \<noteq> h_id x" if "k < length hs" for k using assms(2) that by (metis image_eqI nth_mem)
  with assms show ?thesis unfolding index_ok_def by (auto simp: less_Suc_eq nth_append)
qed

lemma index_remove:
  assumes "index_ok b (hs @ [x]) m"
  shows "index_ok b hs (hm_remove (h_id x) m)"
proof -
  have "h_id (hs ! k) \<noteq> h_id x" if "k < length hs" for k
    using assms that unfolding index_ok_def by (auto simp: image_iff) (metis nth_mem)
  with assms show ?thesis unfolding index_ok_def by (auto simp: less_Suc_eq nth_append)
qed

section \<open>Readers\<close>

text \<open>A reader returns the value of the view at each height of the window and keeps the state's meaning.\<close>

locale height_reader =
  fixes rd :: "nat \<Rightarrow> 's \<Rightarrow> 'v option \<times> 's"
    and ok :: "'s \<Rightarrow> bool"
    and window :: "nat set"
    and view :: "nat \<Rightarrow> 'v option"
  assumes reads_view: "ok s \<Longrightarrow> h \<in> window \<Longrightarrow> fst (rd h s) = view h"
    and reads_keep: "ok s \<Longrightarrow> h \<in> window \<Longrightarrow> ok (snd (rd h s))"
begin

lemma read_heights_view:
  "ok s \<Longrightarrow> set hs \<subseteq> window \<Longrightarrow> fst (read_heights rd hs s) = map view hs \<and> ok (snd (read_heights rd hs s))"
proof (induction hs arbitrary: s)
  case (Cons h hs)
  then have "fst (rd h s) = view h" "ok (snd (rd h s))" by (simp_all add: reads_view reads_keep)
  with Cons show ?case by (auto simp: split_beta)
qed simp

end

text \<open>The chain's two readers. The index has exactly the headers of the list, so \<open>header_at\<close> never rejects
  what the store serves.\<close>

lemma represents_height:
  "represents L U b hs scs s \<Longrightarrow> hs \<noteq> [] \<Longrightarrow> height s = b + length hs - 1 \<and> \<not> is_empty s"
  using index_length [of b hs "by_id s"] by (auto simp: represents_def height_def is_empty_def)

lemma represents_empty: "represents L U b hs scs s \<Longrightarrow> is_empty s \<longleftrightarrow> hs = []"
  using index_length [of b hs "by_id s"] by (auto simp: represents_def is_empty_def)

lemma represents_in_range:
  assumes "represents L U b hs scs s" "hs \<noteq> []" "\<not> h < b" "\<not> height s < h"
  obtains k where "h = b + k" "k < length hs"
proof
  have "length hs > 0" using assms(2) by simp
  then show "h = b + (h - b)" "h - b < length hs" using represents_height [OF assms(1, 2)] assms(3, 4) by linarith+
qed

lemma header_at_represents:
  assumes "represents L U b hs scs s" "h \<in> U"
  shows "fst (header_at L h s) = at_height b hs h"
    and "represents L U b hs scs (snd (header_at L h s)) \<and> settings (snd (header_at L h s)) = settings s"
proof -
  have "fst (header_at L h s) = at_height b hs h
    \<and> represents L U b hs scs (snd (header_at L h s)) \<and> settings (snd (header_at L h s)) = settings s"
  proof (cases "hs = [] \<or> h < b \<or> h > height s")
    case True
    then show ?thesis using assms represents_height [OF assms(1)]
      by (auto simp: header_at_def represents_def at_height_def split: option.splits)
  next
    case False
    then have r: "\<not> h < b" "\<not> height s < h" "hs \<noteq> []" by auto
    obtain k where k: "h = b + k" "k < length hs" by (rule represents_in_range [OF assms(1) r(3, 1, 2)])
    have st: "store_serves L U (lazy s) (at_height b hs) (at_height b scs)" and ix: "index_ok b hs (by_id s)"
      using assms(1) by (auto simp: represents_def)
    obtain z where z: "get_header L h (lazy s) = (Some (hs ! k), z)"
      using store_get_header(2) [OF st, of h "hs ! k"] k by (cases "get_header L h (lazy s)") simp
    have st': "store_serves L U z (at_height b hs) (at_height b scs)"
      using store_get_header(1) [OF st assms(2)] z by simp
    have "header_at L h s = (Some (hs ! k), s\<lparr>lazy := z\<rparr>)"
      using assms(1) k r z index_get [OF ix k(2)] by (simp add: header_at_def represents_def)
    with k st' assms(1) show ?thesis by (simp add: represents_def settings_def)
  qed
  then show "fst (header_at L h s) = at_height b hs h"
    "represents L U b hs scs (snd (header_at L h s)) \<and> settings (snd (header_at L h s)) = settings s" by auto
qed

lemma score_at_represents:
  assumes "represents L U b hs scs s" "h \<in> U"
  shows "fst (score_at L h s) = at_height b scs h"
    and "represents L U b hs scs (snd (score_at L h s)) \<and> settings (snd (score_at L h s)) = settings s"
proof -
  have len: "length scs = length hs" using assms(1) by (simp add: represents_def)
  have "fst (score_at L h s) = at_height b scs h
    \<and> represents L U b hs scs (snd (score_at L h s)) \<and> settings (snd (score_at L h s)) = settings s"
  proof (cases "hs = [] \<or> h < b \<or> h > height s")
    case True
    then show ?thesis using assms represents_height [OF assms(1)] len
      by (auto simp: score_at_def represents_def at_height_def split: option.splits)
  next
    case False
    then have r: "\<not> h < b" "\<not> height s < h" "hs \<noteq> []" by auto
    obtain k where "h = b + k" "k < length hs" by (rule represents_in_range [OF assms(1) r(3, 1, 2)])
    with len have k: "at_height b scs h = Some (scs ! (h - b))" by simp
    have st: "store_serves L U (lazy s) (at_height b hs) (at_height b scs)"
      using assms(1) by (auto simp: represents_def)
    obtain z where z: "get_score L h (lazy s) = (Some (scs ! (h - b)), z)"
      using store_get_score(2) [OF st k] by (cases "get_score L h (lazy s)") simp
    have st': "store_serves L U z (at_height b hs) (at_height b scs)"
      using store_get_score(1) [OF st assms(2)] z by simp
    have "score_at L h s = (Some (scs ! (h - b)), s\<lparr>lazy := z\<rparr>)"
      using assms(1) r z by (simp add: score_at_def represents_def)
    with k st' assms(1) show ?thesis by (simp add: represents_def settings_def)
  qed
  then show "fst (score_at L h s) = at_height b scs h"
    "represents L U b hs scs (snd (score_at L h s)) \<and> settings (snd (score_at L h s)) = settings s" by auto
qed

interpretation headers_reader:
  height_reader "header_at L" "\<lambda>s. represents L U b hs scs s \<and> settings s = c" U "at_height b hs" for L U b hs scs c
  by unfold_locales (auto dest: header_at_represents)

interpretation scores_reader:
  height_reader "score_at L" "\<lambda>s. represents L U b hs scs s \<and> settings s = c" U "at_height b scs" for L U b hs scs c
  by unfold_locales (auto dest: score_at_represents)

section \<open>Methods that only read\<close>

text \<open>\<open>spec_bind\<close> is \<open>bnd\<close> without a state: \<open>None\<close> is a panic.\<close>

definition spec_bind ::
  "(chain_error + 'a) option \<Rightarrow> ('a \<Rightarrow> (chain_error + 'b) option) \<Rightarrow> (chain_error + 'b) option" where
  "spec_bind r f = (case r of None \<Rightarrow> None | Some (Inl e) \<Rightarrow> Some (Inl e) | Some (Inr x) \<Rightarrow> f x)"

definition spec_ensure :: "bool \<Rightarrow> chain_error \<Rightarrow> (chain_error + unit) option" where
  "spec_ensure b e = Some (if b then Inr () else Inl e)"

definition reads where
  "reads L U b hs scs s m ro \<longleftrightarrow>
     (case ro of
        None \<Rightarrow> m s = None
      | Some r \<Rightarrow> \<exists>s'. m s = Some (r, s') \<and> represents L U b hs scs s' \<and> settings s' = settings s)"

lemma reads_cong: "m s = m' s \<Longrightarrow> reads L U b hs scs s m ro = reads L U b hs scs s m' ro"
  by (cases ro) (simp_all add: reads_def)

lemma spec_bind_Inr: "spec_bind (Some (Inr x)) f = f x"
  by (simp add: spec_bind_def)

lemma readsE:
  assumes "reads L U b hs scs s m (Some r)"
  obtains s' where "m s = Some (r, s')" "represents L U b hs scs s'" "settings s' = settings s"
  using assms by (auto simp: reads_def)

lemma reads_bnd:
  assumes "reads L U b hs scs s m ro"
    and "\<And>x s'. represents L U b hs scs s' \<Longrightarrow> settings s' = settings s \<Longrightarrow> ro = Some (Inr x) \<Longrightarrow>
           reads L U b hs scs s' (f x) (g x)"
  shows "reads L U b hs scs s (bnd m f) (spec_bind ro g)"
proof (cases ro)
  case (Some r)
  with assms(1) obtain s' where s': "m s = Some (r, s')" "represents L U b hs scs s'" "settings s' = settings s"
    by (auto elim: readsE)
  then show ?thesis
  proof (cases r)
    case (Inr x)
    have "reads L U b hs scs s' (f x) (g x)" using assms(2) s' Some Inr by blast
    with s' Some Inr show ?thesis by (auto simp: reads_def bnd_def spec_bind_def split: option.splits)
  qed (use Some in \<open>auto simp: reads_def bnd_def spec_bind_def\<close>)
qed (use assms(1) in \<open>simp add: reads_def bnd_def spec_bind_def\<close>)

lemma reads_ensure: "represents L U b hs scs s \<Longrightarrow> reads L U b hs scs s (ensure c e) (spec_ensure c e)"
  and reads_ret: "represents L U b hs scs s \<Longrightarrow> reads L U b hs scs s (ret x) (Some (Inr x))"
  and reads_throw: "represents L U b hs scs s \<Longrightarrow> reads L U b hs scs s (throw e) (Some (Inl e))"
  and reads_lift: "represents L U b hs scs s \<Longrightarrow> reads L U b hs scs s (lift_result r) (Some r)"
  and reads_panicking: "represents L U b hs scs s \<Longrightarrow> reads L U b hs scs s (lift_panicking ro) ro"
  by (simp_all add: reads_def ensure_def spec_ensure_def ret_def throw_def lift_result_def lift_panicking_def
      split: option.split)

lemma reads_header_at:
  assumes "represents L U b hs scs s" "h \<in> U"
  shows "reads L U b hs scs s (observe_with (header_at L h)) (Some (Inr (at_height b hs h)))"
  using header_at_represents [OF assms] by (auto simp: reads_def observe_with_def split_beta)

lemma reads_score_at:
  assumes "represents L U b hs scs s" "h \<in> U"
  shows "reads L U b hs scs s (observe_with (score_at L h)) (Some (Inr (at_height b scs h)))"
  using score_at_represents [OF assms] by (auto simp: reads_def observe_with_def split_beta)

lemma reads_tip:
  assumes "represents L U b hs scs s" "hs \<noteq> []" "b + length hs - 1 \<in> U"
  shows "reads L U b hs scs s (tip L) (Some (Inr (last hs)))"
proof -
  note h = represents_height [OF assms(1, 2)]
  have "reads L U b hs scs s (observe_with (header_at L (height s))) (Some (Inr (Some (last hs))))"
    using reads_header_at [OF assms(1), of "height s"] h assms(3) at_height_last [OF assms(2), of b] by simp
  then obtain s' where "observe_with (header_at L (height s)) s = Some (Inr (Some (last hs)), s')"
    "represents L U b hs scs s'" "settings s' = settings s" by (rule readsE)
  with h show ?thesis by (simp add: reads_def tip_def bnd_def ret_def)
qed

section \<open>Validation over lists\<close>

text \<open>The window covers a range of parents: their own heights and the epoch headers their difficulty needs.\<close>

definition covers :: "nat set \<Rightarrow> chain_config \<Rightarrow> nat \<Rightarrow> nat \<Rightarrow> bool" where
  "covers U cfg lo hi \<longleftrightarrow>
     {lo..hi} \<subseteq> U \<and> (\<forall>p. lo \<le> h_height p \<and> h_height p \<le> hi \<longrightarrow> set (recalculation_heights cfg p) \<subseteq> U)"

definition child_check ::
  "('hc, 'sc, 'st) chain_lib \<Rightarrow> chain_config \<Rightarrow> param_table \<Rightarrow> bool \<Rightarrow> u64 \<Rightarrow> nat \<Rightarrow> header list \<Rightarrow> header \<Rightarrow> (chain_error + unit) option" where
  "child_check L cfg params light now_ms b hs hdr =
     (let t = last hs; max_allowed = now_ms + max_time_drift_ms cfg in
      spec_bind (spec_ensure (h_parent_id hdr = h_id t) (ParentNotFound (h_parent_id hdr))) (\<lambda>_.
      spec_bind (spec_ensure (h_height hdr = h_height t + 1) (NonSequentialHeight (h_height t + 1) (h_height hdr))) (\<lambda>_.
      spec_bind (spec_ensure (h_timestamp hdr > h_timestamp t) (TimestampNotIncreasing (h_timestamp t) (h_timestamp hdr))) (\<lambda>_.
      spec_bind (spec_ensure (h_timestamp hdr \<le> max_allowed) (TimestampTooFarInFuture (h_timestamp hdr) max_allowed)) (\<lambda>_.
      spec_bind (if light then Some (Inr ())
           else spec_bind (expected_difficulty (pow L) cfg (at_height b hs) t) (\<lambda>expected_n_bits.
             spec_ensure (h_n_bits hdr = expected_n_bits) (WrongDifficulty (h_height hdr) expected_n_bits (h_n_bits hdr)))) (\<lambda>_.
      spec_bind (verify_pow (pow L) hdr) (\<lambda>_.
      spec_bind (Some (check_header_votes (h_votes hdr))) (\<lambda>_.
      Some (and_then (check_fork_vote (cc_voting cfg) (h_height hdr) (h_votes hdr) params)
        (\<lambda>ok. if ok then Inr () else Inl VotingError))))))))))"

definition reorg_check ::
  "('hc, 'sc, 'st) chain_lib \<Rightarrow> chain_config \<Rightarrow> param_table \<Rightarrow> bool \<Rightarrow> u64 \<Rightarrow> nat \<Rightarrow> header list \<Rightarrow> header \<Rightarrow> (chain_error + unit) option" where
  "reorg_check L cfg params pow_check now_ms b hs hdr =
     (let t = last hs; max_allowed = now_ms + max_time_drift_ms cfg in
      spec_bind (spec_ensure (h_timestamp hdr > h_timestamp t) (TimestampNotIncreasing (h_timestamp t) (h_timestamp hdr))) (\<lambda>_.
      spec_bind (spec_ensure (h_timestamp hdr \<le> max_allowed) (TimestampTooFarInFuture (h_timestamp hdr) max_allowed)) (\<lambda>_.
      spec_bind (expected_difficulty (pow L) cfg (at_height b hs) t) (\<lambda>expected_n_bits.
      spec_bind (spec_ensure (h_n_bits hdr = expected_n_bits) (WrongDifficulty (h_height hdr) expected_n_bits (h_n_bits hdr))) (\<lambda>_.
      spec_bind (if pow_check then verify_pow (pow L) hdr else Some (Inr ())) (\<lambda>_.
      spec_bind (Some (check_header_votes (h_votes hdr))) (\<lambda>_.
      Some (and_then (check_fork_vote (cc_voting cfg) (h_height hdr) (h_votes hdr) params)
        (\<lambda>ok. if ok then Inr () else Inl VotingError)))))))))"

lemma expected_difficulty_cong:
  assumes "\<And>h. h \<in> set (recalculation_heights cfg p) \<Longrightarrow> v h = v' h"
  shows "expected_difficulty lib cfg v p = expected_difficulty lib cfg v' p"
proof -
  have mf: "List.map_filter v xs = List.map_filter v' xs" if "\<And>h. h \<in> set xs \<Longrightarrow> v h = v' h" for xs
    using that by (induction xs) (auto simp: List.map_filter_simps split: option.split)
  show ?thesis
    using assms mf unfolding expected_difficulty_def recalculation_heights_def Let_def by (auto split: if_splits)
qed

lemma reads_difficulty:
  assumes r: "represents L U b hs scs s" and U: "set (recalculation_heights (config s) p) \<subseteq> U"
  shows "reads L U b hs scs s (chain_difficulty L p) (expected_difficulty (pow L) (config s) (at_height b hs) p)"
proof -
  let ?hts = "recalculation_heights (config s) p"
  obtain rs s' where rs: "read_heights (header_at L) ?hts s = (rs, s')" by fastforce
  have v: "rs = map (at_height b hs) ?hts" "represents L U b hs scs s'" "settings s' = settings s"
    using headers_reader.read_heights_view [of L U b hs scs s "settings s" ?hts] r U rs by auto
  have "map_of (zip ?hts rs) h = Some (at_height b hs h)" if "h \<in> set ?hts" for h
    using that unfolding v(1) by (simp add: map_of_zip_map)
  then have "expected_difficulty (pow L) (config s) (\<lambda>h. case map_of (zip ?hts rs) h of None \<Rightarrow> None | Some r \<Rightarrow> r) p
    = expected_difficulty (pow L) (config s) (at_height b hs) p"
    by (intro expected_difficulty_cong) simp
  with rs v show ?thesis
    by (auto simp: chain_difficulty_def reads_def lift_panicking_def split: option.split)
qed

lemma reads_fork_gate:
  "represents L U b hs scs s \<Longrightarrow> reads L U b hs scs s (check_fork_vote_gate hdr)
     (Some (and_then (check_fork_vote (cc_voting (config s)) (h_height hdr) (h_votes hdr) (active_parameters s))
        (\<lambda>ok. if ok then Inr () else Inl VotingError)))"
  by (simp add: reads_def check_fork_vote_gate_def lift_result_def)

lemmas reads_steps = reads_bnd reads_ensure reads_ret reads_lift reads_panicking

lemma reads_validate_child:
  assumes r: "represents L U b hs scs s" and ne: "hs \<noteq> []" and U: "covers U (config s) (b + length hs - 1) (b + length hs - 1)"
  shows "reads L U b hs scs s (validate_child L now_ms hdr)
    (child_check L (config s) (active_parameters s) (light_client_mode s) now_ms b hs hdr)"
proof -
  have ht: "h_height (last hs) = b + length hs - 1"
    using r ne by (cases hs rule: rev_cases) (auto simp: represents_def linked_snoc)
  have UU: "b + length hs - 1 \<in> U" "set (recalculation_heights (config s) (last hs)) \<subseteq> U"
    using U ht by (auto simp: covers_def)
  define cd where "cd t = (if light_client_mode s then ret ()
      else bnd (chain_difficulty L t) (\<lambda>expected_n_bits.
        ensure (h_n_bits hdr = expected_n_bits) (WrongDifficulty (h_height hdr) expected_n_bits (h_n_bits hdr))))" for t
  define cs where "cs = (if light_client_mode s then Some (Inr ())
      else spec_bind (expected_difficulty (pow L) (config s) (at_height b hs) (last hs)) (\<lambda>expected_n_bits.
        spec_ensure (h_n_bits hdr = expected_n_bits) (WrongDifficulty (h_height hdr) expected_n_bits (h_n_bits hdr))))"
  have cd: "reads L U b hs scs s' (cd (last hs)) cs"
    if "represents L U b hs scs s'" "settings s' = settings s" for s'
    using that reads_difficulty [of L U b hs scs s' "last hs"] UU
    by (auto simp: cd_def cs_def settings_eq intro!: reads_steps)
  let ?body = "\<lambda>t. bnd (ensure (h_parent_id hdr = h_id t) (ParentNotFound (h_parent_id hdr))) (\<lambda>_.
      bnd (ensure (h_height hdr = h_height t + 1) (NonSequentialHeight (h_height t + 1) (h_height hdr))) (\<lambda>_.
      bnd (ensure (h_timestamp hdr > h_timestamp t) (TimestampNotIncreasing (h_timestamp t) (h_timestamp hdr))) (\<lambda>_.
      bnd (ensure (h_timestamp hdr \<le> now_ms + max_time_drift_ms (config s))
        (TimestampTooFarInFuture (h_timestamp hdr) (now_ms + max_time_drift_ms (config s)))) (\<lambda>_.
      bnd (cd t) (\<lambda>_. bnd (lift_panicking (verify_pow (pow L) hdr)) (\<lambda>_.
      bnd (lift_result (check_header_votes (h_votes hdr))) (\<lambda>_. check_fork_vote_gate hdr)))))))"
  have gate: "reads L U b hs scs s' (check_fork_vote_gate hdr)
     (Some (and_then (check_fork_vote (cc_voting (config s)) (h_height hdr) (h_votes hdr) (active_parameters s))
        (\<lambda>ok. if ok then Inr () else Inl VotingError)))"
    if "represents L U b hs scs s'" "settings s' = settings s" for s'
    using reads_fork_gate [OF that(1)] that(2) by (simp add: settings_eq)
  have "reads L U b hs scs s (bnd (tip L) ?body) (spec_bind (Some (Inr (last hs)))
      (\<lambda>_. child_check L (config s) (active_parameters s) (light_client_mode s) now_ms b hs hdr))"
    unfolding child_check_def Let_def cs_def [symmetric]
    by (intro reads_bnd reads_tip [OF r ne UU(1)]; (simp only: option.inject sum.inject)?)
       (auto intro!: reads_steps cd gate)
  then have body: "reads L U b hs scs s (bnd (tip L) ?body)
      (child_check L (config s) (active_parameters s) (light_client_mode s) now_ms b hs hdr)" unfolding spec_bind_Inr .
  have eq: "validate_child L now_ms hdr s = bnd (tip L) ?body s"
    unfolding validate_child_def cd_def Let_def ..
  show ?thesis by (rule iffD2 [OF reads_cong [where m = "validate_child L now_ms hdr" and m' = "bnd (tip L) ?body" and s = s, OF eq] body])
qed

lemma reads_validate_reorg_header:
  assumes r: "represents L U b hs scs s" and ne: "hs \<noteq> []" and U: "covers U (config s) (b + length hs - 1) (b + length hs - 1)"
  shows "reads L U b hs scs s (validate_reorg_header L now_ms pow_check hdr)
    (reorg_check L (config s) (active_parameters s) pow_check now_ms b hs hdr)"
proof -
  have ht: "h_height (last hs) = b + length hs - 1"
    using r ne by (cases hs rule: rev_cases) (auto simp: represents_def linked_snoc)
  have UU: "b + length hs - 1 \<in> U" "set (recalculation_heights (config s) (last hs)) \<subseteq> U"
    using U ht by (auto simp: covers_def)
  have cd: "reads L U b hs scs s' (chain_difficulty L (last hs)) (expected_difficulty (pow L) (config s) (at_height b hs) (last hs))"
    if "represents L U b hs scs s'" "settings s' = settings s" for s'
    using that reads_difficulty [of L U b hs scs s' "last hs"] UU by (simp add: settings_eq)
  have gate: "reads L U b hs scs s' (check_fork_vote_gate hdr)
     (Some (and_then (check_fork_vote (cc_voting (config s)) (h_height hdr) (h_votes hdr) (active_parameters s))
        (\<lambda>ok. if ok then Inr () else Inl VotingError)))"
    if "represents L U b hs scs s'" "settings s' = settings s" for s'
    using reads_fork_gate [OF that(1)] that(2) by (simp add: settings_eq)
  define vp where "vp = (if pow_check then lift_panicking (verify_pow (pow L) hdr) else ret () :: ('a, 'b) header_chain \<Rightarrow> _)"
  define vs where "vs = (if pow_check then verify_pow (pow L) hdr else Some (Inr ()))"
  have vp: "reads L U b hs scs s' vp vs" if "represents L U b hs scs s'" for s'
    using that by (auto simp: vp_def vs_def intro: reads_steps)
  let ?body = "\<lambda>t. bnd (ensure (h_timestamp hdr > h_timestamp t) (TimestampNotIncreasing (h_timestamp t) (h_timestamp hdr))) (\<lambda>_.
      bnd (ensure (h_timestamp hdr \<le> now_ms + max_time_drift_ms (config s))
        (TimestampTooFarInFuture (h_timestamp hdr) (now_ms + max_time_drift_ms (config s)))) (\<lambda>_.
      bnd (chain_difficulty L t) (\<lambda>expected_n_bits.
      bnd (ensure (h_n_bits hdr = expected_n_bits) (WrongDifficulty (h_height hdr) expected_n_bits (h_n_bits hdr))) (\<lambda>_.
      bnd vp (\<lambda>_. bnd (lift_result (check_header_votes (h_votes hdr))) (\<lambda>_. check_fork_vote_gate hdr))))))"
  have "reads L U b hs scs s (bnd (tip L) ?body) (spec_bind (Some (Inr (last hs)))
      (\<lambda>_. reorg_check L (config s) (active_parameters s) pow_check now_ms b hs hdr))"
    unfolding reorg_check_def Let_def vs_def [symmetric]
    by (intro reads_bnd reads_tip [OF r ne UU(1)]; (simp only: option.inject sum.inject)?)
       (auto intro!: reads_steps cd gate vp)
  then have body: "reads L U b hs scs s (bnd (tip L) ?body)
      (reorg_check L (config s) (active_parameters s) pow_check now_ms b hs hdr)" unfolding spec_bind_Inr .
  have eq: "validate_reorg_header L now_ms pow_check hdr s = bnd (tip L) ?body s"
    unfolding validate_reorg_header_def vp_def Let_def ..
  show ?thesis by (rule iffD2 [OF reads_cong [where m = "validate_reorg_header L now_ms pow_check hdr" and m' = "bnd (tip L) ?body" and s = s, OF eq] body])
qed

section \<open>Methods that change the list\<close>

definition extends :: "nat \<Rightarrow> header list \<Rightarrow> header \<Rightarrow> bool" where
  "extends b hs x \<longleftrightarrow> h_height x = b + length hs \<and> (hs \<noteq> [] \<longrightarrow> h_parent_id x = h_id (last hs))
     \<and> h_id x \<notin> h_id ` set hs"

lemma put_represents:
  assumes r: "represents L U b hs scs s" and e: "extends b hs x" and U: "b + length hs \<in> U"
  shows "represents L U b (hs @ [x]) (scs @ [v])
    (s\<lparr>base_height := Some b, by_id := hm_insert (h_id x) (h_height x) (by_id s), lazy := store_put L (h_height x) x v (lazy s)\<rparr>)"
  using assms store_serves_put [of L U "lazy s" "at_height b hs" "at_height b scs" "b + length hs" x v]
    index_snoc [of b hs "by_id s" x]
  by (auto simp: represents_def extends_def linked_snoc at_height_snoc)

lemma represents_base: "represents L U b hs scs s \<Longrightarrow> hs \<noteq> [] \<Longrightarrow> s\<lparr>base_height := Some b\<rparr> = s"
  by (cases s) (simp add: represents_def)

lemma push_represents:
  assumes r: "represents L U b hs scs s" and ne: "hs \<noteq> []" and e: "extends b hs x"
    and U: "b + length hs - 1 \<in> U" "b + length hs \<in> U"
  obtains s' where "push_header L x s = Some (Inr (), s')"
    "represents L U b (hs @ [x]) (scs @ [last scs + header_difficulty L x]) s'" "settings s' = settings s"
proof -
  have len: "length scs = length hs" and base: "base_height s = Some b" using r ne by (auto simp: represents_def)
  have ht: "h_height x = b + length hs" using e by (simp add: extends_def)
  have "scs \<noteq> []" using len ne by auto
  then have sc: "at_height b scs (h_height x - 1) = Some (last scs)" using at_height_last [of scs b] len ht by simp
  obtain s1 where s1: "score_at L (h_height x - 1) s = (Some (last scs), s1)"
    "represents L U b hs scs s1" "settings s1 = settings s"
    using score_at_represents [OF r U(1)] sc ht by (cases "score_at L (h_height x - 1) s") auto
  let ?s' = "s1\<lparr>lazy := store_put L (h_height x) x (last scs + header_difficulty L x) (lazy s1),
                by_id := hm_insert (h_id x) (h_height x) (by_id s1)\<rparr>"
  have "push_header L x s = Some (Inr (), ?s')" using base s1(1) by (simp add: push_header_def change_def)
  moreover have "represents L U b (hs @ [x]) (scs @ [last scs + header_difficulty L x]) ?s'"
    using put_represents [OF s1(2) e U(2)] represents_base [OF s1(2) ne] by (cases s1) (simp add: represents_def)
  ultimately show thesis using that s1(3) by (simp add: settings_def)
qed

lemma push_first:
  assumes r: "represents L U b [] [] s" and U: "h_height x \<in> U"
  obtains s' where "push_header L x s = Some (Inr (), s')"
    "represents L U (h_height x) [x] [header_difficulty L x] s'" "settings s' = settings s"
proof -
  have r': "represents L U (h_height x) [] [] s" using r by (simp add: represents_def linked_def index_ok_def)
  have "extends (h_height x) [] x" by (simp add: extends_def)
  from put_represents [OF r' this, of "header_difficulty L x"] U r that show thesis
    by (simp add: push_header_def represents_def change_def settings_def)
qed

lemma pop_represents:
  assumes r: "represents L U b (hs @ [x]) (scs @ [v]) s" and U: "b + length hs \<in> U"
  obtains s' where "pop_header L s = Some (Inr (Some (x, v)), s')" "represents L U b hs scs s'" "settings s' = settings s"
proof -
  have len: "length scs = length hs" using r by (simp add: represents_def)
  have ht: "height s = b + length hs" "\<not> is_empty s" using represents_height [OF r] by auto
  obtain s1 where s1: "header_at L (height s) s = (Some x, s1)"
    "represents L U b (hs @ [x]) (scs @ [v]) s1" "settings s1 = settings s"
    using header_at_represents [OF r U] ht by (cases "header_at L (height s) s") (auto simp: at_height_snoc)
  obtain s2 where s2: "score_at L (height s) s1 = (Some v, s2)"
    "represents L U b (hs @ [x]) (scs @ [v]) s2" "settings s2 = settings s"
    using score_at_represents [OF s1(2) U] ht s1(3) len by (cases "score_at L (height s) s1") (auto simp: at_height_snoc)
  let ?s3 = "s2\<lparr>by_id := hm_remove (h_id x) (by_id s2), lazy := store_evict L (b + length hs) (lazy s2)\<rparr>"
  let ?s' = "if by_id ?s3 = [] then ?s3\<lparr>base_height := None\<rparr> else ?s3"
  have ix: "index_ok b hs (hm_remove (h_id x) (by_id s2))" using s2(2) by (auto simp: represents_def intro: index_remove)
  have "store_serves L U (store_evict L (b + length hs) (lazy s2)) (at_height b hs) (at_height b scs)"
    using store_serves_evict [of L U "lazy s2" "at_height b (hs @ [x])" "at_height b (scs @ [v])" "b + length hs"] s2(2) len
    by (auto simp: represents_def at_height_snoc at_height_def fun_upd_def split: if_splits
        intro: store_serves_mono simp: map_le_def)
  then have "represents L U b hs scs ?s'"
    using s2(2) ix index_length [OF ix] len by (auto simp: represents_def linked_snoc)
  moreover have "pop_header L s = Some (Inr (Some (x, v)), ?s')"
    using ht s1(1) s2(1) by (simp add: pop_header_def ret_def Let_def)
  ultimately show thesis using that s2(3) by (simp add: settings_def)
qed

lemma restore_header_represents:
  assumes r: "represents L U b hs scs s" and ne: "hs \<noteq> []" and e: "extends b hs x" and U: "b + length hs \<in> U"
  shows "represents L U b (hs @ [x]) (scs @ [v]) (restore_header L (x, v) s)"
    and "settings (restore_header L (x, v) s) = settings s"
  using put_represents [OF r e U, of v] r ne
  by (cases s; simp add: restore_header_def represents_def settings_def)+

section \<open>Appending\<close>

definition genesis_check :: "('hc, 'sc, 'st) chain_lib \<Rightarrow> chain_config \<Rightarrow> header \<Rightarrow> (chain_error + unit) option" where
  "genesis_check L cfg hdr =
     spec_bind (spec_ensure (h_parent_id hdr = genesis_parent_id) (InvalidGenesisParent (h_parent_id hdr))) (\<lambda>_.
     spec_bind (spec_ensure (h_height hdr = 1) (InvalidGenesisHeight (h_height hdr))) (\<lambda>_.
     spec_bind (spec_ensure (h_n_bits hdr = initial_n_bits cfg)
       (WrongDifficulty (h_height hdr) (initial_n_bits cfg) (h_n_bits hdr))) (\<lambda>_.
     spec_bind (verify_pow (pow L) hdr) (\<lambda>_.
     case genesis_id cfg of
       None \<Rightarrow> Some (Inr ())
     | Some expected \<Rightarrow> spec_ensure (h_id hdr = expected) (GenesisIdMismatch expected (h_id hdr))))))"

definition find_height :: "nat \<Rightarrow> header list \<Rightarrow> id32 \<Rightarrow> nat option" where
  "find_height b hs i = map_of (zip (map h_id hs) [b..<b + length hs]) i"

definition append_spec ::
  "('hc, 'sc, 'st) chain_lib \<Rightarrow> chain_config \<Rightarrow> param_table \<Rightarrow> bool \<Rightarrow> u64 \<Rightarrow> nat \<Rightarrow> header list \<Rightarrow> header
    \<Rightarrow> (chain_error + append_result) option" where
  "append_spec L cfg params light now_ms b hs hdr =
     (if hs = [] then spec_bind (genesis_check L cfg hdr) (\<lambda>_. Some (Inr Extended))
      else if h_parent_id hdr = h_id (last hs)
      then spec_bind (child_check L cfg params light now_ms b hs hdr) (\<lambda>_. Some (Inr Extended))
      else case find_height b hs (h_parent_id hdr) of
        None \<Rightarrow> Some (Inl (ParentNotFound (h_parent_id hdr)))
      | Some h \<Rightarrow> spec_bind (spec_ensure (h_height hdr = h + 1) (NonSequentialHeight (h + 1) (h_height hdr)))
                  (\<lambda>_. Some (Inr (Forked h))))"

text \<open>The rules a header must meet, without the order in which they are tried.\<close>

definition valid_genesis :: "('hc, 'sc, 'st) chain_lib \<Rightarrow> chain_config \<Rightarrow> header \<Rightarrow> bool" where
  "valid_genesis L cfg hdr \<longleftrightarrow>
     h_parent_id hdr = genesis_parent_id \<and> h_height hdr = 1 \<and> h_n_bits hdr = initial_n_bits cfg
     \<and> verify_pow (pow L) hdr = Some (Inr ()) \<and> genesis_id cfg \<in> {None, Some (h_id hdr)}"

definition valid_child ::
  "('hc, 'sc, 'st) chain_lib \<Rightarrow> chain_config \<Rightarrow> param_table \<Rightarrow> bool \<Rightarrow> u64 \<Rightarrow> nat \<Rightarrow> header list \<Rightarrow> header \<Rightarrow> bool" where
  "valid_child L cfg params light now_ms b hs hdr \<longleftrightarrow>
     h_parent_id hdr = h_id (last hs) \<and> h_height hdr = h_height (last hs) + 1
     \<and> h_timestamp (last hs) < h_timestamp hdr \<and> h_timestamp hdr \<le> now_ms + max_time_drift_ms cfg
     \<and> (light \<or> expected_difficulty (pow L) cfg (at_height b hs) (last hs) = Some (Inr (h_n_bits hdr)))
     \<and> verify_pow (pow L) hdr = Some (Inr ()) \<and> check_header_votes (h_votes hdr) = Inr ()
     \<and> check_fork_vote (cc_voting cfg) (h_height hdr) (h_votes hdr) params = Inr True"

definition valid_next where
  "valid_next L cfg params light now_ms b hs hdr \<longleftrightarrow>
     (if hs = [] then valid_genesis L cfg hdr else valid_child L cfg params light now_ms b hs hdr)"

definition next_score :: "('hc, 'sc, 'st) chain_lib \<Rightarrow> nat list \<Rightarrow> header \<Rightarrow> nat" where
  "next_score L scs hdr = (if scs = [] then 0 else last scs) + header_difficulty L hdr"

lemma spec_bind_Extended:
  "spec_bind r f = Some (Inr y) \<longleftrightarrow> (\<exists>x. r = Some (Inr x) \<and> f x = Some (Inr y))"
  by (auto simp: spec_bind_def split: option.splits sum.splits)

lemma spec_bind_None: "spec_bind r f = None \<longleftrightarrow> r = None \<or> (\<exists>x. r = Some (Inr x) \<and> f x = None)"
  by (auto simp: spec_bind_def split: option.splits sum.splits)

lemma spec_ensure_iff [simp]:
  "spec_ensure c e = Some (Inr x) \<longleftrightarrow> c" "spec_ensure c e = Some (Inl e') \<longleftrightarrow> \<not> c \<and> e' = e" "spec_ensure c e \<noteq> None"
  by (auto simp: spec_ensure_def)

lemma fork_gate_ok:
  "and_then (check_fork_vote v h vs params) (\<lambda>ok. if ok then Inr () else Inl VotingError) = Inr x
     \<longleftrightarrow> check_fork_vote v h vs params = Inr True"
  by (cases "check_fork_vote v h vs params") (auto simp: and_then_def)

lemma child_check_ok: "child_check L cfg params light now_ms b hs hdr = Some (Inr x) \<longleftrightarrow> valid_child L cfg params light now_ms b hs hdr"
  unfolding child_check_def valid_child_def Let_def spec_bind_Extended
  by (auto simp: spec_bind_Extended fork_gate_ok)

lemma genesis_check_ok: "genesis_check L cfg hdr = Some (Inr x) \<longleftrightarrow> valid_genesis L cfg hdr"
  unfolding genesis_check_def valid_genesis_def spec_bind_Extended
  by (auto simp: spec_bind_Extended split: option.split)

lemma append_spec_extends:
  "append_spec L cfg params light now_ms b hs hdr = Some (Inr Extended) \<longleftrightarrow> valid_next L cfg params light now_ms b hs hdr"
  by (auto simp: append_spec_def valid_next_def spec_bind_Extended genesis_check_ok child_check_ok valid_child_def
      split: option.splits)

lemma find_height_index:
  assumes "index_ok b hs m"
  shows "map_of m i = find_height b hs i"
proof (cases "i \<in> h_id ` set hs")
  case True
  then obtain k where k: "k < length hs" "h_id (hs ! k) = i" by (auto simp: in_set_conv_nth)
  have d: "distinct (map h_id hs)" using assms by (simp add: index_ok_def)
  have "map_of (zip (map h_id hs) [b..<b + length hs]) (map h_id hs ! k) = Some ([b..<b + length hs] ! k)"
    by (rule map_of_zip_nth) (use d k in auto)
  then show ?thesis using k index_get [OF assms k(1)] by (simp add: find_height_def)
next
  case False
  then have "map_of m i = None" using index_mem [OF assms] by blast
  moreover have "find_height b hs i = None" using False
    by (auto simp: find_height_def map_of_eq_None_iff image_iff dest: set_zip_leftD)
  ultimately show ?thesis by simp
qed

lemma reads_validate_genesis:
  fixes s :: "('hc, 'sc) header_chain"
  assumes "represents L U b [] [] s"
  shows "reads L U b [] [] s (validate_genesis L hdr) (genesis_check L (config s) hdr)"
proof -
  define g :: "(('hc, 'sc) header_chain, unit) run" where "g = (case genesis_id (config s) of None \<Rightarrow> ret ()
      | Some expected \<Rightarrow> ensure (h_id hdr = expected) (GenesisIdMismatch expected (h_id hdr)))"
  define gs where "gs = (case genesis_id (config s) of None \<Rightarrow> Some (Inr ())
      | Some expected \<Rightarrow> spec_ensure (h_id hdr = expected) (GenesisIdMismatch expected (h_id hdr)))"
  have g: "reads L U b [] [] s' g gs" if "represents L U b [] [] s'" for s'
    using that by (auto simp: g_def gs_def reads_ret reads_ensure split: option.split)
  have "reads L U b [] [] s (bnd (ensure (h_parent_id hdr = genesis_parent_id) (InvalidGenesisParent (h_parent_id hdr))) (\<lambda>_.
      bnd (ensure (h_height hdr = 1) (InvalidGenesisHeight (h_height hdr))) (\<lambda>_.
      bnd (ensure (h_n_bits hdr = initial_n_bits (config s))
            (WrongDifficulty (h_height hdr) (initial_n_bits (config s)) (h_n_bits hdr))) (\<lambda>_.
      bnd (lift_panicking (verify_pow (pow L) hdr)) (\<lambda>_. g))))) (genesis_check L (config s) hdr)"
    unfolding genesis_check_def gs_def [symmetric] using assms
    by (intro reads_bnd; (simp only: option.inject sum.inject)?) (auto intro!: reads_steps g)
  then show ?thesis unfolding validate_genesis_def g_def Let_def reads_def by simp
qed

lemma represents_window: "represents L U b hs scs s \<Longrightarrow> hs \<noteq> [] \<Longrightarrow> h_height (last hs) = b + length hs - 1"
  by (cases hs rule: rev_cases) (auto simp: represents_def linked_snoc)

lemma represents_Nil: "represents L U b [] scs s \<longleftrightarrow> scs = [] \<and> represents L U b' [] [] s"
  by (auto simp: represents_def linked_def index_ok_def)

text \<open>Ids are hashes of the headers: a header one higher than all others has a fresh id.\<close>

lemma fresh_id:
  assumes "linked b hs" "h_height x = b + length hs" "inj_on h_id (insert x (set hs))"
  shows "h_id x \<notin> h_id ` set hs"
proof -
  have "x \<notin> set hs" using linked_height_mem [OF assms(1)] assms(2) by force
  then show ?thesis using assms(3) by (auto simp: inj_on_def)
qed

lemma append_unchanged:
  assumes r: "represents L U b hs scs s" and ne: "hs \<noteq> []" and U: "b + length hs - 1 \<in> U"
    and nt: "h_parent_id hdr \<noteq> h_id (last hs)"
  shows "reads L U b hs scs s (try_append L now_ms hdr)
    (append_spec L (config s) (active_parameters s) (light_client_mode s) now_ms b hs hdr)"
proof -
  have e: "\<not> is_empty s" using represents_empty [OF r] ne by simp
  have ix: "map_of (by_id s) (h_parent_id hdr) = find_height b hs (h_parent_id hdr)"
    using find_height_index r unfolding represents_def by blast
  obtain s' where "tip L s = Some (Inr (last hs), s')" "represents L U b hs scs s'" "settings s' = settings s"
    using reads_tip [OF r ne U] by (rule readsE)
  with e nt ne ix show ?thesis
    by (auto simp: reads_def try_append_def append_spec_def bnd_def ret_def throw_def ensure_def spec_bind_def spec_ensure_def
        split: option.split)
qed

lemma append_tip:
  assumes r: "represents L U b hs scs s" and ne: "hs \<noteq> []"
    and U: "covers U (config s) (b + length hs - 1) (b + length hs)"
    and inj: "inj_on h_id (insert hdr (set hs))" and t: "h_parent_id hdr = h_id (last hs)"
  shows "case child_check L (config s) (active_parameters s) (light_client_mode s) now_ms b hs hdr of
      None \<Rightarrow> try_append L now_ms hdr s = None
    | Some (Inl e) \<Rightarrow> \<exists>s'. try_append L now_ms hdr s = Some (Inl e, s') \<and> represents L U b hs scs s' \<and> settings s' = settings s
    | Some (Inr _) \<Rightarrow> \<exists>s'. try_append L now_ms hdr s = Some (Inr Extended, s')
        \<and> represents L U b (hs @ [hdr]) (scs @ [next_score L scs hdr]) s' \<and> settings s' = settings s"
proof -
  have e: "\<not> is_empty s" using represents_empty [OF r] ne by simp
  have U': "b + length hs - 1 \<in> U" "b + length hs \<in> U" "covers U (config s) (b + length hs - 1) (b + length hs - 1)"
    using U by (auto simp: covers_def)
  obtain s1 where s1: "tip L s = Some (Inr (last hs), s1)" "represents L U b hs scs s1" "settings s1 = settings s"
    using reads_tip [OF r ne U'(1)] by (rule readsE)
  let ?c = "child_check L (config s) (active_parameters s) (light_client_mode s) now_ms b hs hdr"
  have v: "reads L U b hs scs s1 (validate_child L now_ms hdr) ?c"
    using reads_validate_child [OF s1(2) ne] U'(3) s1(3) by (simp add: settings_eq)
  have run: "try_append L now_ms hdr s = bnd (validate_child L now_ms hdr) (\<lambda>_. bnd (push_header L hdr) (\<lambda>_. ret Extended)) s1"
    using e s1(1) t by (simp add: try_append_def bnd_def)
  show ?thesis
  proof (cases "\<exists>x. ?c = Some (Inr x)")
    case True
    then obtain x where c: "?c = Some (Inr x)" by blast
    obtain s2 where s2: "validate_child L now_ms hdr s1 = Some (Inr x, s2)" "represents L U b hs scs s2" "settings s2 = settings s1"
      using v unfolding c by (rule readsE)
    have "valid_child L (config s) (active_parameters s) (light_client_mode s) now_ms b hs hdr" using c child_check_ok by blast
    then have ht: "h_height hdr = b + length hs"
      using represents_window [OF r ne] ne by (simp add: valid_child_def Suc_leI)
    then have "extends b hs hdr" using t fresh_id [OF _ ht inj] r by (simp add: extends_def represents_def)
    then obtain s3 where "push_header L hdr s2 = Some (Inr (), s3)"
      "represents L U b (hs @ [hdr]) (scs @ [last scs + header_difficulty L hdr]) s3" "settings s3 = settings s2"
      using push_represents [OF s2(2) ne _ U'(1, 2)] by blast
    moreover have "scs \<noteq> []" using r ne by (auto simp: represents_def)
    ultimately show ?thesis using c run s1(3) s2 by (simp add: bnd_def ret_def next_score_def)
  next
    case False
    with v run s1(3) show ?thesis
      by (cases ?c) (auto simp: reads_def bnd_def split: sum.split)
  qed
qed

lemma append_genesis:
  assumes r: "represents L U 1 [] scs s" and U: "1 \<in> U"
  shows "case genesis_check L (config s) hdr of
      None \<Rightarrow> try_append L now_ms hdr s = None
    | Some (Inl e) \<Rightarrow> \<exists>s'. try_append L now_ms hdr s = Some (Inl e, s') \<and> represents L U 1 [] [] s' \<and> settings s' = settings s
    | Some (Inr _) \<Rightarrow> \<exists>s'. try_append L now_ms hdr s = Some (Inr Extended, s')
        \<and> represents L U 1 [hdr] [next_score L [] hdr] s' \<and> settings s' = settings s"
proof -
  have r': "represents L U 1 [] [] s" and e: "is_empty s"
    using r represents_Nil [of L U 1 scs s 1] represents_empty [OF r] by auto
  let ?c = "genesis_check L (config s) hdr"
  have v: "reads L U 1 [] [] s (validate_genesis L hdr) ?c" by (rule reads_validate_genesis [OF r'])
  have run: "try_append L now_ms hdr s = bnd (validate_genesis L hdr) (\<lambda>_. bnd (push_header L hdr) (\<lambda>_. ret Extended)) s"
    using e by (simp add: try_append_def)
  show ?thesis
  proof (cases "\<exists>x. ?c = Some (Inr x)")
    case True
    then obtain x where c: "?c = Some (Inr x)" by blast
    obtain s2 where s2: "validate_genesis L hdr s = Some (Inr x, s2)" "represents L U 1 [] [] s2" "settings s2 = settings s"
      using v unfolding c by (rule readsE)
    have ht: "h_height hdr = 1" using c genesis_check_ok unfolding valid_genesis_def by blast
    obtain s3 where "push_header L hdr s2 = Some (Inr (), s3)"
      "represents L U (h_height hdr) [hdr] [header_difficulty L hdr] s3" "settings s3 = settings s2"
      by (rule push_first [OF s2(2), of hdr]) (use U ht in auto)
    with c ht run s2 show ?thesis by (simp add: bnd_def ret_def next_score_def)
  next
    case False
    with v run show ?thesis by (cases ?c) (auto simp: reads_def bnd_def split: sum.split)
  qed
qed

lemma append_outcome:
  assumes "represents L U b hs scs s" "hs = [] \<longrightarrow> b = 1"
    and "covers U (config s) (b + length hs - 1) (b + length hs)" "inj_on h_id (insert hdr (set hs))"
  shows "case append_spec L (config s) (active_parameters s) (light_client_mode s) now_ms b hs hdr of
      None \<Rightarrow> try_append L now_ms hdr s = None
    | Some r \<Rightarrow> \<exists>s'. try_append L now_ms hdr s = Some (r, s') \<and> settings s' = settings s
        \<and> (if r = Inr Extended then represents L U b (hs @ [hdr]) (scs @ [next_score L scs hdr]) s'
           else represents L U b hs scs s')"
proof -
  define spec where "spec = append_spec L (config s) (active_parameters s) (light_client_mode s) now_ms b hs hdr"
  have U': "b + length hs - 1 \<in> U" "b + length hs \<in> U" using assms(3) by (auto simp: covers_def)
  have "case spec of
         None \<Rightarrow> try_append L now_ms hdr s = None
       | Some r \<Rightarrow> \<exists>s'. try_append L now_ms hdr s = Some (r, s') \<and> settings s' = settings s
           \<and> (if r = Inr Extended then represents L U b (hs @ [hdr]) (scs @ [next_score L scs hdr]) s'
              else represents L U b hs scs s')"
  proof (cases "hs = []")
    case True
    with assms(1, 2) have b: "b = 1" and "scs = []" by (auto simp: represents_def)
    with append_genesis [where hdr = hdr and now_ms = now_ms and L = L and U = U and scs = scs and s = s] assms(1) U' True show ?thesis
      by (auto simp: spec_def append_spec_def spec_bind_def split: option.splits sum.splits)
  next
    case ne: False
    show ?thesis
    proof (cases "h_parent_id hdr = h_id (last hs)")
      case True
      with append_tip [OF assms(1) ne assms(3, 4) True, of now_ms] ne show ?thesis
        by (auto simp: spec_def append_spec_def spec_bind_def split: option.splits sum.splits)
    next
      case False
      have "spec \<noteq> Some (Inr Extended)"
        using False ne unfolding spec_def append_spec_extends by (simp add: valid_next_def valid_child_def)
      with append_unchanged [OF assms(1) ne U'(1) False, of now_ms] show ?thesis
        unfolding spec_def by (auto simp: reads_def split: option.splits)
    qed
  qed
  then show ?thesis unfolding spec_def .
qed

text \<open>(C2) Appending. On a chain that represents the list \<open>hs\<close>, \<open>try_append\<close> does what \<open>append_spec\<close> says of the list,
  on every branch: it extends the chain by the header and its cumulative score exactly when the header meets all
  the consensus rules against the tip (or is a valid genesis); every other outcome, the fork notice included, leaves
  the chain representing the same list. Parameters, configuration and mode never change.\<close>

theorem try_append_correct:
  assumes "represents L U b hs scs s" "hs = [] \<longrightarrow> b = 1"
    and "covers U (config s) (b + length hs - 1) (b + length hs)" "inj_on h_id (insert hdr (set hs))"
  shows "let spec = append_spec L (config s) (active_parameters s) (light_client_mode s) now_ms b hs hdr in
    (spec = Some (Inr Extended)
      \<longleftrightarrow> valid_next L (config s) (active_parameters s) (light_client_mode s) now_ms b hs hdr)
    \<and> (case spec of
         None \<Rightarrow> try_append L now_ms hdr s = None
       | Some r \<Rightarrow> \<exists>s'. try_append L now_ms hdr s = Some (r, s') \<and> settings s' = settings s
           \<and> (if r = Inr Extended then represents L U b (hs @ [hdr]) (scs @ [next_score L scs hdr]) s'
              else represents L U b hs scs s'))"
  unfolding Let_def append_spec_extends using append_outcome [OF assms, of now_ms] by simp

section \<open>A sample\<close>

text \<open>A list-based cache and a genesis header.\<close>

definition sample_lru :: "(nat \<times> (nat \<times> 'v) list, 'v) lru_ops" where
  "sample_lru =
     \<lparr>lru_new = (\<lambda>n. (n, [])),
      lru_get = (\<lambda>k (n, xs). (map_of xs k, n, case map_of xs k of None \<Rightarrow> xs | Some v \<Rightarrow> (k, v) # without k xs)),
      lru_put = (\<lambda>k v (n, xs). (n, take n ((k, v) # without k xs))),
      lru_pop = (\<lambda>k (n, xs). (n, without k xs)),
      lru_clear = (\<lambda>(n, xs). (n, [])),
      lru_resize = (\<lambda>m (n, xs). (m, take m xs)),
      lru_cap = fst, lru_iter = snd\<rparr>"

lemma sample_lru_ok: "lru_ok sample_lru"
  by (auto simp: lru_ok_def sample_lru_def split: option.split)

definition sample_chain_lib where
  "sample_chain_lib = \<lparr>header_lru = sample_lru, score_lru = sample_lru, pow = sample_pow, sigma = sample_lib\<rparr>"

lemma sample_chain_lib_ok: "lru_lib_ok sample_chain_lib"
  by (simp add: lru_lib_ok_def sample_chain_lib_def sample_lru_ok)

lemma new_chain_represents:
  "lru_lib_ok L \<Longrightarrow> finite U \<Longrightarrow> card U \<le> 16384 \<Longrightarrow> represents L U b [] [] (new_chain L cfg)"
  using store_serves_new [of L U 16384]
  by (simp add: represents_def new_chain_def linked_def index_ok_def keys_distinct_def with_default_capacity_def
      DEFAULT_CACHE_CAPACITY_def)

lemma testnet_pow_sample: "verify_pow sample_pow (sample_header h ts) = Some (Inr ())"
  by (simp add: verify_pow_def sample_pow_def sample_header_def pow_target_def big_div_def signed_divide_int_def)

theorem try_append_correct_witness:
  "\<exists>s'. try_append sample_chain_lib 0 (sample_header 1 5) (new_chain sample_chain_lib config_testnet) = Some (Inr Extended, s')
     \<and> represents sample_chain_lib {0, 1} 1 [sample_header 1 5] [16842752] s'"
proof -
  let ?s = "new_chain sample_chain_lib config_testnet"
  have r: "represents sample_chain_lib {0, 1} 1 [] [] ?s"
    by (rule new_chain_represents [OF sample_chain_lib_ok]) auto
  have cfg: "config ?s = config_testnet" "light_client_mode ?s = False" by (simp_all add: new_chain_def)
  have len: "epoch_length_at n config_testnet = 128" for n by (simp add: epoch_length_at_def config_testnet_def)
  have "recalculation_heights config_testnet p = []" if "h_height p \<le> 1" for p
    using that len by (auto simp: recalculation_heights_def Let_def dest: dvd_imp_le)
  then have c: "covers {0, 1} (config ?s) 0 1" unfolding cfg covers_def by auto
  have g: "valid_genesis sample_chain_lib config_testnet (sample_header 1 5)"
    using testnet_pow_sample [of 1 5]
    by (simp add: valid_genesis_def sample_chain_lib_def sample_header_def config_testnet_def genesis_parent_id_def)
  have d: "header_difficulty sample_chain_lib (sample_header 1 5) = 16842752"
    by (simp add: header_difficulty_def sample_chain_lib_def sample_pow_def sample_header_def)
  show ?thesis
    using try_append_correct [OF r, of "sample_header 1 5" 0] c g d cfg
    by (auto simp: valid_next_def next_score_def Let_def)
qed

end
