(* ===== verification/Header_Chain_Restore.thy ===== *)
theory Header_Chain_Restore
  imports Header_Chain_Spec
begin

text \<open>
  Restoring the chain from the store's \<open>(height, id)\<close> index, and the linkage audit that has to follow it: the index
  carries no parent ids, so only the audit can tell a chain from a list of unrelated headers.
\<close>

section \<open>Restoring\<close>

abbreviation insert_all :: "(nat \<times> id32) list \<Rightarrow> (id32, nat) hmap \<Rightarrow> (id32, nat) hmap" where
  "insert_all \<equiv> fold (\<lambda>(h, i). hm_insert i h)"

definition entries_after :: "nat \<Rightarrow> (nat \<times> id32) list \<Rightarrow> (id32, nat) hmap \<Rightarrow> bool" where
  "entries_after p es m \<longleftrightarrow> map fst es = [Suc p..<Suc p + length es] \<and> distinct (map snd es)
     \<and> (\<forall>i\<in>snd ` set es. map_of m i = None)"

lemma upt_Suc_Cons: "[p..<p + length (x # xs)] = p # [Suc p..<Suc p + length xs]"
  by (simp add: upt_conv_Cons del: upt_Suc)

lemma entries_after_Cons:
  "entries_after p ((h, i) # es) m \<longleftrightarrow> h = Suc p \<and> map_of m i = None \<and> entries_after h es (hm_insert i h m)"
  unfolding entries_after_def upt_Suc_Cons by (auto simp del: upt_Suc)

lemma restore_loop_from:
  "restore_loop es base (Some p) m = Inr r \<longleftrightarrow> entries_after p es m \<and> r = (base, insert_all es m)"
proof (induction es arbitrary: p m)
  case Nil
  then show ?case by (auto simp: entries_after_def)
next
  case (Cons e es)
  obtain h i where e: "e = (h, i)" by fastforce
  show ?case using Cons.IH unfolding e entries_after_Cons by auto
qed

definition index_entries_ok :: "(nat \<times> id32) list \<Rightarrow> bool" where
  "index_entries_ok es \<longleftrightarrow> (es \<noteq> [] \<longrightarrow> map fst es = [fst (hd es)..<fst (hd es) + length es]) \<and> distinct (map snd es)"

lemma restore_loop_start:
  "restore_loop es None None [] = Inr r \<longleftrightarrow>
     index_entries_ok es \<and> r = (if es = [] then None else Some (fst (hd es)), insert_all es [])"
proof (cases es)
  case (Cons e es')
  obtain h i where e: "e = (h, i)" by fastforce
  have "index_entries_ok es \<longleftrightarrow> entries_after h es' (hm_insert i h [])"
    unfolding Cons e index_entries_ok_def entries_after_def fst_conv list.sel upt_Suc_Cons by (auto simp del: upt_Suc)
  then show ?thesis using restore_loop_from [of es' "Some h" h "hm_insert i h []" r] unfolding Cons e by auto
qed (auto simp: index_entries_ok_def)

lemma insert_all_get:
  "distinct (map snd es) \<Longrightarrow> (\<forall>i\<in>snd ` set es. map_of m i = None) \<Longrightarrow>
     map_of (insert_all es m) i = Some h \<longleftrightarrow> (h, i) \<in> set es \<or> map_of m i = Some h"
proof (induction es arbitrary: m)
  case (Cons e es)
  obtain h' j where e: "e = (h', j)" by fastforce
  have "j \<notin> snd ` set es" using Cons.prems(1) e by simp
  then have "map_of (insert_all es (hm_insert j h' m)) i = Some h \<longleftrightarrow> (h, i) \<in> set es \<or> map_of (hm_insert j h' m) i = Some h"
    using Cons.prems unfolding e by (intro Cons.IH) auto
  moreover have "(h, j) \<notin> set es" for h using \<open>j \<notin> snd ` set es\<close> by force
  ultimately show ?case using Cons.prems(2) unfolding e by auto
qed simp

lemma insert_all_distinct: "keys_distinct m \<Longrightarrow> keys_distinct (insert_all es m)"
  by (induction es arbitrary: m) (auto simp: split_beta)

definition index_of :: "nat \<Rightarrow> header list \<Rightarrow> (nat \<times> id32) list" where
  "index_of b hs = zip [b..<b + length hs] (map h_id hs)"

lemma restore_represents:
  assumes L: "lru_lib_ok L" "finite U" "card U \<le> 16384"
    and hs: "linked b hs" "distinct (map h_id hs)" "length scs = length hs"
  obtains s where "restore L cfg (index_of b hs) = Inr s"
    "represents L U b hs scs (set_score_loader (at_height b scs) (set_header_loader (at_height b hs) s))"
    "config s = cfg" "active_parameters s = default_parameters (sigma L) (cc_network cfg)"
    "light_client_mode s = (hs \<noteq> [] \<and> b > 1)"
proof -
  let ?es = "index_of b hs"
  have fst: "map fst ?es = [b..<b + length hs]" and snd: "map snd ?es = map h_id hs" and len: "length ?es = length hs"
    by (simp_all add: index_of_def)
  have h0: "hs \<noteq> [] \<Longrightarrow> fst (hd ?es) = b" by (cases hs) (simp_all add: index_of_def upt_conv_Cons del: upt_Suc)
  have ok: "index_entries_ok ?es" unfolding index_entries_ok_def fst snd len using h0 hs(2) len by (cases "hs = []") auto
  have ne: "?es = [] \<longleftrightarrow> hs = []" using len by auto
  let ?m = "insert_all ?es []"
  have get: "map_of ?m i = Some h \<longleftrightarrow> (h, i) \<in> set ?es" for i h
    by (subst insert_all_get) (use snd hs(2) in auto)
  have ix: "index_ok b hs ?m"
    unfolding index_ok_def get
  proof (intro conjI allI)
    show "((h, i) \<in> set ?es) = (\<exists>k<length hs. h_id (hs ! k) = i \<and> h = b + k)" for i h
    proof
      show "(h, i) \<in> set ?es \<Longrightarrow> \<exists>k<length hs. h_id (hs ! k) = i \<and> h = b + k" by (auto simp: index_of_def set_zip)
      assume "\<exists>k<length hs. h_id (hs ! k) = i \<and> h = b + k"
      then obtain k where "k < length hs" "?es ! k = (h, i)" by (auto simp: index_of_def)
      then show "(h, i) \<in> set ?es" using len by (metis nth_mem)
    qed
  qed (use hs(2) insert_all_distinct [of "[]" ?es] in \<open>simp_all add: keys_distinct_def\<close>)
  define s where "s = (new_chain L cfg)\<lparr>base_height := (if hs = [] then None else Some b), by_id := ?m,
    light_client_mode := (hs \<noteq> [] \<and> b > 1)\<rparr>"
  have "restore L cfg ?es = Inr s"
  proof -
    have "restore_loop ?es None None [] = Inr (if hs = [] then None else Some b, ?m)"
      using restore_loop_start [of ?es "(if hs = [] then None else Some b, ?m)"] ok ne h0 by auto
    then show ?thesis by (simp add: restore_def s_def and_then_def)
  qed
  moreover have "represents L U b hs scs (set_score_loader (at_height b scs) (set_header_loader (at_height b hs) s))"
  proof -
    let ?z = "with_default_capacity L"
    have empty: "lru_iter (header_lru L) (headers ?z) = []" "lru_iter (score_lru L) (scores ?z) = []"
      "lru_cap (header_lru L) (headers ?z) = 16384" "lru_cap (score_lru L) (scores ?z) = 16384"
      using L(1) by (auto simp: with_default_capacity_def with_capacity_def lru_lib_ok_def lru_ok_def DEFAULT_CACHE_CAPACITY_def)
    have "store_serves L U (?z\<lparr>header_loader := Some (at_height b hs), score_loader := Some (at_height b scs)\<rparr>) (at_height b hs) (at_height b scs)"
      using L empty by (auto simp: store_serves_def lru_lib_ok_def serves_def known_def)
    with ix hs show ?thesis by (simp add: represents_def s_def set_score_loader_def set_header_loader_def new_chain_def)
  qed
  ultimately show thesis using that by (simp add: s_def new_chain_def)
qed

section \<open>The linkage audit\<close>

text \<open>A cache that holds nothing the loader does not know: every read returns what the loader has.\<close>

definition mirrors where
  "mirrors L f z \<longleftrightarrow> lru_ok (header_lru L) \<and> header_loader z = Some f
     \<and> (\<forall>h v. map_of (lru_iter (header_lru L) (headers z)) h = Some v \<longrightarrow> f h = Some v)"

lemma mirrors_read:
  assumes "mirrors L f z"
  shows "fst (get_header L h z) = f h" "mirrors L f (snd (get_header L h z))"
proof -
  let ?ops = "header_lru L" and ?c = "headers z"
  have ok: "lru_ok ?ops" and ld: "header_loader z = Some f"
    and m: "\<And>h v. map_of (lru_iter ?ops ?c) h = Some v \<Longrightarrow> f h = Some v" using assms by (auto simp: mirrors_def)
  obtain r c' where rc: "lru_get ?ops h ?c = (r, c')" by fastforce
  have r: "r = map_of (lru_iter ?ops ?c) h" using ok rc unfolding lru_ok_def by (metis fst_conv)
  have it: "lru_iter ?ops c' = (case map_of (lru_iter ?ops ?c) h of None \<Rightarrow> lru_iter ?ops ?c
      | Some v \<Rightarrow> (h, v) # without h (lru_iter ?ops ?c))"
    using ok rc unfolding lru_ok_def by (metis snd_conv)
  have c': "map_of (lru_iter ?ops c') k = Some v \<Longrightarrow> f k = Some v" for k v
    unfolding it using m by (auto split: option.splits if_splits)
  have put: "map_of (lru_iter ?ops (lru_put ?ops h v c')) k = Some w \<Longrightarrow> f h = Some v \<Longrightarrow> f k = Some w" for v k w
  proof -
    assume a: "map_of (lru_iter ?ops (lru_put ?ops h v c')) k = Some w" "f h = Some v"
    have "lru_iter ?ops (lru_put ?ops h v c') = take (lru_cap ?ops c') ((h, v) # without h (lru_iter ?ops c'))"
      using ok by (simp add: lru_ok_def)
    with a(1) have "map_of ((h, v) # without h (lru_iter ?ops c')) k = Some w" by (metis map_of_take_Some)
    then show ?thesis using a(2) c' by (auto split: if_splits)
  qed
  show "fst (get_header L h z) = f h"
    using m [of h] ld r by (auto simp: get_header_def read_through_def rc split: option.splits)
  show "mirrors L f (snd (get_header L h z))"
    using ok ld r c' put by (auto simp: mirrors_def get_header_def read_through_def rc split: option.splits)
qed

definition filed :: "(nat \<Rightarrow> header option) \<Rightarrow> (id32, nat) hmap \<Rightarrow> nat \<Rightarrow> header \<Rightarrow> bool" where
  "filed f m h hdr \<longleftrightarrow> f h = Some hdr \<and> h_height hdr = h \<and> map_of m (h_id hdr) = Some h"

lemma load_for_linkage_walk_run:
  assumes "mirrors L f (lazy s)"
  obtains r s' where "load_for_linkage_walk L h s = Some (r, s')" "mirrors L f (lazy s')" "by_id s' = by_id s"
    "\<And>hdr. r = Inr hdr \<longleftrightarrow> filed f (by_id s) h hdr"
proof -
  obtain r z where z: "get_header L h (lazy s) = (r, z)" by fastforce
  have r: "r = f h" "mirrors L f z" using mirrors_read [OF assms, of h] z by auto
  define r' where "r' = (case r of None \<Rightarrow> Inl (IndexInconsistency h)
    | Some hdr \<Rightarrow> if h_height hdr = h \<and> map_of (by_id s) (h_id hdr) = Some h then Inr hdr else Inl (IndexInconsistency h))"
  have run: "load_for_linkage_walk L h s = Some (r', s\<lparr>lazy := z\<rparr>)"
    by (auto simp: load_for_linkage_walk_def z r'_def throw_def ret_def split: option.split)
  have res: "r' = Inr hdr \<longleftrightarrow> filed f (by_id s) h hdr" for hdr
    using r(1) by (auto simp: r'_def filed_def split: option.split)
  show thesis by (rule that [OF run _ _ res]) (use r(2) in simp_all)
qed

definition chained :: "header list \<Rightarrow> bool" where
  "chained hs \<longleftrightarrow> successively (\<lambda>p c. h_parent_id c = h_id p) hs"

lemma chained_snoc: "chained (hs @ [x, y]) \<longleftrightarrow> chained (hs @ [x]) \<and> h_parent_id y = h_id x"
  by (auto simp: chained_def successively_append_iff)

lemma linked_chained: "linked b hs \<longleftrightarrow> chained hs \<and> (\<forall>k<length hs. h_height (hs ! k) = b + k)"
  by (auto simp: linked_def chained_def successively_conv_nth)

lemma linkage_walk_run:
  assumes "mirrors L f (lazy s)" "m \<le> h"
  shows "\<exists>r s'. linkage_walk L child (rev [Suc h - m..<Suc h]) s = Some (r, s')
    \<and> (r = Inr () \<longleftrightarrow> (\<exists>hs. length hs = m \<and> (\<forall>k<m. filed f (by_id s) (h - m + k) (hs ! k)) \<and> chained (hs @ [child])))"
  using assms
proof (induction m arbitrary: h child s)
  case 0
  then show ?case by (simp add: ret_def chained_def)
next
  case (Suc m)
  have split: "rev [Suc h - Suc m..<Suc h] = h # rev [Suc (h - 1) - m..<Suc (h - 1)]"
    using Suc.prems(2) by (cases h) auto
  obtain r1 s1 where s1: "load_for_linkage_walk L (h - 1) s = Some (r1, s1)" "mirrors L f (lazy s1)" "by_id s1 = by_id s"
    and r1: "\<And>hdr. r1 = Inr hdr \<longleftrightarrow> filed f (by_id s) (h - 1) hdr"
    by (rule load_for_linkage_walk_run [OF Suc.prems(1), of "h - 1"]) blast
  have mh: "m \<le> h - 1" using Suc.prems(2) by simp
  let ?good = "\<lambda>hs. length hs = Suc m \<and> (\<forall>k<Suc m. filed f (by_id s) (h - Suc m + k) (hs ! k)) \<and> chained (hs @ [child])"
  have tail: "?good hs \<longleftrightarrow> (\<exists>hs' p. hs = hs' @ [p] \<and> length hs' = m \<and> filed f (by_id s) (h - 1) p \<and> h_parent_id child = h_id p
      \<and> (\<forall>k<m. filed f (by_id s) (h - 1 - m + k) (hs' ! k)) \<and> chained (hs' @ [p]))" for hs
    using Suc.prems(2)
    by (cases hs rule: rev_cases) (auto simp: less_Suc_eq nth_append chained_snoc)
  show ?case
  proof (cases r1)
    case (Inl e)
    then have "\<not> ?good hs" for hs unfolding tail using r1 by auto
    with Inl s1(1) split show ?thesis by (auto simp: bnd_def)
  next
    case (Inr p)
    then have p: "filed f (by_id s) (h - 1) p" using r1 by auto
    then have uniq: "\<And>q. filed f (by_id s) (h - 1) q \<Longrightarrow> q = p" by (auto simp: filed_def)
    show ?thesis
    proof (cases "h_parent_id child = h_id p")
      case True
      obtain r s' where "linkage_walk L p (rev [Suc (h - 1) - m..<Suc (h - 1)]) s1 = Some (r, s')"
        "r = Inr () \<longleftrightarrow> (\<exists>hs'. length hs' = m \<and> (\<forall>k<m. filed f (by_id s) (h - 1 - m + k) (hs' ! k)) \<and> chained (hs' @ [p]))"
        using Suc.IH [OF s1(2) mh, of p] unfolding s1(3) by blast
      moreover have "(\<exists>hs. ?good hs) \<longleftrightarrow>
          (\<exists>hs'. length hs' = m \<and> (\<forall>k<m. filed f (by_id s) (h - 1 - m + k) (hs' ! k)) \<and> chained (hs' @ [p]))"
        unfolding tail using p uniq True by blast
      ultimately show ?thesis using Inr s1(1) True unfolding split by (simp add: bnd_def ensure_def ret_def)
    next
      case False
      then have "\<not> ?good hs" for hs unfolding tail using uniq by blast
      with False Inr s1(1) show ?thesis unfolding split by (auto simp: bnd_def ensure_def throw_def)
    qed
  qed
qed

lemma keys_distinct_length: "keys_distinct m \<Longrightarrow> length m = card (dom (map_of m))"
  by (metis distinct_card keys_distinct_def dom_map_of_conv_image_fst length_map list.set_map)

lemma insert_all_length:
  assumes "distinct (map snd es)"
  shows "length (insert_all es []) = length es"
proof -
  have "map_of (insert_all es []) i = Some h \<longleftrightarrow> (h, i) \<in> set es" for i h using insert_all_get [OF assms, of "[]"] by simp
  then have "dom (map_of (insert_all es [])) = snd ` set es" by (force simp: dom_def)
  moreover have "keys_distinct (insert_all es [])" by (rule insert_all_distinct) (simp add: keys_distinct_def)
  ultimately show ?thesis using distinct_card [OF assms] by (simp add: keys_distinct_length)
qed

lemma index_entries_nth:
  assumes "index_entries_ok es"
  shows "(fst (hd es) + j, i) \<in> set es \<longleftrightarrow> j < length es \<and> snd (es ! j) = i"
proof (cases "es = []")
  case False
  then have "map fst es = [fst (hd es)..<fst (hd es) + length es]" using assms by (simp add: index_entries_ok_def)
  then have nth: "fst (es ! k) = fst (hd es) + k" if "k < length es" for k
    using that by (metis nth_map length_map nth_upt add_less_cancel_left)
  show ?thesis
  proof
    assume "(fst (hd es) + j, i) \<in> set es"
    then obtain k where "k < length es" "es ! k = (fst (hd es) + j, i)" by (auto simp: in_set_conv_nth)
    then show "j < length es \<and> snd (es ! j) = i" using nth [of k] by auto
  next
    assume "j < length es \<and> snd (es ! j) = i"
    then show "(fst (hd es) + j, i) \<in> set es" using nth [of j] by (metis nth_mem prod.collapse)
  qed
qed simp

lemma restore_result:
  "restore L cfg es = Inr s \<longleftrightarrow> index_entries_ok es
     \<and> s = (new_chain L cfg)\<lparr>base_height := (if es = [] then None else Some (fst (hd es))), by_id := insert_all es [],
            light_client_mode := (es \<noteq> [] \<and> fst (hd es) > 1)\<rparr>"
proof (cases "restore_loop es None None []")
  case (Inl e)
  then show ?thesis using restore_loop_start [of es] by (auto simp: restore_def and_then_def)
next
  case (Inr r)
  then show ?thesis using restore_loop_start [of es r] by (auto simp: restore_def and_then_def)
qed

definition checked_links :: "nat option \<Rightarrow> nat \<Rightarrow> nat" where
  "checked_links max_depth n = (case max_depth of None \<Rightarrow> n - 1 | Some d \<Rightarrow> min (n - 1) d)"

lemma audit_run:
  assumes m: "mirrors L f (lazy s)" and base: "base_height s = Some b" and n: "length (by_id s) = n" "n > 0"
    and links: "checked_links max_depth n = l" "l > 0"
  shows "\<exists>r s'. verify_best_chain_linkage L max_depth s = Some (r, s')
    \<and> (r = Inr () \<longleftrightarrow> (\<exists>hs. length hs = Suc l \<and> (\<forall>k<Suc l. filed f (by_id s) (b + (n - 1 - l) + k) (hs ! k)) \<and> chained hs))"
proof -
  have ht: "height s = b + n - 1" using base n by (auto simp: height_def)
  have l: "l \<le> n - 1" using links(1) by (auto simp: checked_links_def split: option.splits)
  then have tip: "b < height s" "height s - l = b + (n - 1 - l)" "l \<le> height s" using ht links(2) by auto
  obtain r1 s1 where s1: "load_for_linkage_walk L (height s) s = Some (r1, s1)" "mirrors L f (lazy s1)" "by_id s1 = by_id s"
    and r1: "\<And>hdr. r1 = Inr hdr \<longleftrightarrow> filed f (by_id s) (height s) hdr"
    by (rule load_for_linkage_walk_run [OF m, of "height s"]) blast
  have "height s - b = n - 1" using ht n(2) by simp
  then have "checked_links max_depth n = (case max_depth of Some d \<Rightarrow> min (height s - b) d | None \<Rightarrow> height s - b)"
    by (simp add: checked_links_def split: option.split)
  then have run: "verify_best_chain_linkage L max_depth s =
      bnd (load_for_linkage_walk L (height s)) (\<lambda>child. linkage_walk L child (rev [Suc (height s) - l..<Suc (height s)])) s"
    using base tip links by (simp add: verify_best_chain_linkage_def Let_def Suc_diff_le)
  let ?good = "\<lambda>hs. length hs = Suc l \<and> (\<forall>k<Suc l. filed f (by_id s) (b + (n - 1 - l) + k) (hs ! k)) \<and> chained hs"
  have split: "?good hs \<longleftrightarrow> (\<exists>hs' c. hs = hs' @ [c] \<and> length hs' = l \<and> filed f (by_id s) (height s) c
      \<and> (\<forall>k<l. filed f (by_id s) (height s - l + k) (hs' ! k)) \<and> chained (hs' @ [c]))" for hs
  proof -
    have "height s - l + l = height s" using tip(3) by simp
    then show ?thesis unfolding tip(2) [symmetric] by (cases hs rule: rev_cases) (auto simp: less_Suc_eq nth_append)
  qed
  show ?thesis
  proof (cases r1)
    case (Inl e)
    then have "\<not> ?good hs" for hs unfolding split using r1 by auto
    with Inl s1(1) run show ?thesis by (auto simp: bnd_def)
  next
    case (Inr c)
    then have c: "filed f (by_id s) (height s) c" using r1 by auto
    then have uniq: "\<And>q. filed f (by_id s) (height s) q \<Longrightarrow> q = c" by (auto simp: filed_def)
    obtain r s' where w: "linkage_walk L c (rev [Suc (height s) - l..<Suc (height s)]) s1 = Some (r, s')"
      "r = Inr () \<longleftrightarrow> (\<exists>hs'. length hs' = l \<and> (\<forall>k<l. filed f (by_id s) (height s - l + k) (hs' ! k)) \<and> chained (hs' @ [c]))"
      using linkage_walk_run [OF s1(2) tip(3), of c] unfolding s1(3) by blast
    have "(\<exists>hs. ?good hs) \<longleftrightarrow> r = Inr ()" unfolding split w(2) using c uniq by blast
    with w(1) Inr s1(1) run show ?thesis by (auto simp: bnd_def)
  qed
qed

text \<open>(C14) Restoring and auditing. \<open>restore\<close> accepts an index exactly when its heights are consecutive and its ids
  distinct. Once the loader \<open>f\<close> is wired, the audit of depth \<open>d\<close> always returns, and it succeeds exactly when the
  loader's headers at the top \<open>d + 1\<close> heights are those of the index, carry their own heights, and each names
  the one below as its parent: no broken link or mis-filed header inside the depth escapes it, and no sound
  store is rejected.\<close>

theorem restore_audit_exact:
  assumes "lru_lib_ok L"
  shows "case restore L cfg es of
      Inl e \<Rightarrow> \<not> index_entries_ok es
    | Inr s \<Rightarrow> index_entries_ok es \<and>
        (let l = checked_links max_depth (length es); lo = length es - 1 - l; b = fst (hd es) in
         \<exists>r s'. verify_best_chain_linkage L max_depth (set_header_loader f s) = Some (r, s')
           \<and> (r = Inr () \<longleftrightarrow> l = 0 \<or> (\<exists>hs. length hs = Suc l \<and> linked (b + lo) hs
                \<and> (\<forall>k\<le>l. f (b + lo + k) = Some (hs ! k) \<and> h_id (hs ! k) = snd (es ! (lo + k))))))"
proof (cases "restore L cfg es")
  case (Inl e)
  then show ?thesis using restore_result [of L cfg es] by auto
next
  case (Inr s)
  let ?l = "checked_links max_depth (length es)" and ?b = "fst (hd es)"
  let ?lo = "length es - 1 - ?l"
  from Inr have ok: "index_entries_ok es"
    and s: "s = (new_chain L cfg)\<lparr>base_height := (if es = [] then None else Some (fst (hd es))), by_id := insert_all es [],
            light_client_mode := (es \<noteq> [] \<and> fst (hd es) > 1)\<rparr>" using restore_result [of L cfg es s] by auto
  let ?s = "set_header_loader f s"
  have d: "distinct (map snd es)" using ok by (simp add: index_entries_ok_def)
  have l: "?l \<le> length es - 1" by (auto simp: checked_links_def split: option.split)
  have by_id: "by_id ?s = insert_all es []" by (simp add: s set_header_loader_def)
  have "\<exists>r s'. verify_best_chain_linkage L max_depth ?s = Some (r, s')
     \<and> (r = Inr () \<longleftrightarrow> ?l = 0 \<or> (\<exists>hs. length hs = Suc ?l \<and> linked (?b + ?lo) hs
          \<and> (\<forall>k\<le>?l. f (?b + ?lo + k) = Some (hs ! k) \<and> h_id (hs ! k) = snd (es ! (?lo + k)))))"
  proof (cases "?l = 0")
    case True
    then have "verify_best_chain_linkage L max_depth ?s = Some (Inr (), ?s)"
      using insert_all_length [OF d]
      by (auto simp: verify_best_chain_linkage_def s set_header_loader_def checked_links_def height_def ret_def Let_def
          split: option.splits)
    with True show ?thesis by simp
  next
    case False
    then have ne: "es \<noteq> []" using l by auto
    have m: "mirrors L f (lazy ?s)"
      using assms by (auto simp: mirrors_def s set_header_loader_def new_chain_def with_default_capacity_def with_capacity_def
          lru_lib_ok_def lru_ok_def)
    have base: "base_height ?s = Some ?b" using ne by (simp add: s set_header_loader_def)
    have len: "length (by_id ?s) = length es" using insert_all_length [OF d] by_id by simp
    have fl: "filed f (by_id ?s) (?b + j) x \<longleftrightarrow> f (?b + j) = Some x \<and> h_height x = ?b + j \<and> j < length es \<and> snd (es ! j) = h_id x"
      for j x using insert_all_get [OF d, of "[]"] index_entries_nth [OF ok] by (simp add: filed_def by_id)
    have "(length hs = Suc ?l \<and> (\<forall>k<Suc ?l. filed f (by_id ?s) (?b + ?lo + k) (hs ! k)) \<and> chained hs)
      \<longleftrightarrow> (length hs = Suc ?l \<and> linked (?b + ?lo) hs
          \<and> (\<forall>k\<le>?l. f (?b + ?lo + k) = Some (hs ! k) \<and> h_id (hs ! k) = snd (es ! (?lo + k))))" for hs
    proof -
      have "0 < length es" using ne by simp
      then have "length es - Suc ?l + k < length es" if "k \<le> ?l" for k using that l by linarith
      then show ?thesis unfolding add.assoc fl linked_chained by (auto simp: less_Suc_eq_le)
    qed
    then show ?thesis using audit_run [OF m base len _ refl, of max_depth] False ne by simp
  qed
  with Inr ok show ?thesis by (simp add: Let_def)
qed

theorem restore_audit_exact_witness:
  "\<exists>s s'. restore sample_chain_lib config_testnet [(1, 1), (2, 2)] = Inr s
     \<and> verify_best_chain_linkage sample_chain_lib None
         (set_header_loader (at_height 1 [sample_header 1 5, sample_header 2 10]) s) = Some (Inr (), s')"
proof -
  let ?es = "[(1, 1), (2, 2)] :: (nat \<times> id32) list" and ?hs = "[sample_header 1 5, sample_header 2 10]"
  have ok: "index_entries_ok ?es" by (simp add: index_entries_ok_def upt_rec)
  have l: "linked 1 ?hs" by (auto simp: linked_def sample_header_def less_Suc_eq)
  obtain s where s: "restore sample_chain_lib config_testnet ?es = Inr s"
    using restore_result [of sample_chain_lib config_testnet ?es] ok by auto
  have f: "at_height 1 ?hs (1 + k) = Some (?hs ! k) \<and> h_id (?hs ! k) = snd (?es ! k)" if "k \<le> 1" for k
    using that by (cases k) (auto simp: at_height_def sample_header_def)
  have "\<exists>hs. length hs = Suc 1 \<and> linked 1 hs
      \<and> (\<forall>k\<le>1. at_height 1 ?hs (1 + k) = Some (hs ! k) \<and> h_id (hs ! k) = snd (?es ! k))"
    using l f by (intro exI [of _ ?hs]) auto
  then show ?thesis
    using restore_audit_exact [OF sample_chain_lib_ok, where cfg = config_testnet and es = ?es and max_depth = None
        and f = "at_height 1 ?hs"] s
    by (auto simp: checked_links_def Let_def)
qed

end
