(* ===== verification/Header_Chain_Reorg.thy ===== *)
theory Header_Chain_Reorg
  imports Header_Chain_Restore
begin

text \<open>
  Reorganisations of the header chain are atomic: a valid branch replaces the headers above the fork point, and
  on any error the chain represents the same list as before, although headers were popped, evicted, pushed
  and put back on the way.
\<close>

section \<open>Valid branches\<close>

definition valid_reorg ::
  "('hc, 'sc, 'st) chain_lib \<Rightarrow> chain_config \<Rightarrow> param_table \<Rightarrow> bool \<Rightarrow> u64 \<Rightarrow> nat \<Rightarrow> header list \<Rightarrow> header \<Rightarrow> bool" where
  "valid_reorg L cfg params pow_check now_ms b hs hdr \<longleftrightarrow>
     h_parent_id hdr = h_id (last hs) \<and> h_height hdr = b + length hs
     \<and> h_timestamp (last hs) < h_timestamp hdr \<and> h_timestamp hdr \<le> now_ms + max_time_drift_ms cfg
     \<and> expected_difficulty (pow L) cfg (at_height b hs) (last hs) = Some (Inr (h_n_bits hdr))
     \<and> (pow_check \<longrightarrow> verify_pow (pow L) hdr = Some (Inr ())) \<and> check_header_votes (h_votes hdr) = Inr ()
     \<and> check_fork_vote (cc_voting cfg) (h_height hdr) (h_votes hdr) params = Inr True"

fun valid_branch ::
  "('hc, 'sc, 'st) chain_lib \<Rightarrow> chain_config \<Rightarrow> param_table \<Rightarrow> bool \<Rightarrow> u64 \<Rightarrow> nat \<Rightarrow> header list \<Rightarrow> header list \<Rightarrow> bool" where
  "valid_branch L cfg params pow_check now_ms b hs [] = True"
| "valid_branch L cfg params pow_check now_ms b hs (x # xs) =
     (valid_reorg L cfg params pow_check now_ms b hs x \<and> valid_branch L cfg params pow_check now_ms b (hs @ [x]) xs)"

fun branch_scores :: "('hc, 'sc, 'st) chain_lib \<Rightarrow> nat \<Rightarrow> header list \<Rightarrow> nat list" where
  "branch_scores L score [] = []"
| "branch_scores L score (x # xs) =
     (score + header_difficulty L x) # branch_scores L (score + header_difficulty L x) xs"

lemma reorg_check_ok:
  "reorg_check L cfg params pow_check now_ms b hs hdr = Some (Inr x) \<longleftrightarrow>
     h_timestamp (last hs) < h_timestamp hdr \<and> h_timestamp hdr \<le> now_ms + max_time_drift_ms cfg
     \<and> expected_difficulty (pow L) cfg (at_height b hs) (last hs) = Some (Inr (h_n_bits hdr))
     \<and> (pow_check \<longrightarrow> verify_pow (pow L) hdr = Some (Inr ())) \<and> check_header_votes (h_votes hdr) = Inr ()
     \<and> check_fork_vote (cc_voting cfg) (h_height hdr) (h_votes hdr) params = Inr True"
  unfolding reorg_check_def Let_def spec_bind_Extended by (auto simp: spec_bind_Extended fork_gate_ok)

lemma valid_reorg_check:
  "valid_reorg L cfg params pow_check now_ms b hs hdr \<longleftrightarrow>
     h_parent_id hdr = h_id (last hs) \<and> h_height hdr = b + length hs
     \<and> reorg_check L cfg params pow_check now_ms b hs hdr = Some (Inr ())"
  unfolding valid_reorg_def reorg_check_ok by blast

section \<open>Saving and draining\<close>

lemma save_above_reads:
  assumes "represents L U b hs scs s" "set hts \<subseteq> U" "\<And>h. h \<in> set hts \<Longrightarrow> b \<le> h \<and> h < b + length hs"
  shows "reads L U b hs scs s (save_above L hts) (Some (Inr (map (\<lambda>h. (hs ! (h - b), scs ! (h - b))) hts)))"
  using assms
proof (induction hts arbitrary: s)
  case Nil
  then show ?case by (simp add: reads_def ret_def)
next
  case (Cons h hts)
  have len: "length scs = length hs" using Cons.prems(1) by (simp add: represents_def)
  have h: "h \<in> U" "at_height b hs h = Some (hs ! (h - b))" "at_height b scs h = Some (scs ! (h - b))"
    using Cons.prems(2, 3) len by (auto simp: at_height_def)
  obtain s1 where s1: "observe_with (header_at L h) s = Some (Inr (Some (hs ! (h - b))), s1)"
    "represents L U b hs scs s1" "settings s1 = settings s"
    using reads_header_at [OF Cons.prems(1) h(1)] unfolding h(2) by (rule readsE)
  obtain s2 where s2: "observe_with (score_at L h) s1 = Some (Inr (Some (scs ! (h - b))), s2)"
    "represents L U b hs scs s2" "settings s2 = settings s1"
    using reads_score_at [OF s1(2) h(1)] unfolding h(3) by (rule readsE)
  have "reads L U b hs scs s2 (save_above L hts) (Some (Inr (map (\<lambda>h. (hs ! (h - b), scs ! (h - b))) hts)))"
    using Cons.IH [OF s2(2)] Cons.prems(2, 3) by simp
  then obtain s3 where "save_above L hts s2 = Some (Inr (map (\<lambda>h. (hs ! (h - b), scs ! (h - b))) hts), s3)"
    "represents L U b hs scs s3" "settings s3 = settings s2" by (rule readsE)
  with s1 s2 show ?case by (simp add: reads_def bnd_def ret_def)
qed

lemma drain_index:
  "map_of (by_id (drain L saved s)) i = (if i \<in> (h_id \<circ> fst) ` set saved then None else map_of (by_id s) i)
   \<and> (keys_distinct (by_id s) \<longrightarrow> keys_distinct (by_id (drain L saved s)))
   \<and> base_height (drain L saved s) = base_height s \<and> settings (drain L saved s) = settings s"
  by (induction L saved s rule: drain.induct) (auto simp: settings_def)

lemma drain_store:
  "store_serves L U (lazy s) hv sv \<Longrightarrow>
     store_serves L U (lazy (drain L saved s))
       (\<lambda>h. if h \<in> (h_height \<circ> fst) ` set saved then None else hv h)
       (\<lambda>h. if h \<in> (h_height \<circ> fst) ` set saved then None else sv h)"
proof (induction L saved s arbitrary: hv sv rule: drain.induct)
  case (2 L hdr v saved s)
  let ?s = "s\<lparr>by_id := hm_remove (h_id hdr) (by_id s), lazy := store_evict L (h_height hdr) (lazy s)\<rparr>"
  have "store_serves L U (lazy ?s) (hv(h_height hdr := None)) (sv(h_height hdr := None))"
    using store_serves_evict [OF "2.prems"] by simp
  from store_serves_mono [OF "2.IH" [OF this]] show ?case by (simp add: map_le_def dom_def)
qed simp

lemma at_height_cut:
  assumes "\<And>h. h \<in> H \<Longrightarrow> b + length xs \<le> h"
  shows "at_height b xs \<subseteq>\<^sub>m (\<lambda>h. if h \<in> H then None else at_height b (xs @ ys) h)"
  unfolding map_le_def
proof
  fix h
  assume "h \<in> dom (at_height b xs)"
  then have h: "b \<le> h" "h < b + length xs" by (auto simp: at_height_def split: if_splits)
  with assms [of h] have "h \<notin> H" by auto
  with h show "at_height b xs h = (if h \<in> H then None else at_height b (xs @ ys) h)"
    by (simp add: at_height_def nth_append less_diff_conv2)
qed

lemma drain_represents:
  assumes r: "represents L U b (hs1 @ hs2) (scs1 @ scs2) s" and ne: "hs1 \<noteq> []" and len: "length scs1 = length hs1"
  shows "represents L U b hs1 scs1 (drain L (zip hs2 scs2) s)"
proof -
  let ?d = "drain L (zip hs2 scs2) s"
  have len2: "length hs2 = length scs2" and l: "linked b (hs1 @ hs2)" and ix: "index_ok b (hs1 @ hs2) (by_id s)"
    using r len by (auto simp: represents_def)
  have saved: "fst ` set (zip hs2 scs2) = set hs2" using len2 by (metis list.set_map map_fst_zip)
  have ids: "(h_id \<circ> fst) ` set (zip hs2 scs2) = h_id ` set hs2"
    and hts: "(h_height \<circ> fst) ` set (zip hs2 scs2) = h_height ` set hs2"
    unfolding saved [symmetric] by auto
  have di: "map_of (by_id ?d) i = (if i \<in> h_id ` set hs2 then None else map_of (by_id s) i)" for i
    using drain_index [of L "zip hs2 scs2" s i] unfolding ids by blast
  have above: "b + length hs1 \<le> h_height x" if "x \<in> set hs2" for x
  proof -
    obtain k where "k < length hs2" "x = hs2 ! k" using \<open>x \<in> set hs2\<close> by (auto simp: in_set_conv_nth)
    then show ?thesis using l unfolding linked_def by (auto dest: spec [where x = "length hs1 + k"])
  qed
  have "index_ok b hs1 (by_id ?d)"
    unfolding index_ok_def
  proof (intro conjI allI)
    show "keys_distinct (by_id ?d)" "distinct (map h_id hs1)"
      using ix drain_index [of L "zip hs2 scs2" s] by (auto simp: index_ok_def)
    show "(map_of (by_id ?d) i = Some h) = (\<exists>k<length hs1. h_id (hs1 ! k) = i \<and> h = b + k)" for i h
    proof (cases "i \<in> h_id ` set hs2")
      case True
      have "h_id (hs1 ! k) \<noteq> i" if "k < length hs1" for k
        using ix True nth_mem [OF that] unfolding index_ok_def by auto
      then show ?thesis using True di [of i] by auto
    next
      case False
      then have "map_of (by_id ?d) i = map_of (by_id s) i" using di [of i] by simp
      also have "\<dots> = Some h \<longleftrightarrow> (\<exists>k<length (hs1 @ hs2). h_id ((hs1 @ hs2) ! k) = i \<and> h = b + k)"
        using ix by (simp add: index_ok_def)
      also have "\<dots> \<longleftrightarrow> (\<exists>k<length hs1. h_id (hs1 ! k) = i \<and> h = b + k)"
      proof -
        have "k < length hs1" if "k < length (hs1 @ hs2)" "h_id ((hs1 @ hs2) ! k) = i" for k
        proof (rule ccontr)
          assume k: "\<not> k < length hs1"
          then have "hs2 ! (k - length hs1) \<in> set hs2" using that(1) by (intro nth_mem) simp
          with k that(2) False show False by (auto simp: nth_append)
        qed
        then show ?thesis by (metis nth_append length_append trans_less_add1)
      qed
      finally show ?thesis .
    qed
  qed
  moreover have "store_serves L U (lazy ?d) (at_height b hs1) (at_height b scs1)"
  proof (rule store_serves_mono [OF drain_store [of L U s "at_height b (hs1 @ hs2)" "at_height b (scs1 @ scs2)" "zip hs2 scs2"]])
    show "store_serves L U (lazy s) (at_height b (hs1 @ hs2)) (at_height b (scs1 @ scs2))"
      using r by (simp add: represents_def)
    show "at_height b hs1 \<subseteq>\<^sub>m (\<lambda>h. if h \<in> (h_height \<circ> fst) ` set (zip hs2 scs2) then None else at_height b (hs1 @ hs2) h)"
      unfolding hts by (rule at_height_cut) (use above in auto)
    show "at_height b scs1 \<subseteq>\<^sub>m (\<lambda>h. if h \<in> (h_height \<circ> fst) ` set (zip hs2 scs2) then None else at_height b (scs1 @ scs2) h)"
      unfolding hts by (rule at_height_cut) (use above len in auto)
  qed
  ultimately show ?thesis
    using r ne len linked_appendD [OF l] drain_index [of L "zip hs2 scs2" s] by (simp add: represents_def)
qed

section \<open>Applying a branch and rolling back\<close>

lemma pop_to_represents:
  "represents L U b (hs @ ext) (scs @ sext) s \<Longrightarrow> length scs = length hs \<Longrightarrow> hs \<noteq> [] \<Longrightarrow>
     {b + length hs - 1..b + length (hs @ ext) - 1} \<subseteq> U \<Longrightarrow>
     \<exists>s'. pop_to L (b + length hs - 1) s = Some s' \<and> represents L U b hs scs s' \<and> settings s' = settings s"
proof (induction ext arbitrary: s sext rule: rev_induct)
  case Nil
  then have "sext = []" by (simp add: represents_def)
  moreover have "height s = b + length hs - 1" using represents_height [OF Nil(1)] Nil(3) by simp
  ultimately show ?case using Nil by (subst pop_to.simps) simp
next
  case (snoc x ext)
  have "length sext = Suc (length ext)" using snoc.prems(1, 2) by (simp add: represents_def)
  then obtain sext' v where sext: "sext = sext' @ [v]" by (cases sext rule: rev_cases) auto
  have r: "represents L U b ((hs @ ext) @ [x]) ((scs @ sext') @ [v]) s" using snoc.prems(1) sext by simp
  have "length hs > 0" using snoc.prems(3) by simp
  then have U: "b + length (hs @ ext) \<in> U" "b + length (hs @ ext) - 1 \<le> b + length (hs @ ext @ [x]) - 1"
    using snoc.prems(4) by auto
  obtain s1 where s1: "pop_header L s = Some (Inr (Some (x, v)), s1)" "represents L U b (hs @ ext) (scs @ sext') s1"
    "settings s1 = settings s" by (rule pop_represents [OF r U(1)])
  have "\<exists>s'. pop_to L (b + length hs - 1) s1 = Some s' \<and> represents L U b hs scs s' \<and> settings s' = settings s1"
    using snoc.IH [OF s1(2) snoc.prems(2, 3)] snoc.prems(4) U(2) by fastforce
  moreover have "height s = b + length hs + length ext" using represents_height [OF r] by simp
  then have "height s > b + length hs - 1" using \<open>length hs > 0\<close> by linarith
  ultimately show ?case using s1 by (subst pop_to.simps) simp
qed

lemma reinsert_represents:
  "represents L U b hs scs s \<Longrightarrow> hs \<noteq> [] \<Longrightarrow> length hs2 = length scs2 \<Longrightarrow> linked b (hs @ hs2) \<Longrightarrow>
     distinct (map h_id (hs @ hs2)) \<Longrightarrow> {b + length hs..<b + length (hs @ hs2)} \<subseteq> U \<Longrightarrow>
     represents L U b (hs @ hs2) (scs @ scs2) (reinsert L (zip hs2 scs2) s) \<and> settings (reinsert L (zip hs2 scs2) s) = settings s"
proof (induction hs2 arbitrary: hs scs scs2 s)
  case Nil
  then show ?case by simp
next
  case (Cons x hs2)
  obtain v scs2' where scs2: "scs2 = v # scs2'" using Cons.prems(3) by (cases scs2) auto
  have lx: "linked b (hs @ [x])" using linked_appendD [of b "hs @ [x]" hs2] Cons.prems(4) by simp
  have e: "extends b hs x" using lx Cons.prems(2, 5) by (auto simp: extends_def linked_snoc)
  have U: "b + length hs \<in> U" using Cons.prems(6) by auto
  let ?s1 = "s\<lparr>by_id := hm_insert (h_id x) (h_height x) (by_id s), lazy := store_put L (h_height x) x v (lazy s)\<rparr>"
  have "represents L U b (hs @ [x]) (scs @ [v]) ?s1"
    using put_represents [OF Cons.prems(1) e U, of v] Cons.prems(1, 2) by (cases s) (simp add: represents_def)
  moreover have "{b + length (hs @ [x])..<b + length ((hs @ [x]) @ hs2)} \<subseteq> U" using Cons.prems(6) by auto
  moreover have "settings ?s1 = settings s" by (simp add: settings_def)
  ultimately show ?case using Cons.IH [of "hs @ [x]" "scs @ [v]" ?s1 scs2'] Cons.prems(3-5) scs2 by simp
qed

text \<open>The outcomes of the loop over a branch.\<close>

definition branch_outcome where
  "branch_outcome L U b hs scs s pow_check now_ms branch run \<longleftrightarrow>
     (case run of
        None \<Rightarrow> \<exists>n<length branch. reorg_check L (config s) (active_parameters s) pow_check now_ms b (hs @ take n branch) (branch ! n) = None
      | Some (Inr _, s') \<Rightarrow> valid_branch L (config s) (active_parameters s) pow_check now_ms b hs branch
          \<and> represents L U b (hs @ branch) (scs @ branch_scores L (last scs) branch) s' \<and> settings s' = settings s
      | Some (Inl e, s') \<Rightarrow> \<not> valid_branch L (config s) (active_parameters s) pow_check now_ms b hs branch
          \<and> (\<exists>n sext. n \<le> length branch \<and> represents L U b (hs @ take n branch) (scs @ sext) s') \<and> settings s' = settings s)"

lemma branch_outcome_step:
  assumes o: "branch_outcome L U b (hs @ [x]) (scs @ [last scs + header_difficulty L x]) s' pow_check now_ms branch run"
    and v: "valid_reorg L (config s) (active_parameters s) pow_check now_ms b hs x" and st: "settings s' = settings s"
  shows "branch_outcome L U b hs scs s pow_check now_ms (x # branch) run"
proof -
  have c: "config s' = config s" "active_parameters s' = active_parameters s" using st by (simp_all add: settings_eq)
  consider "run = None" | e t where "run = Some (Inl e, t)" | y t where "run = Some (Inr y, t)"
    by (metis option.exhaust prod.exhaust sum.exhaust)
  then show ?thesis
  proof cases
    case 1
    with o obtain n where "n < length branch"
      "reorg_check L (config s) (active_parameters s) pow_check now_ms b ((hs @ [x]) @ take n branch) (branch ! n) = None"
      by (auto simp: branch_outcome_def c)
    then have "\<exists>m<length (x # branch). reorg_check L (config s) (active_parameters s) pow_check now_ms b
        (hs @ take m (x # branch)) ((x # branch) ! m) = None"
      by (intro exI [of _ "Suc n"]) simp
    with 1 show ?thesis by (simp add: branch_outcome_def)
  next
    case 2
    with o obtain n sext where n: "n \<le> length branch"
      "represents L U b ((hs @ [x]) @ take n branch) ((scs @ [last scs + header_difficulty L x]) @ sext) t"
      and nv: "\<not> valid_branch L (config s) (active_parameters s) pow_check now_ms b (hs @ [x]) branch" "settings t = settings s"
      by (auto simp: branch_outcome_def c st)
    then have "\<exists>m sext'. m \<le> length (x # branch) \<and> represents L U b (hs @ take m (x # branch)) (scs @ sext') t"
      by (intro exI [of _ "Suc n"] exI [of _ "(last scs + header_difficulty L x) # sext"]) simp
    with 2 nv show ?thesis by (simp add: branch_outcome_def)
  next
    case 3
    with o v st show ?thesis by (simp add: branch_outcome_def c)
  qed
qed

lemma covers_sub: "covers U cfg lo hi \<Longrightarrow> lo \<le> lo' \<Longrightarrow> hi' \<le> hi \<Longrightarrow> covers U cfg lo' hi'"
  unfolding covers_def by (meson atLeastatMost_subset_iff order_trans)

lemma covers_mem: "covers U cfg lo hi \<Longrightarrow> lo \<le> x \<Longrightarrow> x \<le> hi \<Longrightarrow> x \<in> U"
  by (auto simp: covers_def)

lemma apply_branch_outcome:
  assumes "represents L U b hs scs s" "hs \<noteq> []"
    and "covers U (config s) (b + length hs - 1) (b + length hs - 1 + length branch)"
    and "inj_on h_id (set hs \<union> set branch)"
    and "first \<longrightarrow> branch = [] \<or> h_parent_id (hd branch) = h_id (last hs)"
  shows "branch_outcome L U b hs scs s pow_check now_ms branch
    (apply_branch L now_ms pow_check (b + length hs) first branch s)"
  using assms
proof (induction branch arbitrary: hs scs s first)
  case Nil
  then show ?case by (simp add: branch_outcome_def ret_def)
next
  case (Cons x branch)
  note r = Cons.prems(1) and ne = Cons.prems(2)
  have pos: "length hs > 0" using ne by simp
  have U: "b + length hs - 1 \<in> U" "b + length hs \<in> U" "covers U (config s) (b + length hs - 1) (b + length hs - 1)"
    using Cons.prems(3) covers_sub [OF Cons.prems(3), of "b + length hs - 1" "b + length hs - 1"] pos
    by (auto simp: covers_def)
  let ?v = "valid_branch L (config s) (active_parameters s) pow_check now_ms b hs (x # branch)"
  let ?link = "if first then ret () else bnd (tip L) (\<lambda>t. ensure (h_parent_id x = h_id t) (ParentNotFound (h_parent_id x)))"
  let ?c = "reorg_check L (config s) (active_parameters s) pow_check now_ms b hs x"
  have link: "reads L U b hs scs s ?link (if first then Some (Inr ()) else spec_ensure (h_parent_id x = h_id (last hs)) (ParentNotFound (h_parent_id x)))"
    using reads_bnd [OF reads_tip [OF r ne U(1)], of "\<lambda>t. ensure (h_parent_id x = h_id t) (ParentNotFound (h_parent_id x))"
        "\<lambda>t. spec_ensure (h_parent_id x = h_id t) (ParentNotFound (h_parent_id x))"] r
    by (auto simp: reads_ret spec_bind_Inr intro: reads_ensure)
  have kept: "branch_outcome L U b hs scs s pow_check now_ms (x # branch) (Some (Inl e, s'))"
    if "\<not> ?v" "represents L U b hs scs s'" "settings s' = settings s" for e s'
    using that by (auto simp: branch_outcome_def intro!: exI [of _ 0] exI [of _ "[]"])
  show ?case
  proof (cases "(first \<or> h_parent_id x = h_id (last hs)) \<and> h_height x = b + length hs")
    case False
    then have nv: "\<not> ?v" using Cons.prems(5) by (auto simp: valid_reorg_def)
    from False show ?thesis
    proof (cases "first \<or> h_parent_id x = h_id (last hs)")
      case True
      with link have "reads L U b hs scs s ?link (Some (Inr ()))" by (auto simp: spec_ensure_def split: if_splits)
      then obtain s1 where "?link s = Some (Inr (), s1)" "represents L U b hs scs s1" "settings s1 = settings s" by (rule readsE)
      with True False kept [OF nv] show ?thesis by (simp add: bnd_def ensure_def throw_def)
    next
      case no: False
      with link have "reads L U b hs scs s ?link (Some (Inl (ParentNotFound (h_parent_id x))))" by (simp add: spec_ensure_def)
      then obtain s1 where "?link s = Some (Inl (ParentNotFound (h_parent_id x)), s1)" "represents L U b hs scs s1"
        "settings s1 = settings s" by (rule readsE)
      with kept [OF nv] show ?thesis by (simp add: bnd_def)
    qed
  next
    case True
    then have p: "h_parent_id x = h_id (last hs)" and ht: "h_height x = b + length hs" using Cons.prems(5) by auto
    with link have "reads L U b hs scs s ?link (Some (Inr ()))" by (auto simp: spec_ensure_def split: if_splits)
    then obtain s1 where s1: "?link s = Some (Inr (), s1)" "represents L U b hs scs s1" "settings s1 = settings s" by (rule readsE)
    have v: "reads L U b hs scs s1 (validate_reorg_header L now_ms pow_check x) ?c"
      using reads_validate_reorg_header [OF s1(2) ne] U(3) s1(3) by (simp add: settings_eq)
    have run: "apply_branch L now_ms pow_check (b + length hs) first (x # branch) s =
        bnd (validate_reorg_header L now_ms pow_check x) (\<lambda>_. bnd (push_header L x) (\<lambda>_.
          apply_branch L now_ms pow_check (b + length hs + 1) False branch)) s1"
      using s1(1) ht by (simp add: bnd_def ensure_def ret_def)
    show ?thesis
    proof (cases "?c = Some (Inr ())")
      case ok: True
      obtain s2 where s2: "validate_reorg_header L now_ms pow_check x s1 = Some (Inr (), s2)" "represents L U b hs scs s2"
        "settings s2 = settings s1" using v unfolding ok by (rule readsE)
      have inj: "inj_on h_id (insert x (set hs))" using Cons.prems(4) by (auto intro: inj_on_subset)
      have "extends b hs x" using p ht fresh_id [OF _ ht inj] r by (simp add: extends_def represents_def)
      then obtain s3 where s3: "push_header L x s2 = Some (Inr (), s3)"
        "represents L U b (hs @ [x]) (scs @ [last scs + header_difficulty L x]) s3" "settings s3 = settings s2"
        using push_represents [OF s2(2) ne _ U(1, 2)] by blast
      have set3: "settings s3 = settings s" using s1(3) s2(3) s3(3) by simp
      have "branch_outcome L U b (hs @ [x]) (scs @ [last scs + header_difficulty L x]) s3 pow_check now_ms branch
        (apply_branch L now_ms pow_check (b + length (hs @ [x])) False branch s3)"
      proof (rule Cons.IH [OF s3(2)])
        show "covers U (config s3) (b + length (hs @ [x]) - 1) (b + length (hs @ [x]) - 1 + length branch)"
          using covers_sub [OF Cons.prems(3), of "b + length hs" "b + length hs + length branch"] set3 pos
          by (simp add: settings_eq)
        show "inj_on h_id (set (hs @ [x]) \<union> set branch)" using Cons.prems(4) by (simp add: insert_commute)
      qed simp_all
      moreover have "apply_branch L now_ms pow_check (b + length hs) first (x # branch) s =
          apply_branch L now_ms pow_check (b + length (hs @ [x])) False branch s3"
        unfolding run using s2(1) s3(1) by (simp add: bnd_def)
      moreover have "valid_reorg L (config s) (active_parameters s) pow_check now_ms b hs x"
        using ok p ht by (simp add: valid_reorg_check)
      ultimately show ?thesis using branch_outcome_step set3 by metis
    next
      case no: False
      then have nv: "\<not> ?v" by (simp add: valid_reorg_check)
      show ?thesis
      proof (cases ?c)
        case None
        with v run show ?thesis by (auto simp: branch_outcome_def reads_def bnd_def intro!: exI [of _ 0])
      next
        case (Some r)
        with no obtain e where "?c = Some (Inl e)" by (cases r) auto
        with v obtain s2 where "validate_reorg_header L now_ms pow_check x s1 = Some (Inl e, s2)" "represents L U b hs scs s2"
          "settings s2 = settings s1" by (auto elim: readsE)
        with run s1(3) kept [OF nv] show ?thesis by (simp add: bnd_def)
      qed
    qed
  qed
qed

section \<open>Deep reorganisations\<close>

lemma saved_zip:
  assumes "length scs = length hs"
  shows "map (\<lambda>h. (hs ! (h - b), scs ! (h - b))) [b + m..<b + length hs] = zip (drop m hs) (drop m scs)"
  by (rule nth_equalityI) (use assms in \<open>auto simp: add.commute\<close>)

lemma take_represents_bounds:
  assumes "represents L U b hs scs s" "n < length hs"
  shows "take (Suc n) hs \<noteq> []" "b + length (take (Suc n) hs) = b + n + 1" "last (take (Suc n) hs) = hs ! n"
    "length (take (Suc n) scs) = length (take (Suc n) hs)" "length (drop (Suc n) hs) = length (drop (Suc n) scs)"
  using assms by (auto simp: represents_def take_Suc_conv_app_nth)

lemma reorg_deep_run:
  assumes r: "represents L U b hs scs s" and n: "n < length hs" and br: "branch \<noteq> []"
    and p: "h_parent_id (hd branch) = h_id (hs ! n)"
    and U: "covers U (config s) (b + n) (max (b + length hs - 1) (b + n + length branch))"
  obtains s3 where "represents L U b (take (Suc n) hs) (take (Suc n) scs) s3" "settings s3 = settings s"
    "try_reorg_deep_impl L now_ms pow_check (b + n) branch s =
       bnd (catch (apply_branch L now_ms pow_check (b + n + 1) True branch)
         (\<lambda>e s'. case pop_to L (b + n) s' of
            None \<Rightarrow> None
          | Some s'' \<Rightarrow> throw e (reinsert L (zip (drop (Suc n) hs) (drop (Suc n) scs)) s''))) (\<lambda>_.
       ret (map h_id (drop (Suc n) hs))) s3"
proof -
  have ne: "hs \<noteq> []" using n by auto
  have len: "length scs = length hs" and base: "base_height s = Some b" using r ne by (auto simp: represents_def)
  have ht: "height s = b + length hs - 1" "\<not> is_empty s" using represents_height [OF r ne] by auto
  have ht': "height s + 1 = b + length hs" using ht(1) n by simp
  have U1: "b + n \<in> U" "{b + n..b + length hs - 1} \<subseteq> U"
    by (auto intro!: covers_mem [OF U] simp: le_max_iff_disj)
  obtain s1 where s1: "observe_with (header_at L (b + n)) s = Some (Inr (Some (hs ! n)), s1)"
    "represents L U b hs scs s1" "settings s1 = settings s"
    using reads_header_at [OF r U1(1)] n by (auto elim: readsE)
  let ?saved = "zip (drop (Suc n) hs) (drop (Suc n) scs)"
  have "set [b + Suc n..<b + length hs] \<subseteq> U"
    using n by (auto intro!: covers_mem [OF U] simp: le_max_iff_disj)
  then have "reads L U b hs scs s1 (save_above L [b + Suc n..<b + length hs]) (Some (Inr ?saved))"
    using save_above_reads [OF s1(2), of "[b + Suc n..<b + length hs]"] saved_zip [OF len, of b "Suc n"] by simp
  then obtain s2 where s2: "save_above L [b + Suc n..<b + length hs] s1 = Some (Inr ?saved, s2)"
    "represents L U b hs scs s2" "settings s2 = settings s1" by (rule readsE)
  have t: "represents L U b (take (Suc n) hs @ drop (Suc n) hs) (take (Suc n) scs @ drop (Suc n) scs) s2" using s2(2) by simp
  have r3: "represents L U b (take (Suc n) hs) (take (Suc n) scs) (drain L ?saved s2)"
    by (rule drain_represents [OF t]) (use take_represents_bounds [OF r n] in simp_all)
  have "map (h_id \<circ> fst) ?saved = map h_id (drop (Suc n) hs)" using len by (simp flip: map_map)
  then have "try_reorg_deep_impl L now_ms pow_check (b + n) branch s =
       bnd (catch (apply_branch L now_ms pow_check (b + n + 1) True branch)
         (\<lambda>e s'. case pop_to L (b + n) s' of None \<Rightarrow> None | Some s'' \<Rightarrow> throw e (reinsert L ?saved s''))) (\<lambda>_.
       ret (map h_id (drop (Suc n) hs))) (drain L ?saved s2)"
    using br ht(2) base p s1(1) s2(1) n ht'
    by (simp add: try_reorg_deep_impl_def bnd_def ensure_def ret_def reorg_floor_def change_def less_Suc_eq_le [symmetric])
  with r3 show thesis using that drain_index [of L ?saved s2] s1(3) s2(3) by simp
qed

lemma reorg_deep_cases:
  fixes now_ms :: u64 and pow_check :: bool
  assumes r: "represents L U b hs scs s" and n: "n < length hs" and br: "branch \<noteq> []"
    and p: "h_parent_id (hd branch) = h_id (hs ! n)"
    and U: "covers U (config s) (b + n) (max (b + length hs - 1) (b + n + length branch))"
    and inj: "inj_on h_id (set hs \<union> set branch)"
  defines "run \<equiv> try_reorg_deep_impl L now_ms pow_check (b + n) branch s"
    and "ok \<equiv> valid_branch L (config s) (active_parameters s) pow_check now_ms b (take (Suc n) hs) branch"
  shows "(\<exists>s'. run = Some (Inr (map h_id (drop (Suc n) hs)), s') \<and> ok \<and> settings s' = settings s
      \<and> represents L U b (take (Suc n) hs @ branch) (take (Suc n) scs @ branch_scores L (scs ! n) branch) s')
    \<or> (\<exists>e s'. run = Some (Inl e, s') \<and> \<not> ok \<and> represents L U b hs scs s' \<and> settings s' = settings s)
    \<or> (run = None \<and> (\<exists>k<length branch. reorg_check L (config s) (active_parameters s) pow_check now_ms b
         (take (Suc n) hs @ take k branch) (branch ! k) = None))"
proof -
  let ?hs1 = "take (Suc n) hs" and ?hs2 = "drop (Suc n) hs" and ?scs1 = "take (Suc n) scs" and ?scs2 = "drop (Suc n) scs"
  note bounds = take_represents_bounds [OF r n]
  have len: "length scs = length hs" and l: "linked b hs" and d: "distinct (map h_id hs)"
    using r by (auto simp: represents_def index_ok_def)
  obtain s3 where s3: "represents L U b ?hs1 ?scs1 s3" "settings s3 = settings s"
    and run: "run = bnd (catch (apply_branch L now_ms pow_check (b + n + 1) True branch)
         (\<lambda>e s'. case pop_to L (b + n) s' of
            None \<Rightarrow> None
          | Some s'' \<Rightarrow> throw e (reinsert L (zip ?hs2 ?scs2) s''))) (\<lambda>_. ret (map h_id ?hs2)) s3"
    unfolding run_def by (rule reorg_deep_run [OF r n br p U, of now_ms pow_check])
  have cfg: "config s3 = config s" "active_parameters s3 = active_parameters s" using s3(2) by (simp_all add: settings_eq)
  let ?a = "apply_branch L now_ms pow_check (b + n + 1) True branch s3"
  have o: "branch_outcome L U b ?hs1 ?scs1 s3 pow_check now_ms branch ?a"
  proof -
    have "covers U (config s3) (b + length ?hs1 - 1) (b + length ?hs1 - 1 + length branch)"
      using covers_sub [OF U, of "b + n" "b + n + length branch"] bounds(2) cfg(1) by simp
    moreover have "inj_on h_id (set ?hs1 \<union> set branch)" by (rule inj_on_subset [OF inj]) (auto dest: in_set_takeD)
    ultimately show ?thesis
      using apply_branch_outcome [OF s3(1) bounds(1), of branch True pow_check now_ms] p bounds(2, 3) by simp
  qed
  have lastsc: "last ?scs1 = scs ! n" using n len by (simp add: take_Suc_conv_app_nth)
  consider "?a = None" | e t where "?a = Some (Inl e, t)" | y t where "?a = Some (Inr y, t)"
    by (metis option.exhaust prod.exhaust sum.exhaust)
  then show ?thesis
  proof cases
    case 1
    with o run show ?thesis by (simp add: branch_outcome_def bnd_def catch_def cfg)
  next
    case 3
    with o run s3(2) lastsc show ?thesis by (simp add: branch_outcome_def bnd_def catch_def ret_def cfg ok_def)
  next
    case 2
    with o obtain k sext where k: "k \<le> length branch" "represents L U b (?hs1 @ take k branch) (?scs1 @ sext) t"
      "settings t = settings s" "\<not> ok"
      by (auto simp: branch_outcome_def cfg ok_def s3(2))
    have win: "{b + length ?hs1 - 1..b + length (?hs1 @ take k branch) - 1} \<subseteq> U"
      using k(1) bounds(2) by (auto intro!: covers_mem [OF U] simp: le_max_iff_disj)
    obtain t' where t': "pop_to L (b + n) t = Some t'" "represents L U b ?hs1 ?scs1 t'" "settings t' = settings t"
      using pop_to_represents [OF k(2) bounds(4, 1) win] bounds(2) by auto
    have "represents L U b (?hs1 @ ?hs2) (?scs1 @ ?scs2) (reinsert L (zip ?hs2 ?scs2) t')
      \<and> settings (reinsert L (zip ?hs2 ?scs2) t') = settings t'"
    proof (rule reinsert_represents [OF t'(2) bounds(1) bounds(5)])
      show "{b + length ?hs1..<b + length (?hs1 @ ?hs2)} \<subseteq> U" using bounds(2) by (auto intro!: covers_mem [OF U] simp: le_max_iff_disj)
    qed (use l d in simp_all)
    then have "run = Some (Inl e, reinsert L (zip ?hs2 ?scs2) t')"
      "represents L U b hs scs (reinsert L (zip ?hs2 ?scs2) t')" "settings (reinsert L (zip ?hs2 ?scs2) t') = settings s"
      using run 2 t' k(3) by (simp_all add: bnd_def catch_def throw_def)
    with k(4) show ?thesis by blast
  qed
qed

lemma valid_branch_nth:
  "valid_branch L cfg params pow_check now_ms b hs branch \<Longrightarrow> k < length branch \<Longrightarrow>
     valid_reorg L cfg params pow_check now_ms b (hs @ take k branch) (branch ! k)"
proof (induction branch arbitrary: hs k)
  case (Cons x branch)
  then show ?case by (cases k) (use Cons.IH [of "hs @ [x]"] in auto)
qed simp

lemma reorg_deep_refused:
  assumes r: "represents L U b hs scs s" and U: "fork \<in> U"
    and no: "hs = [] \<or> fork < b \<or> fork \<ge> b + length hs \<or> branch = []
      \<or> h_parent_id (hd branch) \<noteq> h_id (hs ! (fork - b))"
  shows "\<exists>s'. try_reorg_deep_impl L now_ms pow_check fork branch s = Some (Inl Reorg, s')
    \<and> represents L U b hs scs s' \<and> settings s' = settings s"
proof (cases "hs = [] \<or> fork < b \<or> fork \<ge> b + length hs \<or> branch = []")
  case True
  have "base_height s = (if hs = [] then None else Some b)" using r by (simp add: represents_def)
  moreover have "height s < fork" if "fork \<ge> b + length hs" "hs \<noteq> []" "\<not> fork < b"
  proof -
    have "length hs > 0" using that(2) by simp
    then show ?thesis using represents_height [OF r that(2)] that(1) by linarith
  qed
  ultimately have "try_reorg_deep_impl L now_ms pow_check fork branch s = Some (Inl Reorg, s)"
    using True represents_empty [OF r]
    by (auto simp: try_reorg_deep_impl_def bnd_def ensure_def ret_def throw_def reorg_floor_def)
  with r show ?thesis by simp
next
  case False
  then have p: "h_parent_id (hd branch) \<noteq> h_id (hs ! (fork - b))" using no by blast
  have "at_height b hs fork = Some (hs ! (fork - b))" using False by (simp add: at_height_def)
  then obtain s1 where s1: "observe_with (header_at L fork) s = Some (Inr (Some (hs ! (fork - b))), s1)"
    "represents L U b hs scs s1" "settings s1 = settings s"
    using reads_header_at [OF r U] by (auto elim: readsE)
  have "base_height s = Some b" "\<not> is_empty s" using r False represents_empty [OF r] by (auto simp: represents_def)
  moreover have "fork \<le> height s" using represents_height [OF r] False by auto
  ultimately have "try_reorg_deep_impl L now_ms pow_check fork branch s = Some (Inl Reorg, s1)"
    using False p s1(1) by (simp add: try_reorg_deep_impl_def bnd_def ensure_def ret_def throw_def reorg_floor_def)
  with s1 show ?thesis by blast
qed

lemma reorg_deep_outcome:
  assumes "represents L U b hs scs s"
    and "covers U (config s) fork (max (b + length hs - 1) (fork + length branch))"
    and "inj_on h_id (set hs \<union> set branch)"
  shows "let n = fork - b; keep = take (Suc n) hs;
      ok = (b \<le> fork \<and> fork < b + length hs \<and> branch \<noteq> []
        \<and> valid_branch L (config s) (active_parameters s) True now_ms b keep branch) in
    case try_reorg_deep L now_ms fork branch s of
      Some (Inr demoted, s') \<Rightarrow> ok \<and> demoted = map h_id (drop (Suc n) hs) \<and> settings s' = settings s
        \<and> represents L U b (keep @ branch) (take (Suc n) scs @ branch_scores L (scs ! n) branch) s'
    | Some (Inl e, s') \<Rightarrow> \<not> ok \<and> represents L U b hs scs s' \<and> settings s' = settings s
    | None \<Rightarrow> \<not> ok \<and> (\<exists>k<length branch. reorg_check L (config s) (active_parameters s) True now_ms b
        (keep @ take k branch) (branch ! k) = None)"
proof (cases "b \<le> fork \<and> fork < b + length hs \<and> branch \<noteq> [] \<and> h_parent_id (hd branch) = h_id (hs ! (fork - b))")
  case True
  define n where "n = fork - b"
  have n: "n < length hs" "b + n = fork" using True by (auto simp: n_def)
  let ?ok = "valid_branch L (config s) (active_parameters s) True now_ms b (take (Suc n) hs) branch"
  have nn: "\<not> ?ok" if "\<exists>k<length branch. reorg_check L (config s) (active_parameters s) True now_ms b
         (take (Suc n) hs @ take k branch) (branch ! k) = None"
    using that valid_branch_nth [of L "config s" "active_parameters s" True now_ms b "take (Suc n) hs" branch]
    by (auto simp: valid_reorg_check)
  have c: "covers U (config s) (b + n) (max (b + length hs - 1) (b + n + length branch))" using assms(2) n by simp
  have br: "branch \<noteq> []" "h_parent_id (hd branch) = h_id (hs ! n)" using True by (auto simp: n_def)
  have ok: "(b \<le> fork \<and> fork < b + length hs \<and> branch \<noteq> [] \<and> ?ok) = ?ok" using True by blast
  show ?thesis
    using reorg_deep_cases [OF assms(1) n(1) br c assms(3), of now_ms True] nn
    unfolding n_def [symmetric] Let_def try_reorg_deep_def ok n(2)
    by (auto split: option.split sum.split)
next
  case False
  have "fork \<in> U" using covers_mem [OF assms(2), of fork] by (simp add: le_max_iff_disj)
  then obtain s' where s': "try_reorg_deep_impl L now_ms True fork branch s = Some (Inl Reorg, s')"
    "represents L U b hs scs s'" "settings s' = settings s"
    using reorg_deep_refused [OF assms(1), of fork branch now_ms True] False by fastforce
  have "\<not> (b \<le> fork \<and> fork < b + length hs \<and> branch \<noteq> []
        \<and> valid_branch L (config s) (active_parameters s) True now_ms b (take (Suc (fork - b)) hs) branch)"
    using False by (cases branch) (auto simp: valid_reorg_def take_Suc_conv_app_nth less_diff_conv2)
  with s' show ?thesis by (simp add: Let_def try_reorg_deep_def)
qed

text \<open>(C3) Deep reorganisations are atomic. If the fork point is on the chain and every header of the branch is valid
  on top of the headers before it, the branch replaces everything above the fork point, the cumulative scores
  follow, and the ids of the demoted headers are returned in order. In every other case the call returns an error
  and the chain represents the same headers and scores as before, whatever was popped and pushed on the
  way; a panic needs a header whose own difficulty arithmetic divides by zero.\<close>

theorem try_reorg_deep_atomic:
  assumes "represents L U b hs scs s"
    and "covers U (config s) fork (max (b + length hs - 1) (fork + length branch))"
    and "inj_on h_id (set hs \<union> set branch)"
  shows "let n = fork - b; keep = take (Suc n) hs;
      ok = (b \<le> fork \<and> fork < b + length hs \<and> branch \<noteq> []
        \<and> valid_branch L (config s) (active_parameters s) True now_ms b keep branch) in
    case try_reorg_deep L now_ms fork branch s of
      Some (Inr demoted, s') \<Rightarrow> ok \<and> demoted = map h_id (drop (Suc n) hs) \<and> settings s' = settings s
        \<and> represents L U b (keep @ branch) (take (Suc n) scs @ branch_scores L (scs ! n) branch) s'
    | Some (Inl e, s') \<Rightarrow> \<not> ok \<and> represents L U b hs scs s' \<and> settings s' = settings s
    | None \<Rightarrow> \<not> ok \<and> (\<exists>k<length branch. reorg_check L (config s) (active_parameters s) True now_ms b
        (keep @ take k branch) (branch ! k) = None)"
  by (rule reorg_deep_outcome [OF assms])

text \<open>A chain of two headers, and a branch of two that forks off after the first.\<close>

definition sample_branch :: "header list" where
  "sample_branch = [(sample_header 2 20)\<lparr>h_id := 99\<rparr>, (sample_header 3 30)\<lparr>h_parent_id := 99\<rparr>]"

lemma testnet_small_window:
  assumes "{0..n} \<subseteq> U" "n < 128"
  shows "covers U config_testnet lo n"
proof -
  have "recalculation_heights config_testnet p = []" if "h_height p \<le> n" for p
    using that assms(2)
    by (auto simp: recalculation_heights_def Let_def epoch_length_at_def config_testnet_def dest: dvd_imp_le)
  then show ?thesis using assms(1) by (auto simp: covers_def)
qed

lemma testnet_same_difficulty:
  assumes "0 < h_height t" "h_height t < 128"
  shows "expected_difficulty lib config_testnet v t = Some (Inr (h_n_bits t))"
  using assms by (auto simp: expected_difficulty_def Let_def epoch_length_at_def config_testnet_def dest: dvd_imp_le)

lemma no_votes_ok: "check_header_votes [0, 0, 0] = Inr ()" "check_fork_vote v h [0, 0, 0] params = Inr True"
  by (simp_all add: check_header_votes_def check_fork_vote_def SOFT_FORK_VOTE_def)

lemma sample_branch_valid:
  "valid_branch sample_chain_lib config_testnet params True 0 1 [sample_header 1 5] sample_branch"
proof -
  have p: "verify_pow (pow sample_chain_lib) ((sample_header h ts)\<lparr>h_id := i\<rparr>) = Some (Inr ())"
    "verify_pow (pow sample_chain_lib) ((sample_header h ts)\<lparr>h_parent_id := i\<rparr>) = Some (Inr ())" for h ts i
    by (simp_all add: verify_pow_def sample_pow_def sample_header_def pow_target_def big_div_def signed_divide_int_def
        sample_chain_lib_def)
  have d: "max_time_drift_ms config_testnet = 450000" by (simp add: config_testnet_def)
  show ?thesis unfolding sample_branch_def valid_branch.simps valid_reorg_def d
    by (simp add: p) (simp add: sample_header_def no_votes_ok testnet_same_difficulty)
qed

theorem try_reorg_deep_atomic_witness:
  "\<exists>s s'. try_reorg_deep sample_chain_lib 0 1 sample_branch s = Some (Inr [2], s')
     \<and> represents sample_chain_lib {0..3} 1 [sample_header 1 5, sample_header 2 10] [10, 20] s
     \<and> represents sample_chain_lib {0..3} 1 (sample_header 1 5 # sample_branch) [10, 16842762, 33685514] s'"
proof -
  let ?hs = "[sample_header 1 5, sample_header 2 10]"
  have l: "linked 1 ?hs" by (auto simp: linked_def sample_header_def less_Suc_eq)
  have d: "distinct (map h_id ?hs)" by (simp add: sample_header_def)
  obtain s0 where s0: "represents sample_chain_lib {0..3} 1 ?hs [10, 20]
      (set_score_loader (at_height 1 [10, 20]) (set_header_loader (at_height 1 ?hs) s0))" "config s0 = config_testnet"
    by (rule restore_represents [OF sample_chain_lib_ok _ _ l d, of "{0..3}" "[10, 20]" config_testnet]) simp_all
  define s where "s = set_score_loader (at_height 1 [10, 20]) (set_header_loader (at_height 1 ?hs) s0)"
  have r: "represents sample_chain_lib {0..3} 1 ?hs [10, 20] s" using s0(1) by (simp add: s_def)
  have cfg: "config s = config_testnet" using s0(2) by (simp add: s_def set_score_loader_def set_header_loader_def)
  have c: "covers {0..3} (config s) 1 (max (1 + length ?hs - 1) (1 + length sample_branch))"
    unfolding cfg by (rule testnet_small_window) (simp_all add: sample_branch_def)
  have inj: "inj_on h_id (set ?hs \<union> set sample_branch)"
    by (simp add: sample_branch_def sample_header_def)
  have diff: "branch_scores sample_chain_lib 10 sample_branch = [16842762, 33685514]"
    by (simp add: sample_branch_def header_difficulty_def sample_chain_lib_def sample_pow_def sample_header_def)
  have ne: "sample_branch \<noteq> []" and id: "h_id (sample_header 2 10) = 2"
    by (simp_all add: sample_branch_def sample_header_def)
  have "\<exists>s'. try_reorg_deep sample_chain_lib 0 1 sample_branch s = Some (Inr [2], s')
      \<and> represents sample_chain_lib {0..3} 1 (sample_header 1 5 # sample_branch) [10, 16842762, 33685514] s'"
  proof (cases "try_reorg_deep sample_chain_lib 0 1 sample_branch s")
    case None
    then show ?thesis
      using try_reorg_deep_atomic [OF r c inj, of 0] sample_branch_valid [of "active_parameters s"] ne
      by (simp add: Let_def cfg)
  next
    case (Some p)
    then show ?thesis
      using try_reorg_deep_atomic [OF r c inj, of 0] sample_branch_valid [of "active_parameters s"] diff ne id
      by (cases p; cases "fst p") (auto simp: Let_def cfg)
  qed
  with r show ?thesis by blast
qed

end
