(* ===== verification/Header_Chain_Install.thy ===== *)
theory Header_Chain_Install
  imports Header_Chain_Reorg
begin

text \<open>
  The one-block reorganisation and the installation of a proof suffix, on chains represented by lists: what each
  outcome leaves behind.
\<close>

section \<open>One-block reorganisations\<close>

lemma represents_snocE:
  assumes "represents L U b (hs @ [x]) (scs @ [v]) s"
  shows "linked b (hs @ [x])" "extends b hs x" "length scs = length hs"
  using assms by (auto simp: represents_def extends_def linked_snoc index_ok_def)

lemma reorg_validate:
  assumes r: "represents L U b hs scs s" and ne: "hs \<noteq> []"
    and U: "covers U (config s) (b + length hs - 1) (b + length hs - 1)"
    and x: "h_parent_id x = h_id (last hs)" "h_height x = b + length hs"
    and st: "settings s = settings s0"
  obtains "validate_reorg_header L now_ms pow_check x s = None"
      "reorg_check L (config s0) (active_parameters s0) pow_check now_ms b hs x = None"
    | e s' where "validate_reorg_header L now_ms pow_check x s = Some (Inl e, s')"
      "\<not> valid_reorg L (config s0) (active_parameters s0) pow_check now_ms b hs x"
      "represents L U b hs scs s'" "settings s' = settings s0"
    | s' where "validate_reorg_header L now_ms pow_check x s = Some (Inr (), s')"
      "valid_reorg L (config s0) (active_parameters s0) pow_check now_ms b hs x"
      "represents L U b hs scs s'" "settings s' = settings s0"
proof -
  let ?c = "reorg_check L (config s0) (active_parameters s0) pow_check now_ms b hs x"
  have v: "reads L U b hs scs s (validate_reorg_header L now_ms pow_check x) ?c"
    using reads_validate_reorg_header [OF r ne U] st by (simp add: settings_eq)
  consider "?c = None" | e where "?c = Some (Inl e)" | "?c = Some (Inr ())"
    by (cases ?c; cases "the ?c") auto
  then show thesis
  proof cases
    case 1
    with v that(1) show thesis by (simp add: reads_def)
  next
    case 2
    with v that(2) st show thesis by (auto simp: valid_reorg_check elim: readsE)
  next
    case 3
    with v that(3) st x show thesis by (auto simp: valid_reorg_check elim: readsE)
  qed
qed

definition reorg_outcome where
  "reorg_outcome L U b hs old scs v s pow_check now_ms branch run \<longleftrightarrow>
     (case run of
        None \<Rightarrow> \<exists>k<length branch. reorg_check L (config s) (active_parameters s) pow_check now_ms b (hs @ take k branch) (branch ! k) = None
      | Some (Inr i, s') \<Rightarrow> i = h_id old \<and> valid_branch L (config s) (active_parameters s) pow_check now_ms b hs branch
          \<and> represents L U b (hs @ branch) (scs @ branch_scores L (last scs) branch) s' \<and> settings s' = settings s
      | Some (Inl e, s') \<Rightarrow> represents L U b (hs @ [old]) (scs @ [v]) s' \<and> settings s' = settings s)"

lemma reorg_one_body:
  assumes r: "represents L U b hs scs s1" and ne: "hs \<noteq> []" and old: "extends b hs old"
    and st: "settings s1 = settings s"
    and U: "covers U (config s) (b + length hs - 1) (b + length hs + 1)"
    and inj: "inj_on h_id (set hs \<union> {alt, cont})"
    and alt: "h_parent_id alt = h_id (last hs)" "h_height alt = b + length hs"
    and cont: "h_parent_id cont = h_id alt" "h_height cont = h_height alt + 1"
  shows "reorg_outcome L U b hs old scs v s pow_check now_ms [alt, cont]
    (bnd (catch (validate_reorg_header L now_ms pow_check alt)
           (\<lambda>e. bnd (change (restore_header L (old, v))) (\<lambda>_. throw e))) (\<lambda>_.
     bnd (push_header L alt) (\<lambda>_.
     bnd (catch (validate_reorg_header L now_ms pow_check cont)
           (\<lambda>e. bnd (pop_header L) (\<lambda>p. if p = None then panic
              else bnd (change (restore_header L (old, v))) (\<lambda>_. throw e)))) (\<lambda>_.
     bnd (push_header L cont) (\<lambda>_. ret (h_id old))))) s1)"
proof -
  have W: "b + length hs - 1 \<in> U" "b + length hs \<in> U" "b + length (hs @ [alt]) - 1 \<in> U" "b + length (hs @ [alt]) \<in> U"
    by (auto intro!: covers_mem [OF U])
  have C: "covers U (config s1) (b + length hs - 1) (b + length hs - 1)"
    using covers_sub [OF U, of "b + length hs - 1" "b + length hs - 1"] st by (simp add: settings_eq)
  have C': "covers U (config s) (b + length (hs @ [alt]) - 1) (b + length (hs @ [alt]) - 1)"
    using covers_sub [OF U, of "b + length hs" "b + length hs"] by simp
  have l: "linked b hs" using r by (simp add: represents_def)
  have bk: "represents L U b (hs @ [old]) (scs @ [v]) (restore_header L (old, v) t)
      \<and> settings (restore_header L (old, v) t) = settings s" if "represents L U b hs scs t" "settings t = settings s" for t
    using restore_header_represents [OF that(1) ne old W(2), of v] that(2) by simp
  show ?thesis
  proof (rule reorg_validate [OF r ne C alt st, of now_ms pow_check])
    assume "validate_reorg_header L now_ms pow_check alt s1 = None"
      "reorg_check L (config s) (active_parameters s) pow_check now_ms b hs alt = None"
    then show ?thesis by (auto simp: reorg_outcome_def bnd_def catch_def intro!: exI [of _ 0])
  next
    fix e s2
    assume "validate_reorg_header L now_ms pow_check alt s1 = Some (Inl e, s2)" "represents L U b hs scs s2"
      "settings s2 = settings s"
    then show ?thesis using bk by (simp add: reorg_outcome_def bnd_def catch_def change_def throw_def)
  next
    fix s2
    assume v1: "validate_reorg_header L now_ms pow_check alt s1 = Some (Inr (), s2)"
      "valid_reorg L (config s) (active_parameters s) pow_check now_ms b hs alt" "represents L U b hs scs s2"
      "settings s2 = settings s"
    have ea: "extends b hs alt"
      using alt fresh_id [OF l alt(2)] inj by (auto simp: extends_def intro: inj_on_subset)
    obtain s3 where p1: "push_header L alt s2 = Some (Inr (), s3)"
      "represents L U b (hs @ [alt]) (scs @ [last scs + header_difficulty L alt]) s3" "settings s3 = settings s2"
      by (rule push_represents [OF v1(3) ne ea W(1, 2)])
    have st3: "settings s3 = settings s" using p1(3) v1(4) by simp
    have C3: "covers U (config s3) (b + length (hs @ [alt]) - 1) (b + length (hs @ [alt]) - 1)"
      using C' st3 by (simp add: settings_eq)
    have c: "h_parent_id cont = h_id (last (hs @ [alt]))" "h_height cont = b + length (hs @ [alt])"
      using cont alt by auto
    show ?thesis
    proof (rule reorg_validate [OF p1(2) _ C3 c st3, of now_ms pow_check])
      assume "validate_reorg_header L now_ms pow_check cont s3 = None"
        "reorg_check L (config s) (active_parameters s) pow_check now_ms b (hs @ [alt]) cont = None"
      then show ?thesis using v1(1) p1(1) by (auto simp: reorg_outcome_def bnd_def catch_def intro!: exI [of _ 1])
    next
      fix e s4
      assume v2: "validate_reorg_header L now_ms pow_check cont s3 = Some (Inl e, s4)"
        "represents L U b (hs @ [alt]) (scs @ [last scs + header_difficulty L alt]) s4" "settings s4 = settings s"
      obtain s5 where "pop_header L s4 = Some (Inr (Some (alt, last scs + header_difficulty L alt)), s5)"
        "represents L U b hs scs s5" "settings s5 = settings s4" by (rule pop_represents [OF v2(2) W(2)])
      then show ?thesis using v1(1) p1(1) v2(1, 3) bk by (simp add: reorg_outcome_def bnd_def catch_def change_def throw_def)
    next
      fix s4
      assume v2: "validate_reorg_header L now_ms pow_check cont s3 = Some (Inr (), s4)"
        "valid_reorg L (config s) (active_parameters s) pow_check now_ms b (hs @ [alt]) cont"
        "represents L U b (hs @ [alt]) (scs @ [last scs + header_difficulty L alt]) s4" "settings s4 = settings s"
      have "linked b (hs @ [alt])" using l alt by (simp add: linked_snoc)
      then have ec: "extends b (hs @ [alt]) cont"
        using c fresh_id [of b "hs @ [alt]" cont] inj by (auto simp: extends_def insert_commute)
      obtain s5 where "push_header L cont s4 = Some (Inr (), s5)"
        "represents L U b ((hs @ [alt]) @ [cont]) ((scs @ [last scs + header_difficulty L alt])
          @ [last (scs @ [last scs + header_difficulty L alt]) + header_difficulty L cont]) s5" "settings s5 = settings s4"
        by (rule push_represents [OF v2(3) _ ec W(3, 4)]) auto
      then show ?thesis using v1 p1 v2 by (simp add: reorg_outcome_def bnd_def catch_def ret_def)
    qed simp
  qed
qed

lemma try_reorg_outcome:
  assumes r: "represents L U b hs scs s" and U: "covers U (config s) (height s - 1) (height s + 1)"
    and inj: "inj_on h_id (set hs \<union> {alt, cont})"
  shows "case try_reorg_impl L now_ms pow_check alt cont s of
      None \<Rightarrow> \<exists>k<2. reorg_check L (config s) (active_parameters s) pow_check now_ms b
        (butlast hs @ take k [alt, cont]) ([alt, cont] ! k) = None
    | Some (Inl e, s') \<Rightarrow> represents L U b hs scs s' \<and> settings s' = settings s
    | Some (Inr i, s') \<Rightarrow> length hs \<ge> 2 \<and> i = h_id (last hs) \<and> settings s' = settings s
        \<and> valid_branch L (config s) (active_parameters s) pow_check now_ms b (butlast hs) [alt, cont]
        \<and> represents L U b (butlast hs @ [alt, cont]) (butlast scs @ branch_scores L (last (butlast scs)) [alt, cont]) s'"
proof (cases "length hs \<ge> 2")
  case False
  then have "length (by_id s) < 2" using index_length [of b hs "by_id s"] r by (auto simp: represents_def)
  with r show ?thesis by (simp add: try_reorg_impl_def bnd_def ensure_def throw_def)
next
  case True
  then have ne: "hs \<noteq> []" by auto
  then obtain hs0 old where hs: "hs = hs0 @ [old]" by (cases hs rule: rev_cases) auto
  have "length scs = length hs" using r by (simp add: represents_def)
  then obtain scs0 v where scs: "scs = scs0 @ [v]" using hs by (cases scs rule: rev_cases) auto
  have ne0: "hs0 \<noteq> []" using True hs by auto
  have r': "represents L U b (hs0 @ [old]) (scs0 @ [v]) s" using r hs scs by simp
  note old = represents_snocE [OF r']
  have ht: "height s = b + length hs0" using represents_height [OF r ne] hs by simp
  have len: "length (by_id s) \<ge> 2" using index_length [of b hs "by_id s"] r True by (auto simp: represents_def)
  have win: "b + length hs0 \<in> U" using covers_mem [OF U, of "height s"] ht by simp
  have win': "b + length hs - 1 \<in> U" using win hs by simp
  have lasts: "last hs = old" "butlast hs = hs0" "butlast scs = scs0" using hs scs by auto
  obtain s1 where s1: "tip L s = Some (Inr old, s1)" "represents L U b hs scs s1" "settings s1 = settings s"
    using reads_tip [OF r ne win'] unfolding lasts by (rule readsE)
  have s1r: "represents L U b (hs0 @ [old]) (scs0 @ [v]) s1" using s1(2) hs scs by simp
  obtain s2 where s2: "pop_header L s1 = Some (Inr (Some (old, v)), s2)" "represents L U b hs0 scs0 s2" "settings s2 = settings s1"
    by (rule pop_represents [OF s1r win])
  have st2: "settings s2 = settings s" using s1(3) s2(3) by simp
  have link: "h_parent_id old = h_id (last hs0)" using old(2) ne0 by (simp add: extends_def)
  show ?thesis
  proof (cases "h_height alt = height s \<and> h_parent_id alt = h_parent_id old \<and> h_parent_id cont = h_id alt
      \<and> h_height cont = h_height alt + 1")
    case False
    have "\<exists>e. try_reorg_impl L now_ms pow_check alt cont s = Some (Inl e, s1)"
      using False len s1(1) by (auto simp: try_reorg_impl_def bnd_def ensure_def throw_def ret_def)
    with s1 show ?thesis by auto
  next
    case ok: True
    have U': "covers U (config s) (b + length hs0 - 1) (b + length hs0 + 1)" using U ht by simp
    have inj': "inj_on h_id (set hs0 \<union> {alt, cont})" by (rule inj_on_subset [OF inj]) (auto simp: hs)
    have alt: "h_parent_id alt = h_id (last hs0)" "h_height alt = b + length hs0" using ok link ht by auto
    have cont: "h_parent_id cont = h_id alt" "h_height cont = h_height alt + 1" using ok by auto
    have run: "try_reorg_impl L now_ms pow_check alt cont s =
       bnd (catch (validate_reorg_header L now_ms pow_check alt)
           (\<lambda>e. bnd (change (restore_header L (old, v))) (\<lambda>_. throw e))) (\<lambda>_.
       bnd (push_header L alt) (\<lambda>_.
       bnd (catch (validate_reorg_header L now_ms pow_check cont)
           (\<lambda>e. bnd (pop_header L) (\<lambda>p. if p = None then panic
              else bnd (change (restore_header L (old, v))) (\<lambda>_. throw e)))) (\<lambda>_.
       bnd (push_header L cont) (\<lambda>_. ret (h_id old))))) s2"
      using len s1(1) s2(1) ok by (simp add: try_reorg_impl_def bnd_def ensure_def ret_def)
    note o = reorg_one_body [OF s2(2) ne0 old(2) st2 U' inj' alt cont, of v pow_check now_ms, folded run]
    show ?thesis
    proof (cases "try_reorg_impl L now_ms pow_check alt cont s")
      case None
      with o show ?thesis unfolding lasts by (simp add: reorg_outcome_def numeral_2_eq_2)
    next
      case (Some p)
      with o True show ?thesis unfolding lasts
        by (cases p; cases "fst p") (simp_all add: reorg_outcome_def hs scs)
    qed
  qed
qed

section \<open>Installing a proof suffix\<close>

text \<open>The suffix tail must link up with rising heights, and every header must carry its work.\<close>

definition valid_suffix :: "('hc, 'sc, 'st) chain_lib \<Rightarrow> header list \<Rightarrow> bool" where
  "valid_suffix L hs \<longleftrightarrow> hs \<noteq> [] \<and> linked (h_height (hd hs)) hs \<and> (\<forall>x\<in>set hs. verify_pow (pow L) x = Some (Inr ()))"

definition installed_of :: "header \<Rightarrow> nat \<Rightarrow> installed_header" where
  "installed_of x v = \<lparr>ih_id = h_id x, ih_height = h_height x, ih_score = v\<rparr>"

lemma rollback_install_represents:
  assumes "represents L U b hs scs s"
  shows "represents L U b' [] [] (rollback_install L s)"
    "config (rollback_install L s) = config s \<and> active_parameters (rollback_install L s) = active_parameters s
     \<and> active_proposed_update_bytes (rollback_install L s) = active_proposed_update_bytes s
     \<and> extension_loader (rollback_install L s) = extension_loader s \<and> \<not> light_client_mode (rollback_install L s)"
proof -
  have "store_serves L U (store_clear L (lazy s)) Map.empty Map.empty"
    using assms store_serves_clear unfolding represents_def by blast
  then show "represents L U b' [] [] (rollback_install L s)"
    by (simp add: represents_def rollback_install_def linked_def index_ok_def keys_distinct_def)
qed (simp add: rollback_install_def)

definition install_outcome where
  "install_outcome L U b hs scs s tail run \<longleftrightarrow>
     (case run of
        None \<Rightarrow> \<exists>x\<in>set tail. verify_pow (pow L) x = None
      | Some (Inr installed, s') \<Rightarrow> linked b (hs @ tail) \<and> (\<forall>x\<in>set tail. verify_pow (pow L) x = Some (Inr ()))
          \<and> installed = map2 installed_of tail (branch_scores L (last scs) tail)
          \<and> represents L U b (hs @ tail) (scs @ branch_scores L (last scs) tail) s' \<and> settings s' = settings s
      | Some (Inl e, s') \<Rightarrow> \<not> (linked b (hs @ tail) \<and> (\<forall>x\<in>set tail. verify_pow (pow L) x = Some (Inr ())))
          \<and> represents L U b [] [] s' \<and> settings s' = settings (s\<lparr>light_client_mode := False\<rparr>))"

lemma install_tail_outcome:
  assumes "represents L U b hs scs s" "hs \<noteq> []" "{b + length hs - 1..b + length hs - 1 + length tail} \<subseteq> U"
    and "inj_on h_id (set hs \<union> set tail)"
  shows "install_outcome L U b hs scs s tail (install_tail L True tail s)"
  using assms
proof (induction tail arbitrary: hs scs s)
  case Nil
  then show ?case by (simp add: install_outcome_def ret_def represents_def)
next
  case (Cons x tail)
  note r = Cons.prems(1) and ne = Cons.prems(2)
  have pos: "length hs > 0" using ne by simp
  have W: "b + length hs - 1 \<in> U" "b + length hs \<in> U" using Cons.prems(3) pos by auto
  have tipheight: "h_height (last hs) + 1 = b + length hs" using represents_window [OF r ne] pos by simp
  have l: "linked b hs" using r by (simp add: represents_def)
  obtain s1 where s1: "tip L s = Some (Inr (last hs), s1)" "represents L U b hs scs s1" "settings s1 = settings s"
    using reads_tip [OF r ne W(1)] by (rule readsE)
  have undo: "install_outcome L U b hs scs s (x # tail) (Some (Inl e, rollback_install L t))"
    if "represents L U b hs scs t" "settings t = settings s"
      "\<not> (linked b (hs @ x # tail) \<and> verify_pow (pow L) x = Some (Inr ()))" for t and e :: chain_error
    using rollback_install_represents [OF that(1)] that(2, 3)
    by (auto simp: install_outcome_def settings_eq)
  have lx: "linked b (hs @ [x])" if "linked b (hs @ x # tail)" using linked_appendD [of b "hs @ [x]" tail] that by simp
  show ?case
  proof (cases "h_parent_id x = h_id (last hs) \<and> h_height x = b + length hs")
    case False
    then have nl: "\<not> linked b (hs @ x # tail)" using lx ne by (auto simp: linked_snoc)
    have "install_outcome L U b hs scs s (x # tail) (Some (Inl e, rollback_install L s1))" for e :: chain_error
      by (rule undo [OF s1(2, 3)]) (simp add: nl)
    with False s1(1) tipheight show ?thesis by (auto simp: bnd_def throw_def)
  next
    case True
    have links: "h_id (last hs) = h_parent_id x" "Suc (h_height (last hs)) = h_height x" using True tipheight by auto
    have run: "install_tail L True (x # tail) s =
       bnd (catch (lift_panicking (verify_pow (pow L) x)) (\<lambda>e. throw e \<circ> rollback_install L)) (\<lambda>_.
       bnd (push_header L x) (\<lambda>_.
       bnd (observe_with (score_at L (h_height x))) (\<lambda>score.
         case score of None \<Rightarrow> panic | Some score \<Rightarrow>
       bnd (install_tail L True tail) (\<lambda>installed.
       ret (installed_of x score # installed))))) s1"
      unfolding install_tail.simps installed_of_def using links s1(1) by (simp add: bnd_def)
    consider "verify_pow (pow L) x = None" | e where "verify_pow (pow L) x = Some (Inl e)" | "verify_pow (pow L) x = Some (Inr ())"
      by (cases "verify_pow (pow L) x"; cases "the (verify_pow (pow L) x)") auto
    then show ?thesis
    proof cases
      case 1
      with run show ?thesis by (simp add: install_outcome_def bnd_def catch_def lift_panicking_def)
    next
      case 2
      with run undo s1(2, 3) show ?thesis by (simp add: bnd_def catch_def lift_panicking_def throw_def)
    next
      case 3
      let ?v = "last scs + header_difficulty L x"
      have "extends b hs x"
        using True fresh_id [OF l, of x] Cons.prems(4) by (auto simp: extends_def intro: inj_on_subset)
      then obtain s2 where s2: "push_header L x s1 = Some (Inr (), s2)" "represents L U b (hs @ [x]) (scs @ [?v]) s2"
        "settings s2 = settings s1" using push_represents [OF s1(2) ne _ W] by blast
      have len: "length scs = length hs" using r by (simp add: represents_def)
      have "at_height b (scs @ [?v]) (h_height x) = Some ?v" using True len by (simp add: at_height_def nth_append)
      then obtain s3 where s3: "observe_with (score_at L (h_height x)) s2 = Some (Inr (Some ?v), s3)"
        "represents L U b (hs @ [x]) (scs @ [?v]) s3" "settings s3 = settings s2"
        using reads_score_at [OF s2(2), of "h_height x"] True W(2) by (auto elim: readsE)
      have st: "settings s3 = settings s" using s1(3) s2(3) s3(3) by simp
      have "install_outcome L U b (hs @ [x]) (scs @ [?v]) s3 tail (install_tail L True tail s3)"
      proof (rule Cons.IH [OF s3(2)])
        show "{b + length (hs @ [x]) - 1..b + length (hs @ [x]) - 1 + length tail} \<subseteq> U"
          by (rule order_trans [OF _ Cons.prems(3)]) (use pos in auto)
        show "inj_on h_id (set (hs @ [x]) \<union> set tail)" using Cons.prems(4) by (simp add: insert_commute)
      qed simp
      moreover have "install_tail L True (x # tail) s =
          bnd (install_tail L True tail) (\<lambda>installed. ret (installed_of x ?v # installed)) s3"
        unfolding run using 3 s2(1) s3(1) by (simp add: bnd_def catch_def lift_panicking_def)
      ultimately show ?thesis using 3 st
        by (cases "install_tail L True tail s3"; cases "fst (the (install_tail L True tail s3))")
           (auto simp: install_outcome_def bnd_def ret_def settings_eq)
    qed
  qed
qed

lemma install_head_represents:
  assumes r: "represents L U b [] [] s" and U: "h_height x \<in> U"
  shows "represents L U (h_height x) [x] [0]
    (s\<lparr>base_height := Some (h_height x), by_id := hm_insert (h_id x) (h_height x) (by_id s),
       lazy := store_put L (h_height x) x 0 (lazy s), light_client_mode := True\<rparr>)"
proof -
  have "represents L U (h_height x) [] [] s" using r by (simp add: represents_def linked_def index_ok_def)
  from put_represents [OF this, of x 0] U show ?thesis by (simp add: represents_def extends_def)
qed

lemma install_run:
  assumes "represents L U b hs scs s" "hs = [] \<longrightarrow> \<not> light_client_mode s"
    and "{h_height x..h_height x + length tail} \<subseteq> U" "inj_on h_id (set (x # tail))"
  shows "case install_from_nipopow_proof L x tail s of
      None \<Rightarrow> hs = [] \<and> (\<exists>y\<in>set (x # tail). verify_pow (pow L) y = None)
    | Some (Inl e, s') \<Rightarrow> \<not> (hs = [] \<and> valid_suffix L (x # tail))
        \<and> represents L U b hs scs s' \<and> settings s' = settings s
    | Some (Inr installed, s') \<Rightarrow> hs = [] \<and> valid_suffix L (x # tail)
        \<and> represents L U (h_height x) (x # tail) (0 # branch_scores L 0 tail) s'
        \<and> settings s' = settings (s\<lparr>light_client_mode := True\<rparr>)
        \<and> installed = map2 installed_of (x # tail) (0 # branch_scores L 0 tail)"
proof (cases "hs = []")
  case False
  then have "install_from_nipopow_proof L x tail s = Some (Inl ChainNotEmpty, s)"
    using represents_empty [OF assms(1)]
    by (simp add: install_from_nipopow_proof_def install_from_nipopow_proof_impl_def bnd_def ensure_def throw_def)
  with False assms(1) show ?thesis by simp
next
  case True
  then have r: "represents L U b [] [] s" and scs: "scs = []" using assms(1) by (auto simp: represents_def)
  define s1 where "s1 = s\<lparr>base_height := Some (h_height x), by_id := hm_insert (h_id x) (h_height x) (by_id s),
       lazy := store_put L (h_height x) x 0 (lazy s), light_client_mode := True\<rparr>"
  have run: "install_from_nipopow_proof L x tail s =
      (case verify_pow (pow L) x of
         None \<Rightarrow> None | Some (Inl e) \<Rightarrow> Some (Inl e, s)
       | Some (Inr _) \<Rightarrow> bnd (install_tail L True tail) (\<lambda>installed. ret (installed_of x 0 # installed)) s1)"
    using represents_empty [OF r]
    by (simp add: install_from_nipopow_proof_def install_from_nipopow_proof_impl_def bnd_def ensure_def ret_def
        lift_panicking_def change_def s1_def installed_of_def split: option.split sum.split)
  have U: "h_height x \<in> U" using assms(3) by auto
  have "represents L U (h_height x) [x] [0] s1" unfolding s1_def by (rule install_head_represents [OF r U])
  then have o: "install_outcome L U (h_height x) [x] [0] s1 tail (install_tail L True tail s1)"
    by (rule install_tail_outcome) (use assms(3, 4) in auto)
  have st: "settings (s1\<lparr>light_client_mode := False\<rparr>) = settings s" "settings s1 = settings (s\<lparr>light_client_mode := True\<rparr>)"
    using assms(2) True by (simp_all add: settings_def s1_def)
  have empty: "represents L U b [] [] t" if "represents L U (h_height x) [] [] t" for t
    using that by (simp add: represents_def linked_def index_ok_def)
  consider "verify_pow (pow L) x = None" | e where "verify_pow (pow L) x = Some (Inl e)" | "verify_pow (pow L) x = Some (Inr ())"
    by (cases "verify_pow (pow L) x"; cases "the (verify_pow (pow L) x)") auto
  then show ?thesis
  proof cases
    case 3
    with o st empty show ?thesis unfolding run True scs
      by (cases "install_tail L True tail s1"; cases "fst (the (install_tail L True tail s1))")
         (auto simp: install_outcome_def bnd_def ret_def valid_suffix_def)
  qed (use r run True scs in \<open>auto simp: valid_suffix_def\<close>)
qed

text \<open>(C12) Installing a proof suffix is all or nothing. On an empty chain a suffix whose headers link up, rise by one
  and carry their work becomes the chain, with scores counted from zero at its head, and the chain is in light mode
  from then on; the headers are reported back with their scores. Any other suffix, and any suffix offered to a
  non-empty chain, is refused with the chain and its mode as they were, however far the walk had got.\<close>

theorem install_all_or_nothing:
  assumes "represents L U b hs scs s" "hs = [] \<longrightarrow> \<not> light_client_mode s"
    and "{h_height x..h_height x + length tail} \<subseteq> U" "inj_on h_id (set (x # tail))"
  shows "case install_from_nipopow_proof L x tail s of
      None \<Rightarrow> hs = [] \<and> (\<exists>y\<in>set (x # tail). verify_pow (pow L) y = None)
    | Some (Inl e, s') \<Rightarrow> \<not> (hs = [] \<and> valid_suffix L (x # tail))
        \<and> represents L U b hs scs s' \<and> settings s' = settings s
    | Some (Inr installed, s') \<Rightarrow> hs = [] \<and> valid_suffix L (x # tail)
        \<and> represents L U (h_height x) (x # tail) (0 # branch_scores L 0 tail) s'
        \<and> settings s' = settings (s\<lparr>light_client_mode := True\<rparr>)
        \<and> installed = map2 installed_of (x # tail) (0 # branch_scores L 0 tail)"
  by (rule install_run [OF assms])

theorem install_all_or_nothing_witness:
  "\<exists>s'. install_from_nipopow_proof sample_chain_lib (sample_header 7 5) [sample_header 8 10]
       (new_chain sample_chain_lib config_testnet)
     = Some (Inr [installed_of (sample_header 7 5) 0, installed_of (sample_header 8 10) 16842752], s')
   \<and> represents sample_chain_lib {7, 8} 7 [sample_header 7 5, sample_header 8 10] [0, 16842752] s'"
proof -
  let ?s = "new_chain sample_chain_lib config_testnet"
  have r: "represents sample_chain_lib {7, 8} 7 [] [] ?s" by (rule new_chain_represents [OF sample_chain_lib_ok]) auto
  have h: "h_height (sample_header n ts) = n" for n ts by (simp add: sample_header_def)
  have p: "verify_pow (pow sample_chain_lib) (sample_header n ts) = Some (Inr ())" for n ts
    using testnet_pow_sample by (simp add: sample_chain_lib_def)
  have "linked 7 [sample_header 7 5, sample_header 8 10]" by (auto simp: linked_def sample_header_def less_Suc_eq)
  then have v: "valid_suffix sample_chain_lib [sample_header 7 5, sample_header 8 10]" using p by (simp add: valid_suffix_def h)
  have d: "header_difficulty sample_chain_lib (sample_header n ts) = 16842752" for n ts
    by (simp add: header_difficulty_def sample_chain_lib_def sample_pow_def sample_header_def)
  have i: "inj_on h_id (set [sample_header 7 5, sample_header 8 10])" by (simp add: sample_header_def)
  have w: "{h_height (sample_header 7 5)..h_height (sample_header 7 5) + length [sample_header 8 10]} \<subseteq> {7, 8}"
    unfolding h by auto
  have m: "[] = [] \<longrightarrow> \<not> light_client_mode ?s" by (simp add: new_chain_def)
  show ?thesis
    using install_all_or_nothing [OF r m w i] v p d h
    by (cases "install_from_nipopow_proof sample_chain_lib (sample_header 7 5) [sample_header 8 10] ?s";
        cases "fst (the (install_from_nipopow_proof sample_chain_lib (sample_header 7 5) [sample_header 8 10] ?s))") auto
qed

end
