(* ===== verification/Header_Chain_Reach.thy ===== *)
theory Header_Chain_Reach
  imports Header_Chain_Install
begin

text \<open>
  The reachable states of the header chain. After any sequence of calls, each followed by the integrator storing
  what the chain accepted, the chain is a linked list of headers that carry their work, with their cumulative
  scores; on a full node every header also meets the other consensus rules.
\<close>

section \<open>Valid chains and their scores\<close>

definition follows :: "('hc, 'sc, 'st) chain_lib \<Rightarrow> chain_config \<Rightarrow> nat \<Rightarrow> header list \<Rightarrow> header \<Rightarrow> bool" where
  "follows L cfg b hs x \<longleftrightarrow>
     h_timestamp (last hs) < h_timestamp x
     \<and> expected_difficulty (pow L) cfg (at_height b hs) (last hs) = Some (Inr (h_n_bits x))
     \<and> check_header_votes (h_votes x) = Inr ()"

definition chain_valid :: "('hc, 'sc, 'st) chain_lib \<Rightarrow> chain_config \<Rightarrow> bool \<Rightarrow> nat \<Rightarrow> header list \<Rightarrow> bool" where
  "chain_valid L cfg light b hs \<longleftrightarrow>
     linked b hs \<and> distinct (map h_id hs) \<and> (\<forall>x\<in>set hs. verify_pow (pow L) x = Some (Inr ()))
     \<and> (\<not> light \<longrightarrow> b = 1 \<and> (hs \<noteq> [] \<longrightarrow> valid_genesis L cfg (hd hs))
         \<and> (\<forall>k. 0 < k \<and> k < length hs \<longrightarrow> follows L cfg b (take k hs) (hs ! k)))"

definition chain_scores :: "('hc, 'sc, 'st) chain_lib \<Rightarrow> bool \<Rightarrow> header list \<Rightarrow> nat list" where
  "chain_scores L light hs = (case hs of
     [] \<Rightarrow> []
   | x # xs \<Rightarrow> let v = (if light then 0 else header_difficulty L x) in v # branch_scores L v xs)"

lemma branch_scores_append:
  "branch_scores L v (xs @ ys) = branch_scores L v xs @ branch_scores L (last (v # branch_scores L v xs)) ys"
  by (induction xs arbitrary: v) auto

lemma branch_scores_take: "branch_scores L v (take n xs) = take n (branch_scores L v xs)"
proof (induction xs arbitrary: v n)
  case (Cons x xs)
  then show ?case by (cases n) auto
qed simp

lemma length_branch_scores [simp]: "length (branch_scores L v xs) = length xs"
  by (induction xs arbitrary: v) auto

lemma chain_scores_append:
  "hs \<noteq> [] \<Longrightarrow> chain_scores L light (hs @ xs) = chain_scores L light hs @ branch_scores L (last (chain_scores L light hs)) xs"
  by (cases hs) (simp_all add: chain_scores_def Let_def branch_scores_append)

lemma chain_scores_take: "chain_scores L light (take n hs) = take n (chain_scores L light hs)"
  by (cases hs; cases n) (simp_all add: chain_scores_def Let_def branch_scores_take)

lemma length_chain_scores [simp]: "length (chain_scores L light hs) = length hs"
  by (cases hs) (simp_all add: chain_scores_def Let_def)

lemma chain_scores_butlast: "chain_scores L light (butlast hs) = butlast (chain_scores L light hs)"
  by (simp add: butlast_conv_take chain_scores_take)

lemma chain_valid_Nil: "chain_valid L cfg light b [] \<longleftrightarrow> (light \<or> b = 1)"
  by (auto simp: chain_valid_def linked_def)

lemma chain_valid_take: "chain_valid L cfg light b hs \<Longrightarrow> chain_valid L cfg light b (take n hs)"
proof -
  assume v: "chain_valid L cfg light b hs"
  have "take k (take n hs) = take k hs \<and> take n hs ! k = hs ! k" if "k < length (take n hs)" for k
    using that by (auto simp: min_def split: if_splits)
  with v show ?thesis
    by (auto simp: chain_valid_def linked_take take_map [symmetric] hd_take dest: in_set_takeD)
qed

lemma chain_valid_snoc:
  assumes v: "chain_valid L cfg light b hs" and ne: "hs \<noteq> []"
    and x: "extends b hs x" "verify_pow (pow L) x = Some (Inr ())" "light \<or> follows L cfg b hs x"
  shows "chain_valid L cfg light b (hs @ [x])"
proof -
  have "follows L cfg b (take k (hs @ [x])) ((hs @ [x]) ! k)" if "\<not> light" "0 < k" "k < length (hs @ [x])" for k
    using v x that by (cases "k = length hs") (auto simp: chain_valid_def nth_append)
  then show ?thesis using v x ne by (auto simp: chain_valid_def linked_snoc extends_def)
qed

lemma chain_valid_branch:
  assumes "chain_valid L cfg light b hs" "hs \<noteq> []" "valid_branch L cfg params True now_ms b hs xs"
    and "inj_on h_id (set hs \<union> set xs)"
  shows "chain_valid L cfg light b (hs @ xs)"
  using assms
proof (induction xs arbitrary: hs)
  case (Cons x xs)
  have v: "valid_reorg L cfg params True now_ms b hs x" and rest: "valid_branch L cfg params True now_ms b (hs @ [x]) xs"
    using Cons.prems(3) by auto
  have l: "linked b hs" using Cons.prems(1) by (simp add: chain_valid_def)
  have "extends b hs x"
    using v fresh_id [OF l, of x] Cons.prems(4) by (auto simp: extends_def valid_reorg_def intro: inj_on_subset)
  moreover have "verify_pow (pow L) x = Some (Inr ())" "light \<or> follows L cfg b hs x"
    using v by (auto simp: valid_reorg_def follows_def)
  ultimately have "chain_valid L cfg light b (hs @ [x])" by (rule chain_valid_snoc [OF Cons.prems(1, 2)])
  from Cons.IH [OF this _ rest] Cons.prems(4) show ?case by (simp add: insert_commute)
qed simp

lemma chain_valid_next:
  assumes v: "chain_valid L cfg light b hs" and n: "valid_next L cfg params light now_ms b hs x"
    and inj: "inj_on h_id (insert x (set hs))" and e: "hs = [] \<longrightarrow> \<not> light"
  shows "chain_valid L cfg light b (hs @ [x])"
proof (cases "hs = []")
  case True
  with v n e show ?thesis by (simp add: chain_valid_def valid_next_def valid_genesis_def linked_def)
next
  case False
  have c: "valid_child L cfg params light now_ms b hs x" using n False by (simp add: valid_next_def)
  have l: "linked b hs" using v by (simp add: chain_valid_def)
  have pos: "length hs > 0" using False by simp
  have "h_height (last hs) = b + (length hs - 1)" using l False by (simp add: linked_def last_conv_nth)
  then have ht: "h_height x = b + length hs" using c pos by (simp add: valid_child_def)
  have "extends b hs x" using c ht fresh_id [OF l ht inj] by (simp add: extends_def valid_child_def)
  then show ?thesis by (rule chain_valid_snoc [OF v False]) (use c in \<open>auto simp: valid_child_def follows_def\<close>)
qed

lemma chain_scores_next:
  "hs = [] \<longrightarrow> \<not> light \<Longrightarrow> chain_scores L light (hs @ [x]) = chain_scores L light hs @ [next_score L (chain_scores L light hs) x]"
  by (cases hs) (simp_all add: chain_scores_def next_score_def Let_def branch_scores_append)

section \<open>Storing\<close>

text \<open>The integrator persists what the chain serves; the loaders then read the database.\<close>

definition stored :: "('hc, 'sc, 'st) chain_lib \<Rightarrow> ('hc, 'sc) header_chain \<Rightarrow> ('hc, 'sc) header_chain \<Rightarrow> bool" where
  "stored L s t \<longleftrightarrow> (\<exists>hl sl. (\<forall>h x. fst (header_at L h s) = Some x \<longrightarrow> hl h = Some x)
     \<and> (\<forall>h v. fst (score_at L h s) = Some v \<longrightarrow> sl h = Some v)
     \<and> t = set_score_loader sl (set_header_loader hl s))"

lemma header_at_value:
  assumes "represents L U b hs scs s"
  shows "fst (header_at L h s) = at_height b hs h"
proof (cases "hs = [] \<or> h < b \<or> h > height s")
  case True
  then show ?thesis using assms represents_height [OF assms]
    by (auto simp: header_at_def represents_def at_height_def split: option.splits)
next
  case False
  then have r: "\<not> h < b" "\<not> height s < h" "hs \<noteq> []" by auto
  obtain k where k: "h = b + k" "k < length hs" by (rule represents_in_range [OF assms r(3, 1, 2)])
  have st: "store_serves L U (lazy s) (at_height b hs) (at_height b scs)" and ix: "index_ok b hs (by_id s)"
    using assms by (auto simp: represents_def)
  obtain z where "get_header L h (lazy s) = (Some (hs ! k), z)"
    using store_get_header(2) [OF st, of h "hs ! k"] k by (cases "get_header L h (lazy s)") simp
  with assms k r index_get [OF ix k(2)] show ?thesis by (simp add: header_at_def represents_def)
qed

lemma score_at_value:
  assumes "represents L U b hs scs s"
  shows "fst (score_at L h s) = at_height b scs h"
proof (cases "hs = [] \<or> h < b \<or> h > height s")
  case True
  then show ?thesis using assms represents_height [OF assms]
    by (auto simp: score_at_def represents_def at_height_def split: option.splits)
next
  case False
  then have r: "\<not> h < b" "\<not> height s < h" "hs \<noteq> []" by auto
  obtain k where k: "h = b + k" "k < length hs" by (rule represents_in_range [OF assms r(3, 1, 2)])
  have st: "store_serves L U (lazy s) (at_height b hs) (at_height b scs)" and len: "length scs = length hs"
    using assms by (auto simp: represents_def)
  obtain z where "get_score L h (lazy s) = (Some (scs ! k), z)"
    using store_get_score(2) [OF st, of h "scs ! k"] k len by (cases "get_score L h (lazy s)") simp
  with assms k r len show ?thesis by (simp add: score_at_def represents_def)
qed

lemma stored_represents:
  assumes r: "represents L U b hs scs s" and "stored L s t"
  shows "represents L {} b hs scs t" "settings t = settings s"
proof -
  obtain hl sl where l: "\<forall>h x. fst (header_at L h s) = Some x \<longrightarrow> hl h = Some x"
    "\<forall>h v. fst (score_at L h s) = Some v \<longrightarrow> sl h = Some v" "t = set_score_loader sl (set_header_loader hl s)"
    using assms(2) unfolding stored_def by blast
  have "store_serves L U (lazy s) (at_height b hs) (at_height b scs)" using r by (simp add: represents_def)
  then have "store_serves L {} ((lazy s)\<lparr>header_loader := Some hl, score_loader := Some sl\<rparr>) (at_height b hs) (at_height b scs)"
    by (rule store_serves_persisted) (use l header_at_value [OF r] score_at_value [OF r] in \<open>auto simp: fits_def\<close>)
  with r l(3) show "represents L {} b hs scs t" by (simp add: represents_def set_score_loader_def set_header_loader_def)
  show "settings t = settings s" using l(3) by (simp add: settings_def set_score_loader_def set_header_loader_def)
qed

lemma represents_widen: "represents L {} b hs scs s \<Longrightarrow> fits L U (lazy s) \<Longrightarrow> represents L U b hs scs s"
  by (simp add: represents_def store_serves_widen)

section \<open>Reachable chains\<close>

text \<open>
  The headers offered to the chain come from \<open>H\<close>. In each rule the caches are large enough for the window \<open>U\<close> of
  heights the call reads. A restart rebuilds the chain from the stored index, in the mode it had.
\<close>

definition index_view :: "(nat \<times> id32) list \<Rightarrow> ('hc, 'sc) header_chain \<Rightarrow> bool" where
  "index_view es s \<longleftrightarrow> sorted_wrt (<) (map fst es) \<and> set es = {(h, i). height_of i s = Some h}"

inductive chain_reachable ::
  "('hc, 'sc, 'st) chain_lib \<Rightarrow> chain_config \<Rightarrow> header set \<Rightarrow> ('hc, 'sc) header_chain \<Rightarrow> bool" for L cfg H where
  new: "chain_reachable L cfg H (new_chain L cfg)"
| append: "chain_reachable L cfg H s \<Longrightarrow> x \<in> H \<Longrightarrow> covers U cfg (height s) (height s + 1) \<Longrightarrow> fits L U (lazy s)
    \<Longrightarrow> try_append L now_ms x s = Some (r, t) \<Longrightarrow> stored L t u \<Longrightarrow> chain_reachable L cfg H u"
| reorg: "chain_reachable L cfg H s \<Longrightarrow> alt \<in> H \<Longrightarrow> cont \<in> H \<Longrightarrow> covers U cfg (height s - 1) (height s + 1)
    \<Longrightarrow> fits L U (lazy s) \<Longrightarrow> try_reorg L now_ms alt cont s = Some (r1, t) \<Longrightarrow> stored L t u \<Longrightarrow> chain_reachable L cfg H u"
| reorg_deep: "chain_reachable L cfg H s \<Longrightarrow> set branch \<subseteq> H \<Longrightarrow> covers U cfg fork (max (height s) (fork + length branch))
    \<Longrightarrow> fits L U (lazy s) \<Longrightarrow> try_reorg_deep L now_ms fork branch s = Some (r2, t) \<Longrightarrow> stored L t u \<Longrightarrow> chain_reachable L cfg H u"
| install: "chain_reachable L cfg H s \<Longrightarrow> set (x # tail) \<subseteq> H \<Longrightarrow> {h_height x..h_height x + length tail} \<subseteq> U
    \<Longrightarrow> fits L U (lazy s) \<Longrightarrow> install_from_nipopow_proof L x tail s = Some (r3, t) \<Longrightarrow> stored L t u \<Longrightarrow> chain_reachable L cfg H u"
| epoch: "chain_reachable L cfg H s \<Longrightarrow> chain_reachable L cfg H (apply_epoch_boundary_parameters params bs s)"
| read: "chain_reachable L cfg H s \<Longrightarrow> fits L {h} (lazy s) \<Longrightarrow> stored L (snd (header_at L h s)) u \<Longrightarrow> chain_reachable L cfg H u"
| capacity: "chain_reachable L cfg H s \<Longrightarrow> chain_reachable L cfg H (set_cache_capacity L n s)"
| restart: "chain_reachable L cfg H s \<Longrightarrow> index_view es s \<Longrightarrow> restore L cfg es = Inr t \<Longrightarrow> light_client_mode t = light_client_mode s
    \<Longrightarrow> (\<forall>h x. fst (header_at L h s) = Some x \<longrightarrow> hl h = Some x) \<Longrightarrow> (\<forall>h v. fst (score_at L h s) = Some v \<longrightarrow> sl h = Some v)
    \<Longrightarrow> chain_reachable L cfg H (set_score_loader sl (set_header_loader hl t))"

definition chain_inv ::
  "('hc, 'sc, 'st) chain_lib \<Rightarrow> chain_config \<Rightarrow> header set \<Rightarrow> nat \<Rightarrow> header list \<Rightarrow> ('hc, 'sc) header_chain \<Rightarrow> bool" where
  "chain_inv L cfg H b hs s \<longleftrightarrow>
     represents L {} b hs (chain_scores L (light_client_mode s) hs) s \<and> config s = cfg \<and> set hs \<subseteq> H
     \<and> chain_valid L cfg (light_client_mode s) b hs \<and> (hs = [] \<longrightarrow> \<not> light_client_mode s)"

lemma chain_invE:
  assumes "chain_inv L cfg H b hs s" "fits L U (lazy s)"
  obtains "represents L U b hs (chain_scores L (light_client_mode s) hs) s" "config s = cfg" "set hs \<subseteq> H"
    "chain_valid L cfg (light_client_mode s) b hs" "hs = [] \<longrightarrow> \<not> light_client_mode s \<and> b = 1"
    "height s = b + length hs - 1"
proof -
  have i: "represents L {} b hs (chain_scores L (light_client_mode s) hs) s" "config s = cfg" "set hs \<subseteq> H"
    "chain_valid L cfg (light_client_mode s) b hs" "hs = [] \<longrightarrow> \<not> light_client_mode s \<and> b = 1"
    using assms(1) by (auto simp: chain_inv_def chain_valid_Nil)
  have "height s = b + length hs - 1"
  proof (cases "hs = []")
    case True
    with i show ?thesis by (simp add: represents_def height_def)
  qed (use represents_height [OF i(1)] in simp)
  with i that represents_widen [OF i(1) assms(2)] show thesis by blast
qed

lemma chain_inv_stored:
  assumes "represents L U b hs (chain_scores L light hs) t" "stored L t u" "config t = cfg" "light_client_mode t = light"
    "set hs \<subseteq> H" "chain_valid L cfg light b hs" "hs = [] \<longrightarrow> \<not> light"
  shows "\<exists>b hs. chain_inv L cfg H b hs u"
  using stored_represents [OF assms(1, 2)] assms(3-7) by (auto simp: chain_inv_def settings_eq)

lemma inv_append:
  assumes i: "chain_inv L cfg H b hs s" and inj: "inj_on h_id H" and x: "x \<in> H"
    and U: "covers U cfg (height s) (height s + 1)" "fits L U (lazy s)"
    and run: "try_append L now_ms x s = Some (r, t)" and st: "stored L t u"
  shows "\<exists>b hs. chain_inv L cfg H b hs u"
proof (rule chain_invE [OF i U(2)])
  let ?l = "light_client_mode s"
  assume r: "represents L U b hs (chain_scores L ?l hs) s" and cfg: "config s = cfg" and H: "set hs \<subseteq> H"
    and v: "chain_valid L cfg ?l b hs" and e: "hs = [] \<longrightarrow> \<not> ?l \<and> b = 1" and ht: "height s = b + length hs - 1"
  have "b + length hs = height s + 1" unfolding ht using e by (cases "hs = []") (simp_all add: Suc_leI)
  with U(1) cfg have c: "covers U (config s) (b + length hs - 1) (b + length hs)" unfolding ht by simp
  have inj': "inj_on h_id (insert x (set hs))" by (rule inj_on_subset [OF inj]) (use H x in auto)
  have b: "hs = [] \<longrightarrow> b = 1" using e by blast
  have o: "settings t = settings s"
    "r = Inr Extended \<Longrightarrow> valid_next L cfg (active_parameters s) ?l now_ms b hs x
       \<and> represents L U b (hs @ [x]) (chain_scores L ?l hs @ [next_score L (chain_scores L ?l hs) x]) t"
    "r \<noteq> Inr Extended \<Longrightarrow> represents L U b hs (chain_scores L ?l hs) t"
    using append_outcome [OF r b c inj', of now_ms] run append_spec_extends [of L cfg "active_parameters s" ?l now_ms b hs x] cfg
    by (auto split: option.splits)
  show ?thesis
  proof (cases "r = Inr Extended")
    case True
    have "chain_valid L cfg ?l b (hs @ [x])" using chain_valid_next [OF v _ inj'] o(2) [OF True] e by blast
    moreover have rep: "represents L U b (hs @ [x]) (chain_scores L ?l (hs @ [x])) t"
      using o(2) [OF True] chain_scores_next [of hs ?l L x] e by simp
    ultimately show ?thesis using o(1) cfg H x by (intro chain_inv_stored [OF rep st]) (auto simp: settings_eq)
  next
    case False
    from o(1) v e H cfg show ?thesis by (intro chain_inv_stored [OF o(3) [OF False] st]) (auto simp: settings_eq)
  qed
qed

lemma inv_reorg:
  assumes i: "chain_inv L cfg H b hs s" and inj: "inj_on h_id H" and x: "alt \<in> H" "cont \<in> H"
    and U: "covers U cfg (height s - 1) (height s + 1)" "fits L U (lazy s)"
    and run: "try_reorg L now_ms alt cont s = Some (r, t)" and st: "stored L t u"
  shows "\<exists>b hs. chain_inv L cfg H b hs u"
proof (rule chain_invE [OF i U(2)])
  let ?l = "light_client_mode s"
  assume r: "represents L U b hs (chain_scores L ?l hs) s" and cfg: "config s = cfg" and H: "set hs \<subseteq> H"
    and v: "chain_valid L cfg ?l b hs" and e: "hs = [] \<longrightarrow> \<not> ?l \<and> b = 1"
  have inj': "inj_on h_id (set hs \<union> {alt, cont})" by (rule inj_on_subset [OF inj]) (use H x in auto)
  have c: "covers U (config s) (height s - 1) (height s + 1)" using U(1) cfg by simp
  note o = try_reorg_outcome [OF r c inj', where now_ms = now_ms and pow_check = True, folded try_reorg_def, unfolded run]
  show ?thesis
  proof (cases r)
    case (Inl a)
    then have rep: "represents L U b hs (chain_scores L ?l hs) t" and "settings t = settings s" using o by auto
    with v e H cfg show ?thesis by (intro chain_inv_stored [OF rep st]) (auto simp: settings_eq)
  next
    case (Inr j)
    then have n: "length hs \<ge> 2" and b: "valid_branch L cfg (active_parameters s) True now_ms b (butlast hs) [alt, cont]"
      and t: "settings t = settings s" "represents L U b (butlast hs @ [alt, cont])
        (butlast (chain_scores L ?l hs) @ branch_scores L (last (butlast (chain_scores L ?l hs))) [alt, cont]) t"
      using o cfg by auto
    have ne: "butlast hs \<noteq> []" using n by (cases hs rule: rev_cases) auto
    have sub: "set (butlast hs) \<subseteq> set hs" by (auto dest: in_set_butlastD)
    have "chain_valid L cfg ?l b (butlast hs)" using chain_valid_take [OF v] by (simp add: butlast_conv_take)
    then have "chain_valid L cfg ?l b (butlast hs @ [alt, cont])"
      by (rule chain_valid_branch [OF _ ne b]) (rule inj_on_subset [OF inj'], use sub in auto)
    moreover have rep: "represents L U b (butlast hs @ [alt, cont]) (chain_scores L ?l (butlast hs @ [alt, cont])) t"
      unfolding chain_scores_append [OF ne] chain_scores_butlast by (rule t(2))
    ultimately show ?thesis using t(1) cfg H x sub by (intro chain_inv_stored [OF rep st]) (auto simp: settings_eq)
  qed
qed

lemma inv_reorg_deep:
  assumes i: "chain_inv L cfg H b hs s" and inj: "inj_on h_id H" and x: "set branch \<subseteq> H"
    and U: "covers U cfg fork (max (height s) (fork + length branch))" "fits L U (lazy s)"
    and run: "try_reorg_deep L now_ms fork branch s = Some (r, t)" and st: "stored L t u"
  shows "\<exists>b hs. chain_inv L cfg H b hs u"
proof (rule chain_invE [OF i U(2)])
  let ?l = "light_client_mode s" and ?k = "take (Suc (fork - b)) hs"
  assume r: "represents L U b hs (chain_scores L ?l hs) s" and cfg: "config s = cfg" and H: "set hs \<subseteq> H"
    and v: "chain_valid L cfg ?l b hs" and e: "hs = [] \<longrightarrow> \<not> ?l \<and> b = 1" and ht: "height s = b + length hs - 1"
  have inj': "inj_on h_id (set hs \<union> set branch)" by (rule inj_on_subset [OF inj]) (use H x in auto)
  have c: "covers U (config s) fork (max (b + length hs - 1) (fork + length branch))" using U(1) cfg ht by simp
  note o = reorg_deep_outcome [OF r c inj', of now_ms, unfolded run Let_def]
  show ?thesis
  proof (cases r)
    case (Inl a)
    then have rep: "represents L U b hs (chain_scores L ?l hs) t" and "settings t = settings s" using o by auto
    with v e H cfg show ?thesis by (intro chain_inv_stored [OF rep st]) (auto simp: settings_eq)
  next
    case (Inr j)
    then have n: "b \<le> fork" "fork < b + length hs"
      and b: "valid_branch L cfg (active_parameters s) True now_ms b ?k branch"
      and t: "settings t = settings s" "represents L U b (?k @ branch)
        (take (Suc (fork - b)) (chain_scores L ?l hs) @ branch_scores L (chain_scores L ?l hs ! (fork - b)) branch) t"
      using o cfg by auto
    have ne: "?k \<noteq> []" using n by auto
    have "chain_valid L cfg ?l b (?k @ branch)"
      by (rule chain_valid_branch [OF chain_valid_take [OF v] ne b])
         (rule inj_on_subset [OF inj'], auto dest: in_set_takeD)
    moreover have "last (take (Suc (fork - b)) (chain_scores L ?l hs)) = chain_scores L ?l hs ! (fork - b)"
      using n by (simp add: take_Suc_conv_app_nth)
    then have rep: "represents L U b (?k @ branch) (chain_scores L ?l (?k @ branch)) t"
      unfolding chain_scores_append [OF ne] chain_scores_take using t(2) by simp
    ultimately show ?thesis using t(1) cfg H x ne by (intro chain_inv_stored [OF rep st]) (auto simp: settings_eq dest: in_set_takeD)
  qed
qed

lemma inv_install:
  assumes i: "chain_inv L cfg H b hs s" and inj: "inj_on h_id H" and x: "set (x # tail) \<subseteq> H"
    and U: "{h_height x..h_height x + length tail} \<subseteq> U" "fits L U (lazy s)"
    and run: "install_from_nipopow_proof L x tail s = Some (r, t)" and st: "stored L t u"
  shows "\<exists>b hs. chain_inv L cfg H b hs u"
proof (rule chain_invE [OF i U(2)])
  let ?l = "light_client_mode s"
  assume r: "represents L U b hs (chain_scores L ?l hs) s" and cfg: "config s = cfg" and H: "set hs \<subseteq> H"
    and v: "chain_valid L cfg ?l b hs" and e: "hs = [] \<longrightarrow> \<not> ?l \<and> b = 1"
  have inj': "inj_on h_id (set (x # tail))" by (rule inj_on_subset [OF inj x])
  have e': "hs = [] \<longrightarrow> \<not> ?l" using e by blast
  note o = install_run [OF r e' U(1) inj', unfolded run]
  show ?thesis
  proof (cases r)
    case (Inl a)
    then have rep: "represents L U b hs (chain_scores L ?l hs) t" and "settings t = settings s" using o by auto
    with v e H cfg show ?thesis by (intro chain_inv_stored [OF rep st]) (auto simp: settings_eq)
  next
    case (Inr j)
    then have s: "valid_suffix L (x # tail)" and t: "settings t = settings (s\<lparr>light_client_mode := True\<rparr>)"
      "represents L U (h_height x) (x # tail) (0 # branch_scores L 0 tail) t" using o by auto
    have "distinct (map h_id (x # tail))" using t(2) by (simp add: represents_def index_ok_def)
    then have "chain_valid L cfg True (h_height x) (x # tail)" using s by (simp add: chain_valid_def valid_suffix_def)
    moreover have rep: "represents L U (h_height x) (x # tail) (chain_scores L True (x # tail)) t"
      using t(2) by (simp add: chain_scores_def)
    ultimately show ?thesis using t(1) cfg x by (intro chain_inv_stored [OF rep st]) (auto simp: settings_eq)
  qed
qed

lemma sorted_pairs_unique:
  assumes "sorted_wrt (<) (map fst xs)" "sorted_wrt (<) (map fst ys)" "set xs = set (ys :: ('k :: linorder \<times> 'v) list)"
  shows "xs = ys"
proof -
  have f: "map fst xs = map fst ys" using assms by (intro strict_sorted_equal) auto
  have d: "distinct (map fst ys)" using assms(2) by (simp add: strict_sorted_iff)
  show ?thesis
  proof (rule nth_equalityI)
    show len: "length xs = length ys" using f map_eq_imp_length_eq by blast
    fix k
    assume k: "k < length xs"
    then have "xs ! k \<in> set ys" using assms(3) nth_mem by blast
    moreover have "fst (xs ! k) = fst (ys ! k)" using f k len by (metis nth_map)
    ultimately show "xs ! k = ys ! k" using d k len by (metis eq_key_imp_eq_value nth_mem prod.collapse)
  qed
qed

lemma index_view_unique:
  assumes r: "represents L U b hs scs s" and e: "index_view es s"
  shows "es = index_of b hs"
proof (rule sorted_pairs_unique)
  show "sorted_wrt (<) (map fst es)" using e by (simp add: index_view_def)
  show "sorted_wrt (<) (map fst (index_of b hs))" by (simp add: index_of_def)
  have "(h, i) \<in> set es \<longleftrightarrow> (\<exists>k<length hs. h_id (hs ! k) = i \<and> h = b + k)" for h i
    using r e by (auto simp: index_view_def height_of_def represents_def index_ok_def)
  moreover have "(h, i) \<in> set (index_of b hs) \<longleftrightarrow> (\<exists>k<length hs. h_id (hs ! k) = i \<and> h = b + k)" for h i
    unfolding index_of_def in_set_zip by (rule ex_cong1) auto
  ultimately show "set es = set (index_of b hs)" by auto
qed

lemma inv_restart:
  assumes L: "lru_lib_ok L" and i: "chain_inv L cfg H b hs s" and es: "index_view es s" "restore L cfg es = Inr t"
    and light: "light_client_mode t = light_client_mode s"
    and l: "\<forall>h x. fst (header_at L h s) = Some x \<longrightarrow> hl h = Some x" "\<forall>h v. fst (score_at L h s) = Some v \<longrightarrow> sl h = Some v"
  shows "chain_inv L cfg H b hs (set_score_loader sl (set_header_loader hl t))"
proof -
  let ?l = "light_client_mode s"
  let ?scs = "chain_scores L ?l hs"
  have r: "represents L {} b hs ?scs s" and v: "chain_valid L cfg ?l b hs" using i by (auto simp: chain_inv_def)
  have hs: "linked b hs" "distinct (map h_id hs)" using v by (auto simp: chain_valid_def)
  obtain t' where t': "restore L cfg (index_of b hs) = Inr t'"
    "represents L {} b hs ?scs (set_score_loader (at_height b ?scs) (set_header_loader (at_height b hs) t'))" "config t' = cfg"
    by (rule restore_represents [OF L _ _ hs, of "{}" ?scs cfg]) auto
  have t: "t' = t" using t'(1) es(2) index_view_unique [OF r es(1)] by simp
  have "store_serves L {} ((lazy t)\<lparr>header_loader := Some (at_height b hs), score_loader := Some (at_height b ?scs)\<rparr>)
      (at_height b hs) (at_height b ?scs)"
    using t'(2) by (simp add: represents_def set_score_loader_def set_header_loader_def t)
  from store_serves_persisted [OF this, of "{}" hl sl]
  have "store_serves L {} ((lazy t)\<lparr>header_loader := Some hl, score_loader := Some sl\<rparr>) (at_height b hs) (at_height b ?scs)"
    using l header_at_value [OF r] score_at_value [OF r] by (simp add: fits_def)
  with t'(2, 3) i light show ?thesis
    by (simp add: t chain_inv_def represents_def set_score_loader_def set_header_loader_def)
qed

lemma inv_read:
  assumes i: "chain_inv L cfg H b hs s" and f: "fits L {h} (lazy s)" and st: "stored L (snd (header_at L h s)) u"
  shows "\<exists>b hs. chain_inv L cfg H b hs u"
proof (rule chain_invE [OF i f])
  let ?l = "light_client_mode s"
  assume r: "represents L {h} b hs (chain_scores L ?l hs) s" and "config s = cfg" "set hs \<subseteq> H"
    and "chain_valid L cfg ?l b hs" "hs = [] \<longrightarrow> \<not> ?l \<and> b = 1"
  moreover note o = header_at_represents(2) [OF r, of h, simplified]
  ultimately show ?thesis by (intro chain_inv_stored [OF conjunct1 [OF o] st]) (auto simp: settings_eq)
qed

lemma chain_reachable_inv:
  assumes "lru_lib_ok L" "inj_on h_id H" "chain_reachable L cfg H s"
  shows "\<exists>b hs. chain_inv L cfg H b hs s"
  using assms(3)
proof induction
  case new
  have "represents L {} 1 [] [] (new_chain L cfg)" by (rule new_chain_represents [OF assms(1)]) auto
  then have "chain_inv L cfg H 1 [] (new_chain L cfg)"
    by (simp add: chain_inv_def chain_valid_Nil chain_scores_def new_chain_def)
  then show ?case by blast
next
  case (append s x U now_ms r t u)
  then show ?case using inv_append [OF _ assms(2)] by blast
next
  case (reorg s alt cont U now_ms r1 t u)
  then show ?case using inv_reorg [OF _ assms(2)] by blast
next
  case (reorg_deep s branch U fork now_ms r2 t u)
  then show ?case using inv_reorg_deep [OF _ assms(2)] by blast
next
  case (install s x tail U r3 t u)
  from install.IH obtain b hs where i: "chain_inv L cfg H b hs s" by blast
  show ?case by (rule inv_install [OF i assms(2) install.hyps(2-6)])
next
  case (epoch s params bs)
  then obtain b hs where "chain_inv L cfg H b hs s" by blast
  then have "chain_inv L cfg H b hs (apply_epoch_boundary_parameters params bs s)"
    by (simp add: chain_inv_def represents_def apply_epoch_boundary_parameters_def)
  then show ?case by blast
next
  case (read s h u)
  then show ?case using inv_read by blast
next
  case (capacity s n)
  then obtain b hs where "chain_inv L cfg H b hs s" by blast
  then have "chain_inv L cfg H b hs (set_cache_capacity L n s)"
    by (simp add: chain_inv_def represents_def set_cache_capacity_def store_serves_resize)
  then show ?case by blast
next
  case (restart s es t hl sl)
  from restart.IH obtain b hs where i: "chain_inv L cfg H b hs s" by blast
  show ?case using inv_restart [OF assms(1) i restart.hyps(2-6)] by blast
qed

text \<open>(C1) The header chain's invariant. Whatever sequence of appends, reorganisations, proof installations, parameter
  changes, reads, cache resizes and restarts led here, there is one list of headers that every query answers from:
  the heights are consecutive, every header names its predecessor, the ids are distinct, every header carries its
  work, the id index gives exactly each header's height, and the score at a height is the sum of the
  difficulties up to it. On a full node the list starts with a valid genesis, and every later header has a larger timestamp than its
  parent, the difficulty the chain before it demands, and well-formed votes.\<close>

theorem header_chain_invariants:
  assumes "lru_lib_ok L" "inj_on h_id H" "chain_reachable L cfg H s"
  shows "\<exists>b hs. chain_valid L cfg (light_client_mode s) b hs \<and> set hs \<subseteq> H
    \<and> height s = b + length hs - 1 \<and> (is_empty s \<longleftrightarrow> hs = [])
    \<and> (\<forall>h. fst (header_at L h s) = at_height b hs h)
    \<and> (\<forall>h. fst (score_at L h s) = at_height b (chain_scores L (light_client_mode s) hs) h)
    \<and> (\<forall>i. height_of i s = find_height b hs i)"
proof -
  obtain b hs where i: "chain_inv L cfg H b hs s" using chain_reachable_inv [OF assms] by blast
  then have r: "represents L {} b hs (chain_scores L (light_client_mode s) hs) s" by (simp add: chain_inv_def)
  have "fits L {} (lazy s)" by (simp add: fits_def)
  with i have "height s = b + length hs - 1" by (rule chain_invE)
  moreover have "height_of i s = find_height b hs i" for i
    using find_height_index [of b hs "by_id s" i] r by (simp add: represents_def height_of_def)
  ultimately show ?thesis
    using i header_at_value [OF r] score_at_value [OF r] represents_empty [OF r] unfolding chain_inv_def by blast
qed

theorem header_chain_invariants_witness:
  "\<exists>s. chain_reachable sample_chain_lib config_testnet {sample_header 1 5} s \<and> height s = 1
     \<and> fst (header_at sample_chain_lib 1 s) = Some (sample_header 1 5)"
proof -
  let ?s = "new_chain sample_chain_lib config_testnet" and ?x = "sample_header 1 5"
  have r: "represents sample_chain_lib {0, 1} 1 [] [] ?s"
    by (rule new_chain_represents [OF sample_chain_lib_ok]) auto
  have cfg: "config ?s = config_testnet" "height ?s = 0" "\<not> light_client_mode ?s" by (simp_all add: new_chain_def height_def)
  have "recalculation_heights config_testnet p = []" if "h_height p \<le> 1" for p
    using that by (auto simp: recalculation_heights_def Let_def epoch_length_at_def config_testnet_def dest: dvd_imp_le)
  then have c: "covers {0, 1} config_testnet 0 1" unfolding covers_def by auto
  have g: "valid_genesis sample_chain_lib config_testnet ?x"
    using testnet_pow_sample [of 1 5]
    by (simp add: valid_genesis_def sample_chain_lib_def sample_header_def config_testnet_def genesis_parent_id_def)
  have "append_spec sample_chain_lib config_testnet (active_parameters ?s) False 0 1 [] ?x = Some (Inr Extended)"
    unfolding append_spec_extends using g by (simp add: valid_next_def)
  then obtain t where t: "try_append sample_chain_lib 0 ?x ?s = Some (Inr Extended, t)"
    "represents sample_chain_lib {0, 1} 1 [?x] [next_score sample_chain_lib [] ?x] t"
    using append_outcome [OF r, of ?x 0] c cfg by auto
  define u where "u = set_score_loader (\<lambda>h. fst (score_at sample_chain_lib h t))
    (set_header_loader (\<lambda>h. fst (header_at sample_chain_lib h t)) t)"
  have u: "stored sample_chain_lib t u" unfolding stored_def u_def by (intro exI conjI) auto
  have f: "fits sample_chain_lib {0, 1} (lazy ?s)"
    by (simp add: fits_def new_chain_def with_default_capacity_def with_capacity_def DEFAULT_CACHE_CAPACITY_def
        sample_chain_lib_def sample_lru_def)
  have R: "chain_reachable sample_chain_lib config_testnet {?x} u"
    by (rule chain_reachable.append [OF chain_reachable.new, where U = "{0, 1}"]) (use c cfg f t(1) u in auto)
  have inj: "inj_on h_id {?x}" by simp
  have ne: "\<not> is_empty u" using stored_represents [OF t(2) u] represents_empty by fastforce
  obtain b hs where "chain_valid sample_chain_lib config_testnet (light_client_mode u) b hs" "set hs \<subseteq> {?x}"
    "height u = b + length hs - 1" "is_empty u \<longleftrightarrow> hs = []" "\<forall>h. fst (header_at sample_chain_lib h u) = at_height b hs h"
    using header_chain_invariants [OF sample_chain_lib_ok inj R] by blast
  moreover from this ne obtain k where "hs = ?x # k" "distinct (map h_id hs)" "set k \<subseteq> {?x}" "linked b hs"
    by (cases hs) (auto simp: chain_valid_def)
  moreover from this have "hs = [?x]" by (cases k) auto
  moreover have "h_height ?x = 1" by (simp add: sample_header_def)
  ultimately have "height u = 1 \<and> fst (header_at sample_chain_lib 1 u) = Some ?x"
    by (simp add: linked_def at_height_def)
  with R show ?thesis by blast
qed

end
