(* ===== verification/Delivery.thy ===== *)
theory Delivery
  imports Chain_Types
begin

text \<open>
  The delivery tracker (\<open>sync/src/delivery.rs\<close>): which modifiers were requested from which peer, when, and how often.
  The clock is an argument. A \<open>HashMap\<close> is an association list; the order of the reported ids is its iteration
  order, about which nothing is proved.
\<close>

section \<open>Definitions\<close>

type_synonym peer_id = u64

definition TRANSACTION_TYPE_ID :: u8 where
  "TRANSACTION_TYPE_ID = 2"

definition DEFAULT_TIMEOUT :: duration where
  "DEFAULT_TIMEOUT = from_secs 10"

definition DEFAULT_MAX_CHECKS :: nat where
  "DEFAULT_MAX_CHECKS = 100"

definition forgotten_when_undelivered :: "u8 \<Rightarrow> bool" where
  "forgotten_when_undelivered type_id \<longleftrightarrow> type_id = TRANSACTION_TYPE_ID"

record pending_request =
  pr_peer :: peer_id
  pr_type_id :: u8
  pr_requested_at :: instant
  pr_checks :: nat

record retry_action =
  ra_id :: id32
  ra_type_id :: u8
  ra_failed_peer :: peer_id

record check_result =
  retries :: "retry_action list"
  fresh :: "id32 list"
  abandoned :: "id32 list"
  forgotten :: "id32 list"

record delivery_tracker =
  pending :: "(id32, pending_request) hmap"
  evicted :: "id32 list"
  dt_timeout :: duration
  max_checks :: nat

definition with_config :: "duration \<Rightarrow> nat \<Rightarrow> delivery_tracker" where
  "with_config timeout checks = \<lparr>pending = [], evicted = [], dt_timeout = timeout, max_checks = checks\<rparr>"

definition delivery_new :: delivery_tracker where
  "delivery_new = with_config DEFAULT_TIMEOUT DEFAULT_MAX_CHECKS"

definition mark_requested :: "instant \<Rightarrow> id32 list \<Rightarrow> peer_id \<Rightarrow> u8 \<Rightarrow> delivery_tracker \<Rightarrow> delivery_tracker" where
  "mark_requested now ids peer type_id t =
     t\<lparr>pending := fold (\<lambda>i. hm_insert i
         \<lparr>pr_peer = peer, pr_type_id = type_id, pr_requested_at = now, pr_checks = 0\<rparr>) ids (pending t)\<rparr>"

definition mark_retried :: "id32 list \<Rightarrow> peer_id \<Rightarrow> delivery_tracker \<Rightarrow> delivery_tracker" where
  "mark_retried ids peer t =
     t\<lparr>pending := fold (\<lambda>i m. case map_of m i of
         None \<Rightarrow> m | Some req \<Rightarrow> hm_insert i (req\<lparr>pr_peer := peer\<rparr>) m) ids (pending t)\<rparr>"

definition mark_received :: "id32 \<Rightarrow> delivery_tracker \<Rightarrow> bool \<times> delivery_tracker" where
  "mark_received i t = (map_of (pending t) i \<noteq> None, t\<lparr>pending := hm_remove i (pending t)\<rparr>)"

definition schedule_rerequest :: "id32 list \<Rightarrow> delivery_tracker \<Rightarrow> delivery_tracker" where
  "schedule_rerequest ids t = t\<lparr>pending := fold hm_remove ids (pending t), evicted := evicted t @ ids\<rparr>"

text \<open>The loop of \<open>check_timeouts\<close>: the entries after it, and the four lists it fills; the last is \<open>to_remove\<close>.\<close>

fun check_entries ::
  "instant \<Rightarrow> duration \<Rightarrow> nat \<Rightarrow> (id32, pending_request) hmap
    \<Rightarrow> (id32, pending_request) hmap \<times> retry_action list \<times> id32 list \<times> id32 list \<times> id32 list" where
  "check_entries now timeout checks [] = ([], [], [], [], [])"
| "check_entries now timeout checks ((i, req) # entries) =
     (case check_entries now timeout checks entries of
        (rest, re, ab, fo, rm) \<Rightarrow>
          if now - pr_requested_at req \<ge> timeout then
            if forgotten_when_undelivered (pr_type_id req) then ((i, req) # rest, re, ab, i # fo, i # rm)
            else
              let req1 = req\<lparr>pr_checks := pr_checks req + 1\<rparr> in
              if pr_checks req1 \<ge> checks then ((i, req1) # rest, re, i # ab, fo, i # rm)
              else ((i, req1\<lparr>pr_requested_at := now\<rparr>) # rest,
                    \<lparr>ra_id = i, ra_type_id = pr_type_id req, ra_failed_peer = pr_peer req\<rparr> # re, ab, fo, rm)
          else ((i, req) # rest, re, ab, fo, rm))"

definition check_timeouts :: "instant \<Rightarrow> delivery_tracker \<Rightarrow> check_result \<times> delivery_tracker" where
  "check_timeouts now t =
     (case check_entries now (dt_timeout t) (max_checks t) (pending t) of
        (entries, re, ab, fo, to_remove) \<Rightarrow>
          (\<lparr>retries = re, fresh = evicted t, abandoned = ab, forgotten = fo\<rparr>,
           t\<lparr>pending := fold hm_remove to_remove entries, evicted := []\<rparr>))"

text \<open>\<open>retain\<close> with its side effect: the orphaned ids by modifier type.\<close>

fun orphans :: "peer_id \<Rightarrow> (id32, pending_request) hmap \<Rightarrow> (u8, id32 list) hmap \<Rightarrow> (u8, id32 list) hmap" where
  "orphans peer [] m = m"
| "orphans peer ((i, req) # entries) m =
     orphans peer entries
       (if pr_peer req \<noteq> peer \<or> forgotten_when_undelivered (pr_type_id req) then m
        else hm_insert (pr_type_id req) ((case map_of m (pr_type_id req) of None \<Rightarrow> [] | Some ids \<Rightarrow> ids) @ [i]) m)"

definition purge_peer :: "peer_id \<Rightarrow> delivery_tracker \<Rightarrow> (u8, id32 list) hmap \<times> delivery_tracker" where
  "purge_peer peer t =
     (orphans peer (pending t) [], t\<lparr>pending := hm_retain (\<lambda>_ req. pr_peer req \<noteq> peer) (pending t)\<rparr>)"

definition is_pending :: "id32 \<Rightarrow> delivery_tracker \<Rightarrow> bool" where
  "is_pending i t \<longleftrightarrow> map_of (pending t) i \<noteq> None"

definition purge_all :: "delivery_tracker \<Rightarrow> delivery_tracker" where
  "purge_all t = t\<lparr>pending := []\<rparr>"

definition pending_count :: "delivery_tracker \<Rightarrow> nat" where
  "pending_count t = length (pending t)"

definition evicted_count :: "delivery_tracker \<Rightarrow> nat" where
  "evicted_count t = length (evicted t)"

section \<open>A check, request by request\<close>

text \<open>What one check does to one request, as a specification: the request after it, if any, and its report.\<close>

datatype verdict = Waiting | Forgotten | Abandoned | Retried

definition judge :: "instant \<Rightarrow> delivery_tracker \<Rightarrow> pending_request \<Rightarrow> verdict" where
  "judge now t req =
     (if now - pr_requested_at req < dt_timeout t then Waiting
      else if pr_type_id req = TRANSACTION_TYPE_ID then Forgotten
      else if pr_checks req + 1 \<ge> max_checks t then Abandoned else Retried)"

definition kept :: "instant \<Rightarrow> delivery_tracker \<Rightarrow> pending_request \<Rightarrow> pending_request option" where
  "kept now t req = (case judge now t req of
     Waiting \<Rightarrow> Some req
   | Retried \<Rightarrow> Some (req\<lparr>pr_checks := pr_checks req + 1, pr_requested_at := now\<rparr>)
   | _ \<Rightarrow> None)"

lemma fold_hm_remove [simp]: "map_of (fold hm_remove ids m) i = (if i \<in> set ids then None else map_of m i)"
  by (induction ids arbitrary: m) auto

lemma keys_distinct_fold_remove [simp]: "keys_distinct m \<Longrightarrow> keys_distinct (fold hm_remove ids m)"
  by (induction ids arbitrary: m) auto

lemma check_entries_keys: "check_entries now timeout checks es = (es', re, ab, fo, rm) \<Longrightarrow> map fst es' = map fst es"
  by (induction es arbitrary: es' re ab fo rm) (auto simp: Let_def split: prod.splits if_splits)

lemma check_entries_removed: "check_entries now timeout checks es = (es', re, ab, fo, rm) \<Longrightarrow> set rm = set ab \<union> set fo"
  by (induction es arbitrary: es' re ab fo rm) (auto simp: Let_def split: prod.splits if_splits)

lemma check_entries_absent:
  "check_entries now timeout checks es = (es', re, ab, fo, rm) \<Longrightarrow> i \<notin> fst ` set es
    \<Longrightarrow> i \<notin> set ab \<and> i \<notin> set fo \<and> (\<forall>a\<in>set re. ra_id a \<noteq> i)"
  by (induction es arbitrary: es' re ab fo rm) (auto simp: Let_def split: prod.splits if_splits)

lemma check_entries_judge:
  assumes "keys_distinct es" "check_entries now (dt_timeout t) (max_checks t) es = (es', re, ab, fo, rm)" "map_of es i = Some req"
  shows "(i \<in> set fo \<longleftrightarrow> judge now t req = Forgotten) \<and> (i \<in> set ab \<longleftrightarrow> judge now t req = Abandoned)
    \<and> ((\<exists>a\<in>set re. ra_id a = i) \<longleftrightarrow> judge now t req = Retried)
    \<and> (\<forall>a\<in>set re. ra_id a = i \<longrightarrow> a = \<lparr>ra_id = i, ra_type_id = pr_type_id req, ra_failed_peer = pr_peer req\<rparr>)
    \<and> (\<forall>r. kept now t req = Some r \<longrightarrow> map_of es' i = Some r)"
  using assms
proof (induction es arbitrary: es' re ab fo rm)
  case (Cons e es)
  obtain j r0 where e: "e = (j, r0)" by (cases e)
  obtain es1 re1 ab1 fo1 rm1 where c: "check_entries now (dt_timeout t) (max_checks t) es = (es1, re1, ab1, fo1, rm1)"
    using prod_cases5 by blast
  have d: "keys_distinct es" "j \<notin> fst ` set es" using Cons.prems(1) e by (auto simp: keys_distinct_def)
  show ?case
  proof (cases "i = j")
    case True
    then have r0: "r0 = req" using Cons.prems(3) e by simp
    show ?thesis using Cons.prems(2) check_entries_absent [OF c d(2)] True unfolding e r0
      by (auto simp: c judge_def kept_def forgotten_when_undelivered_def Let_def split: if_splits)
  next
    case False
    then have "map_of es i = Some req" using Cons.prems(3) e by simp
    note ih = Cons.IH [OF d(1) c this]
    show ?thesis using Cons.prems(2) ih False unfolding e by (auto simp: c Let_def split: if_splits)
  qed
qed simp

text \<open>What \<open>check_timeouts\<close> does to a pending request.\<close>

lemma check_timeouts_pending:
  assumes "keys_distinct (pending t)" "check_timeouts now t = (res, t')" "map_of (pending t) i = Some req"
  shows "i \<in> set (forgotten res) \<longleftrightarrow> judge now t req = Forgotten"
    "i \<in> set (abandoned res) \<longleftrightarrow> judge now t req = Abandoned"
    "i \<in> ra_id ` set (retries res) \<longleftrightarrow> judge now t req = Retried"
    "map_of (pending t') i = kept now t req"
proof -
  obtain es re ab fo rm where c: "check_entries now (dt_timeout t) (max_checks t) (pending t) = (es, re, ab, fo, rm)"
    using prod_cases5 by blast
  have r: "res = \<lparr>retries = re, fresh = evicted t, abandoned = ab, forgotten = fo\<rparr>"
    "pending t' = fold hm_remove rm es" using assms(2) by (auto simp: check_timeouts_def c)
  note j = check_entries_judge [OF assms(1) c assms(3)]
  show "i \<in> set (forgotten res) \<longleftrightarrow> judge now t req = Forgotten"
    "i \<in> set (abandoned res) \<longleftrightarrow> judge now t req = Abandoned" using j by (simp_all add: r)
  show "i \<in> ra_id ` set (retries res) \<longleftrightarrow> judge now t req = Retried" using j unfolding r(1) image_iff by auto
  show "map_of (pending t') i = kept now t req"
    using j check_entries_removed [OF c] by (cases "judge now t req") (auto simp: r kept_def)
qed

lemma check_timeouts_absent:
  assumes "check_timeouts now t = (res, t')" "map_of (pending t) i = None"
  shows "i \<notin> set (forgotten res) \<and> i \<notin> set (abandoned res) \<and> i \<notin> ra_id ` set (retries res)"
    "map_of (pending t') i = None"
proof -
  obtain es re ab fo rm where c: "check_entries now (dt_timeout t) (max_checks t) (pending t) = (es, re, ab, fo, rm)"
    using prod_cases5 by blast
  have r: "res = \<lparr>retries = re, fresh = evicted t, abandoned = ab, forgotten = fo\<rparr>"
    "pending t' = fold hm_remove rm es" using assms(1) by (auto simp: check_timeouts_def c)
  have i: "i \<notin> fst ` set (pending t)" using assms(2) by (simp add: map_of_eq_None_iff)
  then show "i \<notin> set (forgotten res) \<and> i \<notin> set (abandoned res) \<and> i \<notin> ra_id ` set (retries res)"
    using check_entries_absent [OF c i] by (auto simp: r)
  have "i \<notin> fst ` set es" using i check_entries_keys [OF c] by (metis list.set_map)
  then show "map_of (pending t') i = None" by (simp add: r map_of_eq_None_iff)
qed

lemma check_timeouts_frame:
  assumes "check_timeouts now t = (res, t')"
  shows "dt_timeout t' = dt_timeout t" "max_checks t' = max_checks t" "fresh res = evicted t" "evicted t' = []"
    "keys_distinct (pending t) \<Longrightarrow> keys_distinct (pending t')"
proof -
  obtain es re ab fo rm where c: "check_entries now (dt_timeout t) (max_checks t) (pending t) = (es, re, ab, fo, rm)"
    using prod_cases5 by blast
  show "dt_timeout t' = dt_timeout t" "max_checks t' = max_checks t" "fresh res = evicted t" "evicted t' = []"
    using assms by (auto simp: check_timeouts_def c)
  assume "keys_distinct (pending t)"
  then have "keys_distinct es" using check_entries_keys [OF c] by (simp add: keys_distinct_def)
  then show "keys_distinct (pending t')" using assms by (auto simp: check_timeouts_def c)
qed

lemma mark_retried_get:
  "map_of (pending (mark_retried ids p t)) i = (case map_of (pending t) i of
     None \<Rightarrow> None | Some req \<Rightarrow> Some (if i \<in> set ids then req\<lparr>pr_peer := p\<rparr> else req))"
proof -
  have "map_of (fold (\<lambda>i m. case map_of m i of None \<Rightarrow> m | Some req \<Rightarrow> hm_insert i (req\<lparr>pr_peer := p\<rparr>) m) ids m) i
      = (case map_of m i of None \<Rightarrow> None | Some req \<Rightarrow> Some (if i \<in> set ids then req\<lparr>pr_peer := p\<rparr> else req))" for m
    by (induction ids arbitrary: m) (auto split: option.split)
  then show ?thesis by (simp add: mark_retried_def)
qed

lemma mark_retried_frame [simp]:
  "dt_timeout (mark_retried ids p t) = dt_timeout t" "max_checks (mark_retried ids p t) = max_checks t"
  "keys_distinct (pending t) \<Longrightarrow> keys_distinct (pending (mark_retried ids p t))"
proof -
  have "keys_distinct m \<Longrightarrow> keys_distinct (fold (\<lambda>i m. case map_of m i of None \<Rightarrow> m | Some req \<Rightarrow> hm_insert i (req\<lparr>pr_peer := p\<rparr>) m) ids m)" for m
    by (induction ids arbitrary: m) (auto split: option.split)
  then show "keys_distinct (pending t) \<Longrightarrow> keys_distinct (pending (mark_retried ids p t))" by (simp add: mark_retried_def)
qed (simp_all add: mark_retried_def)

section \<open>No request is lost\<close>

datatype event =
  Request instant "id32 list" peer_id u8
| Retry "id32 list" peer_id
| Receive id32
| Rerequest "id32 list"
| Check instant
| Purge_Peer peer_id
| Purge_All

fun tracker_step :: "event \<Rightarrow> delivery_tracker \<Rightarrow> delivery_tracker" where
  "tracker_step (Request now ids p ty) t = mark_requested now ids p ty t"
| "tracker_step (Retry ids p) t = mark_retried ids p t"
| "tracker_step (Receive i) t = snd (mark_received i t)"
| "tracker_step (Rerequest ids) t = schedule_rerequest ids t"
| "tracker_step (Check now) t = snd (check_timeouts now t)"
| "tracker_step (Purge_Peer p) t = snd (purge_peer p t)"
| "tracker_step Purge_All t = purge_all t"

lemma fold_hm_insert_pending:
  "map_of (fold (\<lambda>i. hm_insert i r) ids m) i = (if i \<in> set ids then Some r else map_of m i)"
  by (induction ids arbitrary: m) auto

lemma tracker_step_distinct: "keys_distinct (pending t) \<Longrightarrow> keys_distinct (pending (tracker_step e t))"
proof (cases e)
  case (Request now ids p ty)
  have "keys_distinct m \<Longrightarrow> keys_distinct (fold (\<lambda>i. hm_insert i r) ids m)" for m and r :: pending_request
    by (induction ids arbitrary: m) auto
  then show "keys_distinct (pending t) \<Longrightarrow> ?thesis" by (simp add: Request mark_requested_def)
next
  case (Check now)
  show "keys_distinct (pending t) \<Longrightarrow> ?thesis"
    using check_timeouts_frame(5) [of now t] by (cases "check_timeouts now t") (simp add: Check)
qed (auto simp: mark_received_def schedule_rerequest_def purge_peer_def purge_all_def)

lemma orphans_keep: "map_of m ty = Some ids \<Longrightarrow> i \<in> set ids \<Longrightarrow> \<exists>ids'. map_of (orphans p es m) ty = Some ids' \<and> i \<in> set ids'"
proof (induction es arbitrary: m ids)
  case (Cons e es)
  obtain j r where e: "e = (j, r)" by (cases e)
  show ?case
  proof (cases "ty = pr_type_id r")
    case True
    then show ?thesis using Cons.prems Cons.IH [of _ "ids @ [j]"] Cons.IH [of m ids] unfolding e
      by (cases "pr_peer r \<noteq> p \<or> forgotten_when_undelivered (pr_type_id r)") auto
  next
    case False
    then show ?thesis using Cons.prems Cons.IH [of _ ids] unfolding e
      by (cases "pr_peer r \<noteq> p \<or> forgotten_when_undelivered (pr_type_id r)") auto
  qed
qed simp

lemma orphans_complete:
  "(i, r) \<in> set es \<Longrightarrow> pr_peer r = p \<Longrightarrow> \<not> forgotten_when_undelivered (pr_type_id r)
    \<Longrightarrow> \<exists>ids. map_of (orphans p es m) (pr_type_id r) = Some ids \<and> i \<in> set ids"
proof (induction es arbitrary: m)
  case (Cons e es)
  obtain j r' where e: "e = (j, r')" by (cases e)
  show ?case
  proof (cases "(j, r') = (i, r)")
    case True
    show ?thesis using Cons.prems(2, 3) True unfolding e
      by (auto intro!: orphans_keep split: option.split)
  next
    case False
    then have "(i, r) \<in> set es" using Cons.prems(1) e by auto
    then show ?thesis using Cons.IH [OF _ Cons.prems(2, 3)] unfolding e by simp
  qed
qed simp



section \<open>Retries end\<close>

text \<open>Rounds of the sync loop: a check at some instant, then whatever re-requests the caller records.\<close>

fun rounds :: "(instant \<times> id32 list \<times> peer_id) list \<Rightarrow> delivery_tracker \<Rightarrow> check_result list \<times> delivery_tracker" where
  "rounds [] t = ([], t)"
| "rounds ((now, ids, p) # rs) t =
     (case check_timeouts now t of (res, t1) \<Rightarrow>
        case rounds rs (mark_retried ids p t1) of (results, t2) \<Rightarrow> (res # results, t2))"

fun spaced :: "duration \<Rightarrow> instant \<Rightarrow> instant list \<Rightarrow> bool" where
  "spaced d t [] \<longleftrightarrow> True"
| "spaced d t (x # xs) \<longleftrightarrow> t + d \<le> x \<and> spaced d x xs"

lemma rounds_absent:
  "map_of (pending t) i = None \<Longrightarrow> \<not> is_pending i (snd (rounds rs t))
    \<and> (\<forall>res\<in>set (fst (rounds rs t)). i \<notin> ra_id ` set (retries res) \<and> i \<notin> set (abandoned res))"
proof (induction rs arbitrary: t)
  case (Cons r rs)
  obtain now ids p where r: "r = (now, ids, p)" by (cases r)
  obtain res t1 where c: "check_timeouts now t = (res, t1)" by fastforce
  note a = check_timeouts_absent [OF c Cons.prems]
  have "map_of (pending (mark_retried ids p t1)) i = None" using a(2) by (simp add: mark_retried_get)
  from Cons.IH [OF this] a(1) show ?case by (simp add: r c split_beta)
qed (simp add: is_pending_def)



end
