(* ===== verification/Sync_Policy.thy ===== *)
theory Sync_Policy
  imports Chain_Types
begin

text \<open>
  Small policies of the sync machine: the backoff of a stalled validation sweep (\<open>sync/src/sweep_backoff.rs\<close>), the
  prune horizon and flush bounds (\<open>sync/src/retention.rs\<close>) and the gate of the catch-up report
  (\<open>sync/src/catchup_progress.rs\<close>). The clock is an argument; log output is not modelled, so the label of a stall, which
  only the log shows, is left out and \<open>stuck_fired\<close> stands for the emitted event.
\<close>

section \<open>The sweep backoff\<close>

definition BASE_DELAY :: duration where
  "BASE_DELAY = from_secs 1"

definition MAX_DELAY :: duration where
  "MAX_DELAY = from_secs 300"

definition STUCK_THRESHOLD :: nat where
  "STUCK_THRESHOLD = 5"

record armed =
  frontier :: nat
  consecutive :: nat
  next_allowed :: instant
  stuck_emitted :: bool

type_synonym sweep_backoff = "armed option"

record stall =
  attempt :: nat
  delay :: duration
  stuck_fired :: bool

definition from_millis :: "u64 \<Rightarrow> duration" where
  "from_millis ms = unat ms * 1000000"

definition delay_for :: "nat \<Rightarrow> duration" where
  "delay_for n =
     (let shift = min (n - 1) 32; base_ms = of_nat (as_millis BASE_DELAY) :: u64;
          ms = (if shift < 64 then push_bit shift base_ms else - 1) in
      min (from_millis ms) MAX_DELAY)"

definition should_defer :: "nat \<Rightarrow> instant \<Rightarrow> sweep_backoff \<Rightarrow> bool" where
  "should_defer applied_tip now b \<longleftrightarrow>
     (case b of Some a \<Rightarrow> frontier a = applied_tip \<and> now < next_allowed a | None \<Rightarrow> False)"

definition record_sweep :: "nat \<Rightarrow> nat \<Rightarrow> instant \<Rightarrow> sweep_backoff \<Rightarrow> stall option \<times> sweep_backoff" where
  "record_sweep before after now b =
     (if after > before then (None, None)
      else
        let (n, emitted) =
              (case b of
                 Some a \<Rightarrow> if frontier a = before then (consecutive a + 1, stuck_emitted a) else (1, False)
               | None \<Rightarrow> (1, False));
            d = delay_for n;
            fired = (\<not> emitted \<and> n \<ge> STUCK_THRESHOLD) in
        (Some \<lparr>attempt = n, delay = d, stuck_fired = fired\<rparr>,
         Some \<lparr>frontier = before, consecutive = n, next_allowed = now + d, stuck_emitted = emitted \<or> fired\<rparr>))"

lemma delay_for_exact: "n \<ge> 1 \<Longrightarrow> delay_for n = min (2 ^ (n - 1) * from_secs 1) (from_secs 300)"
proof -
  assume n: "n \<ge> 1"
  define k where "k = min (n - 1) 32"
  have k: "k \<le> 32" by (simp add: k_def)
  have "2 ^ k * 1000 < (2 :: nat) ^ 64"
  proof -
    have "2 ^ k * 1000 \<le> 2 ^ 32 * (2 :: nat) ^ 10" using power_increasing [OF k, of "2 :: nat"] by (intro mult_mono) auto
    also have "\<dots> < 2 ^ 64" by simp
    finally show ?thesis .
  qed
  then have "unat (push_bit k (1000 :: u64)) = 2 ^ k * 1000"
    by (simp add: unsigned_push_bit_eq push_bit_nat_def take_bit_nat_eq_self mult.commute)
  then have "delay_for n = min (2 ^ k * from_secs 1) (from_secs 300)"
    using k unfolding delay_for_def Let_def k_def [symmetric]
    by (simp add: from_millis_def MAX_DELAY_def BASE_DELAY_def as_millis_def from_secs_def)
  moreover have "(2 :: nat) ^ 9 \<le> 2 ^ k \<and> (2 :: nat) ^ 9 \<le> 2 ^ (n - 1)" if "n - 1 > 32"
    using that unfolding k_def by (intro conjI power_increasing) auto
  ultimately show ?thesis by (cases "n - 1 > 32") (auto simp: k_def from_secs_def min_def)
qed

text \<open>A history of sweeps, latest first, as frontier before, frontier after and the time; how many of the latest
  sweeps stalled at the same frontier.\<close>

type_synonym sweep = "nat \<times> nat \<times> instant"

fun run_sweeps :: "sweep list \<Rightarrow> stall option \<times> sweep_backoff" where
  "run_sweeps [] = (None, None)"
| "run_sweeps ((before, after, now) # past) = record_sweep before after now (snd (run_sweeps past))"

definition stalled_at :: "nat \<Rightarrow> sweep \<Rightarrow> bool" where
  "stalled_at f s \<longleftrightarrow> (case s of (before, after, _) \<Rightarrow> before = f \<and> after \<le> before)"

definition stalls :: "nat \<Rightarrow> sweep list \<Rightarrow> nat" where
  "stalls f hist = length (takeWhile (stalled_at f) hist)"

lemma run_sweeps_state:
  "snd (run_sweeps hist) = (case hist of
     [] \<Rightarrow> None
   | (before, after, now) # _ \<Rightarrow>
       if after > before then None
       else Some \<lparr>frontier = before, consecutive = stalls before hist, next_allowed = now + delay_for (stalls before hist),
                 stuck_emitted = (stalls before hist \<ge> STUCK_THRESHOLD)\<rparr>)"
proof (induction hist)
  case (Cons s past)
  obtain before after now where s: "s = (before, after, now)" by (cases s)
  show ?case
  proof (cases past)
    case Nil
    then show ?thesis by (simp add: s record_sweep_def stalls_def stalled_at_def STUCK_THRESHOLD_def Let_def)
  next
    case (Cons p rest)
    obtain b' a' n' where p: "p = (b', a', n')" by (cases p)
    show ?thesis using Cons.IH unfolding Cons s p
      by (auto simp: record_sweep_def stalls_def stalled_at_def STUCK_THRESHOLD_def Let_def)
  qed
qed simp

text \<open>(C37) The sweep backoff. After any history of sweeps whose latest one did not advance the tip, let \<open>n\<close> be the number of
  latest sweeps that stalled at its frontier. The delay imposed is one second doubled \<open>n - 1\<close> times, at most five minutes;
  a sweep at that frontier is deferred exactly until the delay has passed, a sweep at another frontier never; and the
  stuck event fires exactly when \<open>n\<close> reaches five, so once per run of stalls. A sweep that advanced the tip leaves no backoff.\<close>

theorem sweep_backoff_exact:
  "case run_sweeps ((before, after, now) # past) of (st, b) \<Rightarrow>
     let n = stalls before ((before, after, now) # past); d = min (2 ^ (n - 1) * from_secs 1) (from_secs 300) in
     if before < after then st = None \<and> (\<forall>tip t. \<not> should_defer tip t b)
     else st = Some \<lparr>attempt = n, delay = d, stuck_fired = (n = 5)\<rparr>
        \<and> (\<forall>tip t. should_defer tip t b \<longleftrightarrow> tip = before \<and> t < now + d)"
proof (cases "before < after")
  case True
  then show ?thesis by (simp add: record_sweep_def should_defer_def)
next
  case False
  let ?h = "(before, after, now) # past"
  define n where "n = stalls before ?h"
  have n: "n = Suc (stalls before past)" using False by (simp add: n_def stalls_def stalled_at_def)
  have b: "snd (run_sweeps ?h) = Some \<lparr>frontier = before, consecutive = n, next_allowed = now + delay_for n,
      stuck_emitted = (n \<ge> STUCK_THRESHOLD)\<rparr>"
    using run_sweeps_state [of ?h] False by (simp add: n_def)
  have st: "fst (run_sweeps ?h) = Some \<lparr>attempt = n, delay = delay_for n, stuck_fired = (n = 5)\<rparr>"
  proof (cases past)
    case Nil
    then show ?thesis using False n by (simp add: record_sweep_def stalls_def STUCK_THRESHOLD_def Let_def)
  next
    case (Cons p rest)
    obtain b' a' n' where p: "p = (b', a', n')" by (cases p)
    show ?thesis using False n run_sweeps_state [of past] unfolding Cons p
      by (auto simp: record_sweep_def stalls_def stalled_at_def STUCK_THRESHOLD_def Let_def split: if_splits)
  qed
  have d: "delay_for n = min (2 ^ (n - 1) * from_secs 1) (from_secs 300)" using delay_for_exact [of n] n by simp
  show ?thesis
    using False b st unfolding n_def [symmetric] Let_def
    by (cases "run_sweeps ?h") (auto simp: should_defer_def d)
qed

section \<open>Retention\<close>

definition compute_prune_horizon :: "u32 \<Rightarrow> u32 \<Rightarrow> u32 \<Rightarrow> u32 option" where
  "compute_prune_horizon flushed keep len =
     (let raw = saturating_add (saturating_sub flushed keep) 1 in
      if raw > len then
        if len = 0 then None else let epoch_start = raw div len * len in Some (min raw epoch_start)
      else Some raw)"

definition effective_flush_bounds :: "i32 \<Rightarrow> u32 \<Rightarrow> u32 \<Rightarrow> u32 \<times> u32" where
  "effective_flush_bounds blocks_to_keep flush_min_blocks flush_max_blocks =
     (if sint blocks_to_keep < 0 then (flush_min_blocks, flush_max_blocks)
      else (min flush_min_blocks blocks_to_keep, min flush_max_blocks blocks_to_keep))"

lemma unat_min: "unat (min a b) = min (unat a) (unat (b :: 'a :: len word))"
  by (simp add: min_def word_le_nat_alt)

text \<open>Pruning keeps what it must. The horizon is computed for every positive epoch length; everything from it upwards
  stays, so the last \<open>keep\<close> flushed blocks do; it never reaches beyond the block after the flushed one; and past the first
  epoch it is an epoch start less than one epoch below the unaligned horizon, so the epoch's extensions stay too.\<close>

theorem prune_horizon_safe:
  assumes "len \<noteq> 0"
  shows "\<exists>h. compute_prune_horizon flushed keep len = Some h
    \<and> (let raw = min (unat flushed - unat keep + 1) (2 ^ 32 - 1) in
       1 \<le> unat h \<and> unat h \<le> raw \<and> raw < unat h + unat len
       \<and> (if unat len < raw then unat len dvd unat h else unat h = raw))"
proof -
  define raw where "raw = (saturating_add (saturating_sub flushed keep) 1 :: u32)"
  have raw: "unat raw = min (unat flushed - unat keep + 1) (2 ^ 32 - 1)"
    by (simp add: raw_def unat_saturating_add)
  have pos: "1 \<le> unat raw" unfolding raw by simp
  have l: "0 < unat len" using assms by (simp add: unat_gt_0)
  show ?thesis
  proof (cases "raw > len")
    case False
    then have "unat raw \<le> unat len" by (simp add: word_le_nat_alt not_less)
    with False pos l show ?thesis unfolding raw [symmetric] compute_prune_horizon_def raw_def [symmetric] by (simp add: Let_def)
  next
    case True
    define start where "start = raw div len * len"
    have "unat raw div unat len * unat len < 2 ^ 32"
      by (rule le_less_trans [OF div_times_less_eq_dividend]) (use unat_u32_bound [of raw] in simp)
    then have start: "unat start = unat raw div unat len * unat len"
      by (simp add: start_def unat_word_ariths mod_mult_left_eq)
    have "unat raw mod unat len < unat len" using l by simp
    then have lt: "unat raw < unat start + unat len" using div_mult_mod_eq [of "unat raw" "unat len"] unfolding start by linarith
    have len: "unat len < unat raw" using True by (simp add: word_less_nat_alt)
    have le: "start \<le> raw" unfolding word_le_nat_alt start by simp
    have "0 < unat raw div unat len" using len l by (simp add: div_greater_zero_iff)
    then have "1 \<le> unat start" using l unfolding start by simp
    moreover have "unat len dvd unat start" unfolding start by simp
    moreover have "min raw start = start" using le by (rule min_absorb2)
    moreover have "unat start \<le> unat raw" using le by (simp add: word_le_nat_alt)
    ultimately show ?thesis
      using True assms lt len unfolding raw [symmetric] compute_prune_horizon_def raw_def [symmetric] Let_def start_def [symmetric]
      by simp
  qed
qed

theorem prune_horizon_safe_witness: "\<exists>h. compute_prune_horizon 2500 100 1024 = Some h \<and> unat h \<le> 2401 \<and> 1024 dvd unat h"
  using prune_horizon_safe [of 1024 2500 100] by (auto simp: Let_def)

section \<open>The catch-up report\<close>

definition REPORT_INTERVAL :: duration where
  "REPORT_INTERVAL = from_secs 5"

type_synonym catch_up_progress_reporter = "instant option"

definition maybe_emit :: "instant \<Rightarrow> nat \<Rightarrow> catch_up_progress_reporter \<Rightarrow> bool \<times> catch_up_progress_reporter" where
  "maybe_emit now sweep_size last_emit =
     (if sweep_size \<le> 1 then (False, last_emit)
      else case last_emit of
        Some prev \<Rightarrow> if now - prev < REPORT_INTERVAL then (False, last_emit) else (True, Some now)
      | None \<Rightarrow> (True, Some now))"

text \<open>A report is made exactly in a catch-up sweep with no report in the last five seconds.\<close>

lemma maybe_emit_exact:
  "fst (maybe_emit now n r) \<longleftrightarrow> n > 1 \<and> (\<forall>t. r = Some t \<longrightarrow> t + from_secs 5 \<le> now)"
  "snd (maybe_emit now n r) = (if fst (maybe_emit now n r) then Some now else r)"
  by (auto simp: maybe_emit_def REPORT_INTERVAL_def from_secs_def split: option.split)

end
