(* ===== verification/Section.thy ===== *)
theory Section
  imports Voting_Spec
begin

text \<open>
  Identity of block sections (\<open>chain/src/section.rs\<close>, \<open>chain/src/state_type.rs\<close>): the section ids a header commits to,
  and the same ids recomputed from a delivered body. Blake2b, the Merkle tree and the transaction parser are
  external and are fields of a record of parameters; ids and roots are their bytes. Reads of the cursor
  \<open>SectionBody\<close> are readers on the unread bytes.
\<close>

section \<open>Definitions\<close>

datatype state_type = Utxo | Digest | Light

definition requires_proofs :: "state_type \<Rightarrow> bool" where
  "requires_proofs m \<longleftrightarrow> m = Digest"

definition downloads_block_bodies :: "state_type \<Rightarrow> bool" where
  "downloads_block_bodies m \<longleftrightarrow> m \<noteq> Light"

definition HEADER_TYPE_ID :: u8 where
  "HEADER_TYPE_ID = 101"

definition BLOCK_TRANSACTIONS_TYPE_ID :: u8 where
  "BLOCK_TRANSACTIONS_TYPE_ID = 102"

definition AD_PROOFS_TYPE_ID :: u8 where
  "AD_PROOFS_TYPE_ID = 104"

definition EXTENSION_TYPE_ID :: u8 where
  "EXTENSION_TYPE_ID = 108"

definition BLOCK_VERSION_SENTINEL :: u32 where
  "BLOCK_VERSION_SENTINEL = 10000000"

text \<open>The external functions, and the header fields this module reads.\<close>

record ('tx, 'st) section_lib =
  blake2b256 :: "bytes \<Rightarrow> bytes"
  merkle_root :: "bytes list \<Rightarrow> bytes"
  tx_parse :: "bytes \<Rightarrow> ('tx \<times> bytes) option"
  tx_id_bytes :: "'tx \<Rightarrow> bytes"
  tx_proofs :: "'tx \<Rightarrow> bytes list"
  vlq :: "'st sigma_lib"

record section_header =
  sh_id :: bytes
  sh_transaction_root :: bytes
  sh_ad_proofs_root :: bytes
  sh_extension_root :: bytes

definition section_id :: "('tx, 'st) section_lib \<Rightarrow> u8 \<Rightarrow> bytes \<Rightarrow> bytes \<Rightarrow> bytes" where
  "section_id lib type_id header_id digest = blake2b256 lib (type_id # header_id @ digest)"

definition section_ids :: "('tx, 'st) section_lib \<Rightarrow> section_header \<Rightarrow> (u8 \<times> bytes) list" where
  "section_ids lib h =
     [(BLOCK_TRANSACTIONS_TYPE_ID, section_id lib BLOCK_TRANSACTIONS_TYPE_ID (sh_id h) (sh_transaction_root h)),
      (AD_PROOFS_TYPE_ID, section_id lib AD_PROOFS_TYPE_ID (sh_id h) (sh_ad_proofs_root h)),
      (EXTENSION_TYPE_ID, section_id lib EXTENSION_TYPE_ID (sh_id h) (sh_extension_root h))]"

definition required_section_ids :: "('tx, 'st) section_lib \<Rightarrow> section_header \<Rightarrow> state_type \<Rightarrow> (u8 \<times> bytes) list" where
  "required_section_ids lib h m = (case m of
     Light \<Rightarrow> []
   | Digest \<Rightarrow> section_ids lib h
   | Utxo \<Rightarrow> filter (\<lambda>(type_id, _). type_id \<noteq> AD_PROOFS_TYPE_ID) (section_ids lib h))"

definition witness_id :: "('tx, 'st) section_lib \<Rightarrow> 'tx \<Rightarrow> bytes" where
  "witness_id lib tx = drop 1 (blake2b256 lib (concat (tx_proofs lib tx)))"

definition transactions_root :: "('tx, 'st) section_lib \<Rightarrow> 'tx list \<Rightarrow> u8 \<Rightarrow> bytes" where
  "transactions_root lib txs block_version =
     (let with_witnesses = block_version \<noteq> 1 in
      merkle_root lib (map (tx_id_bytes lib) txs @ (if with_witnesses then map (witness_id lib) txs else [])))"

definition extension_root :: "('tx, 'st) section_lib \<Rightarrow> extension_field list \<Rightarrow> bytes" where
  "extension_root lib fs = merkle_root lib (map (\<lambda>((k0, k1), v). 2 # [k0, k1] @ v) fs)"

definition ad_proofs_digest :: "('tx, 'st) section_lib \<Rightarrow> bytes \<Rightarrow> bytes" where
  "ad_proofs_digest lib proof_bytes = blake2b256 lib proof_bytes"

record section_identity =
  si_header_id :: bytes
  si_id :: bytes

text \<open>The reads of \<open>SectionBody\<close>; \<open>err\<close> keeps the type id and drops the text.\<close>

definition sb_take :: "u8 \<Rightarrow> nat \<Rightarrow> (chain_error, bytes) reader" where
  "sb_take type_id n = (\<lambda>r. if length r < n then Inl (SectionError type_id) else Inr (take n r, drop n r))"

definition sb_u8 :: "u8 \<Rightarrow> (chain_error, u8) reader" where
  "sb_u8 type_id = rd_bind (sb_take type_id 1) (\<lambda>bs. rd_return (hd bs))"

definition sb_vlq :: "u8 \<Rightarrow> (bytes \<Rightarrow> ('v \<times> bytes) option) \<Rightarrow> (chain_error, 'v) reader" where
  "sb_vlq type_id get = (\<lambda>r. ok_or (SectionError type_id) (get r))"

definition sb_transactions :: "('tx, 'st) section_lib \<Rightarrow> u8 \<Rightarrow> u32 \<Rightarrow> (chain_error, 'tx list) reader" where
  "sb_transactions lib type_id count = rd_many (unat count) (\<lambda>r. ok_or (SectionError type_id) (tx_parse lib r))"

definition sb_field :: "u8 \<Rightarrow> (chain_error, extension_field) reader" where
  "sb_field type_id =
     rd_bind (sb_take type_id 2) (\<lambda>key.
     rd_bind (sb_u8 type_id) (\<lambda>len.
     rd_bind (sb_take type_id (unat len)) (\<lambda>v.
     rd_return ((key ! 0, key ! 1), v))))"

definition sb_finish :: "u8 \<Rightarrow> (chain_error, unit) reader" where
  "sb_finish type_id = (\<lambda>r. if r \<noteq> [] then Inl (SectionError type_id) else Inr ((), r))"

definition block_transactions_digest :: "('tx, 'st) section_lib \<Rightarrow> (chain_error, bytes) reader" where
  "block_transactions_digest lib =
     (let ty = BLOCK_TRANSACTIONS_TYPE_ID in
      rd_bind (sb_vlq ty (get_u32 (vlq lib))) (\<lambda>ver_or_count.
      rd_bind (if ver_or_count > BLOCK_VERSION_SENTINEL then
                 let version = ver_or_count - BLOCK_VERSION_SENTINEL in
                 if version > 255 then rd_fail (SectionError ty)
                 else rd_bind (sb_vlq ty (get_u32 (vlq lib))) (\<lambda>count. rd_return (ucast version :: u8, count))
               else rd_return (1, ver_or_count)) (\<lambda>(block_version, count).
      if count = 0 then rd_fail (SectionError ty)
      else rd_bind (sb_transactions lib ty count) (\<lambda>txs. rd_return (transactions_root lib txs block_version)))))"

definition section_digest :: "('tx, 'st) section_lib \<Rightarrow> u8 \<Rightarrow> (chain_error, bytes) reader" where
  "section_digest lib type_id =
     (if type_id = BLOCK_TRANSACTIONS_TYPE_ID then block_transactions_digest lib
      else if type_id = AD_PROOFS_TYPE_ID then
        rd_bind (sb_vlq type_id (get_u32 (vlq lib))) (\<lambda>size.
        rd_bind (sb_take type_id (unat size)) (\<lambda>proof_bytes. rd_return (ad_proofs_digest lib proof_bytes)))
      else if type_id = EXTENSION_TYPE_ID then
        rd_bind (sb_vlq type_id (get_u16 (vlq lib))) (\<lambda>count.
        rd_bind (rd_many (unat count) (sb_field type_id)) (\<lambda>fs. rd_return (extension_root lib fs)))
      else rd_fail (SectionError type_id))"

definition section_id_from_body :: "('tx, 'st) section_lib \<Rightarrow> u8 \<Rightarrow> bytes \<Rightarrow> chain_error + section_identity" where
  "section_id_from_body lib type_id body =
     rd_run
       (rd_bind (sb_take type_id 32) (\<lambda>header_id.
        rd_bind (section_digest lib type_id) (\<lambda>digest.
        rd_bind (sb_finish type_id) (\<lambda>_.
        rd_return \<lparr>si_header_id = header_id, si_id = section_id lib type_id header_id digest\<rparr>)))) body"

section \<open>Encodings\<close>

text \<open>The wire format of the three sections, as a specification.\<close>

datatype 'tx section_content =
  Transactions u8 "'tx list"
| Proofs bytes
| Extension "extension_field list"

fun content_type :: "'tx section_content \<Rightarrow> u8" where
  "content_type (Transactions _ _) = BLOCK_TRANSACTIONS_TYPE_ID"
| "content_type (Proofs _) = AD_PROOFS_TYPE_ID"
| "content_type (Extension _) = EXTENSION_TYPE_ID"

fun content_digest :: "('tx, 'st) section_lib \<Rightarrow> 'tx section_content \<Rightarrow> bytes" where
  "content_digest lib (Transactions v txs) = transactions_root lib txs v"
| "content_digest lib (Proofs bs) = ad_proofs_digest lib bs"
| "content_digest lib (Extension fs) = extension_root lib fs"

fun encodes :: "('tx, 'st) section_lib \<Rightarrow> ('tx \<Rightarrow> bytes) \<Rightarrow> 'tx section_content \<Rightarrow> bytes \<Rightarrow> bool" where
  "encodes lib tx_bytes (Transactions v txs) bs \<longleftrightarrow> txs \<noteq> [] \<and> length txs < 2 ^ 32 \<and>
     (bs = put_u32 (vlq lib) (BLOCK_VERSION_SENTINEL + ucast v) @ put_u32 (vlq lib) (of_nat (length txs)) @ concat (map tx_bytes txs)
        \<and> v \<noteq> 0
      \<or> v = 1 \<and> length txs \<le> 10000000 \<and> bs = put_u32 (vlq lib) (of_nat (length txs)) @ concat (map tx_bytes txs))"
| "encodes lib tx_bytes (Proofs ps) bs \<longleftrightarrow> length ps < 2 ^ 32 \<and> bs = put_u32 (vlq lib) (of_nat (length ps)) @ ps"
| "encodes lib tx_bytes (Extension fs) bs \<longleftrightarrow> length fs < 2 ^ 16 \<and> (\<forall>(k, v)\<in>set fs. length v < 2 ^ 8)
     \<and> bs = put_u16 (vlq lib) (of_nat (length fs)) @ concat (map pack_field fs)"

definition section_codec_ok :: "('tx, 'st) section_lib \<Rightarrow> ('tx \<Rightarrow> bytes) \<Rightarrow> bool" where
  "section_codec_ok lib tx_bytes \<longleftrightarrow> lib_codec_ok (vlq lib)
     \<and> (\<forall>tx r. tx_parse lib (tx_bytes tx @ r) = Some (tx, r))"

lemma sb_take_append [simp]: "n = length xs \<Longrightarrow> sb_take ty n (xs @ r) = Inr (xs, r)"
  by (simp add: sb_take_def)

lemma sb_u8_Cons [simp]: "sb_u8 ty (b # r) = Inr (b, r)"
  by (simp add: sb_u8_def rd_bind_def sb_take_def)

lemma lib_codec_get:
  assumes "lib_codec_ok lib"
  shows "get_u32 lib (put_u32 lib v @ r) = Some (v, r)" "get_u16 lib (put_u16 lib w @ r) = Some (w, r)"
  using assms by (simp_all add: lib_codec_ok_def)

lemma sb_field_pack: "length v < 2 ^ 8 \<Longrightarrow> sb_field ty (pack_field ((k0, k1), v) @ r) = Inr (((k0, k1), v), r)"
proof -
  assume l: "length v < 2 ^ 8"
  have "sb_take ty 2 ([k0, k1] @ of_nat (length v) # v @ r) = Inr ([k0, k1], of_nat (length v) # v @ r)"
    by (rule sb_take_append) simp
  then show ?thesis using l by (simp add: sb_field_def pack_field_def rd_bind_def unat_of_nat take_bit_nat_eq_self)
qed

lemma rd_many_concat:
  assumes "\<And>x r. x \<in> set xs \<Longrightarrow> p (f x @ r) = Inr (x, r)"
  shows "rd_many (length xs) p (concat (map f xs) @ r) = Inr (xs, r)"
  using assms by (induction xs) (auto simp: rd_bind_def)

lemma version_above: "ver \<noteq> 0 \<Longrightarrow> BLOCK_VERSION_SENTINEL + ucast (ver :: u8) > BLOCK_VERSION_SENTINEL \<and> (ucast ver :: u32) \<le> 255"
proof -
  assume "ver \<noteq> 0"
  then have v: "0 < unat ver" "unat ver \<le> 255" using unsigned_less [of ver, where 'a = nat] by (auto simp: unat_gt_0)
  have u: "unat (ucast ver :: u32) = unat ver" by (simp add: unat_ucast_widen)
  then have "unat (BLOCK_VERSION_SENTINEL + ucast ver) = 10000000 + unat ver"
    using v by (simp add: BLOCK_VERSION_SENTINEL_def unat_word_ariths)
  with u v show ?thesis by (simp add: word_less_nat_alt word_le_nat_alt BLOCK_VERSION_SENTINEL_def)
qed

lemma ucast_ucast_u8: "ucast (ucast (v :: u8) :: u32) = v"
  by (rule bit_word_eqI) (simp add: bit_simps)

lemma section_digest_encoded:
  assumes ok: "section_codec_ok lib tx_bytes" and e: "encodes lib tx_bytes c bs"
  shows "section_digest lib (content_type c) bs = Inr (content_digest lib c, [])"
proof -
  have v: "lib_codec_ok (vlq lib)" and tx: "tx_parse lib (tx_bytes t @ r) = Some (t, r)" for t r
    using ok by (auto simp: section_codec_ok_def)
  note g = lib_codec_get [OF v]
  show ?thesis
  proof (cases c)
    case (Transactions ver txs)
    have n: "txs \<noteq> []" "length txs < 2 ^ 32" using e by (auto simp: Transactions)
    then have cnt: "unat (of_nat (length txs) :: u32) = length txs" "(of_nat (length txs) :: u32) \<noteq> 0"
      by (auto simp: unat_of_nat take_bit_nat_eq_self word_unat_eq_iff)
    have many: "sb_transactions lib ty (of_nat (length txs)) (concat (map tx_bytes txs)) = Inr (txs, [])" for ty
      using rd_many_concat [of txs "\<lambda>r. ok_or (SectionError ty) (tx_parse lib r)" tx_bytes "[]"] tx
      by (simp add: sb_transactions_def cnt(1))
    show ?thesis
    proof (cases "ver = 1 \<and> length txs \<le> 10000000 \<and> bs = put_u32 (vlq lib) (of_nat (length txs)) @ concat (map tx_bytes txs)")
      case True
      then have "\<not> (of_nat (length txs) :: u32) > BLOCK_VERSION_SENTINEL"
        using cnt(1) by (simp add: word_less_nat_alt BLOCK_VERSION_SENTINEL_def)
      with True many cnt(2) g(1) show ?thesis
        by (simp add: Transactions section_digest_def block_transactions_digest_def rd_bind_def sb_vlq_def)
    next
      case False
      then have bs: "bs = put_u32 (vlq lib) (BLOCK_VERSION_SENTINEL + ucast ver) @ put_u32 (vlq lib) (of_nat (length txs)) @ concat (map tx_bytes txs)"
        and v0: "ver \<noteq> 0" using e by (auto simp: Transactions)
      have "BLOCK_VERSION_SENTINEL + ucast ver > BLOCK_VERSION_SENTINEL \<and> (ucast ver :: u32) \<le> 255"
        by (rule version_above [OF v0])
      with bs many cnt(2) g(1) show ?thesis
        by (simp add: Transactions section_digest_def block_transactions_digest_def rd_bind_def sb_vlq_def ucast_ucast_u8 not_less Let_def)
    qed
  next
    case (Proofs ps)
    then show ?thesis using e g(1)
      by (simp add: section_digest_def AD_PROOFS_TYPE_ID_def BLOCK_TRANSACTIONS_TYPE_ID_def rd_bind_def sb_vlq_def sb_take_def
          unat_of_nat take_bit_nat_eq_self)
  next
    case (Extension fs)
    have len: "unat (of_nat (length fs) :: u16) = length fs" using e by (simp add: Extension unat_of_nat take_bit_nat_eq_self)
    have "rd_many (length fs) (sb_field EXTENSION_TYPE_ID) (concat (map pack_field fs) @ []) = Inr (fs, [])"
      by (rule rd_many_concat) (use e sb_field_pack in \<open>fastforce simp: Extension\<close>)
    then show ?thesis using e g(2) len
      by (simp add: Extension section_digest_def AD_PROOFS_TYPE_ID_def BLOCK_TRANSACTIONS_TYPE_ID_def EXTENSION_TYPE_ID_def
          rd_bind_def sb_vlq_def)
  qed
qed

section \<open>Identity\<close>

definition root_of :: "u8 \<Rightarrow> section_header \<Rightarrow> bytes" where
  "root_of ty h = (if ty = BLOCK_TRANSACTIONS_TYPE_ID then sh_transaction_root h
     else if ty = AD_PROOFS_TYPE_ID then sh_ad_proofs_root h else sh_extension_root h)"

lemma section_ids_iff:
  "(ty, i) \<in> set (section_ids lib h) \<longleftrightarrow>
     ty \<in> {BLOCK_TRANSACTIONS_TYPE_ID, AD_PROOFS_TYPE_ID, EXTENSION_TYPE_ID} \<and> i = section_id lib ty (sh_id h) (root_of ty h)"
  by (auto simp: section_ids_def root_of_def BLOCK_TRANSACTIONS_TYPE_ID_def AD_PROOFS_TYPE_ID_def EXTENSION_TYPE_ID_def)

text \<open>(C34) Honest sections are recognised. A body that encodes contents with the root a header commits to, behind that
  header's id, is accepted with exactly the section id that the header announces for its type.\<close>

theorem section_identity_complete:
  assumes "section_codec_ok lib tx_bytes" "encodes lib tx_bytes c bs" "length (sh_id h) = 32"
    and "content_digest lib c = root_of (content_type c) h"
  shows "\<exists>i. section_id_from_body lib (content_type c) (sh_id h @ bs) = Inr \<lparr>si_header_id = sh_id h, si_id = i\<rparr>
    \<and> (content_type c, i) \<in> set (section_ids lib h)"
proof -
  have "content_type c \<in> {BLOCK_TRANSACTIONS_TYPE_ID, AD_PROOFS_TYPE_ID, EXTENSION_TYPE_ID}" by (cases c) auto
  then show ?thesis
    using section_digest_encoded [OF assms(1, 2)] assms(3, 4)
    by (simp add: section_id_from_body_def rd_run_def rd_bind_def sb_finish_def section_ids_iff)
qed

lemma section_accepted:
  assumes "section_id_from_body lib ty body = Inr ident"
  obtains d where "length body \<ge> 32" "section_digest lib ty (drop 32 body) = Inr (d, [])"
    "ident = \<lparr>si_header_id = take 32 body, si_id = section_id lib ty (take 32 body) d\<rparr>"
  using assms
  by (auto simp: section_id_from_body_def rd_run_def rd_bind_def sb_finish_def sb_take_def and_then_Inr_iff split: if_splits)

text \<open>(C35) A label cannot be forged. If a delivered body is accepted under a section id that a header announces, then,
  unless the two preimages are a hash collision, the body starts with that header's id and its contents have
  exactly the root the header commits to, with no byte left over.\<close>

theorem section_label_sound:
  assumes "section_id_from_body lib ty body = Inr ident" "(ty, si_id ident) \<in> set (section_ids lib h)" "length (sh_id h) = 32"
    and "\<forall>d. section_digest lib ty (drop 32 body) = Inr (d, [])
      \<and> blake2b256 lib (ty # take 32 body @ d) = blake2b256 lib (ty # sh_id h @ root_of ty h)
      \<longrightarrow> ty # take 32 body @ d = ty # sh_id h @ root_of ty h"
  shows "si_header_id ident = sh_id h
    \<and> (\<exists>rest. body = sh_id h @ rest \<and> section_digest lib ty rest = Inr (root_of ty h, []))"
proof (rule section_accepted [OF assms(1)])
  fix d
  assume d: "length body \<ge> 32" "section_digest lib ty (drop 32 body) = Inr (d, [])"
    "ident = \<lparr>si_header_id = take 32 body, si_id = section_id lib ty (take 32 body) d\<rparr>"
  have "take 32 body @ d = sh_id h @ root_of ty h"
    using assms(2, 4) d(2, 3) by (auto simp: section_ids_iff section_id_def)
  then have "take 32 body = sh_id h" "d = root_of ty h" using d(1) assms(3) by (auto simp: append_eq_append_conv)
  with d show ?thesis by (metis append_take_drop_id section_identity.select_convs(1))
qed

text \<open>A library whose hash is the identity, with one-byte transactions.\<close>

definition sample_section_lib :: "(u8, unit) section_lib" where
  "sample_section_lib = \<lparr>blake2b256 = (\<lambda>bs. bs), merkle_root = concat,
     tx_parse = (\<lambda>r. case r of [] \<Rightarrow> None | b # r' \<Rightarrow> Some (b, r')),
     tx_id_bytes = (\<lambda>b. [b]), tx_proofs = (\<lambda>b. [[b]]), vlq = sample_lib\<rparr>"

definition sample_section_header :: section_header where
  "sample_section_header = \<lparr>sh_id = replicate 32 7, sh_transaction_root = [5, 6], sh_ad_proofs_root = [1, 2, 3],
     sh_extension_root = []\<rparr>"

lemma sample_section_codec: "section_codec_ok sample_section_lib (\<lambda>b. [b])"
  using sample_lib_codec_ok by (simp add: section_codec_ok_def sample_section_lib_def)

theorem section_identity_complete_witness:
  "\<exists>bs i. section_id_from_body sample_section_lib 104 (replicate 32 7 @ bs) = Inr \<lparr>si_header_id = replicate 32 7, si_id = i\<rparr>"
proof -
  let ?c = "Proofs [1, 2, 3] :: u8 section_content"
  have e: "encodes sample_section_lib (\<lambda>b. [b]) ?c (put_u32 sample_lib 3 @ [1, 2, 3])"
    by (simp add: sample_section_lib_def)
  have "content_digest sample_section_lib ?c = root_of (content_type ?c) sample_section_header"
    by (simp add: ad_proofs_digest_def sample_section_lib_def root_of_def AD_PROOFS_TYPE_ID_def BLOCK_TRANSACTIONS_TYPE_ID_def
        sample_section_header_def)
  from section_identity_complete [OF sample_section_codec e _ this]
  show ?thesis by (auto simp: sample_section_header_def AD_PROOFS_TYPE_ID_def)
qed

theorem section_label_sound_witness:
  "\<exists>body ident. section_id_from_body sample_section_lib 104 body = Inr ident \<and> si_header_id ident = replicate 32 7"
proof -
  let ?c = "Proofs [1, 2, 3] :: u8 section_content" and ?h = sample_section_header
  have e: "encodes sample_section_lib (\<lambda>b. [b]) ?c (put_u32 sample_lib 3 @ [1, 2, 3])"
    by (simp add: sample_section_lib_def)
  have ty: "content_type ?c = 104" by (simp add: AD_PROOFS_TYPE_ID_def)
  have r: "content_digest sample_section_lib ?c = root_of 104 ?h" "length (sh_id ?h) = 32"
    by (simp_all add: ad_proofs_digest_def sample_section_lib_def root_of_def AD_PROOFS_TYPE_ID_def BLOCK_TRANSACTIONS_TYPE_ID_def
        sample_section_header_def)
  let ?i = "section_id sample_section_lib 104 (sh_id ?h) (root_of 104 ?h)"
    and ?b = "sh_id ?h @ put_u32 sample_lib 3 @ [1, 2, 3]"
  have a: "section_id_from_body sample_section_lib 104 ?b = Inr \<lparr>si_header_id = sh_id ?h, si_id = ?i\<rparr>"
    using section_digest_encoded [OF sample_section_codec e] r unfolding ty
    by (simp add: section_id_from_body_def rd_run_def rd_bind_def sb_finish_def)
  have "(104, ?i) \<in> set (section_ids sample_section_lib ?h)" by (simp add: section_ids_iff AD_PROOFS_TYPE_ID_def)
  then have hid: "si_header_id \<lparr>si_header_id = sh_id ?h, si_id = ?i\<rparr> = sh_id ?h"
    using section_label_sound [OF a _ r(2)] by (simp add: sample_section_lib_def)
  have "sh_id ?h = replicate 32 7" by (simp add: sample_section_header_def)
  with a hid show ?thesis by metis
qed

end
