(* ===== verification/Sync_Info.thy ===== *)
theory Sync_Info
  imports Header_Chain_Reorg
begin

text \<open>
  SyncInfo messages (\<open>chain/src/sync_info.rs\<close>): the body built from the header chain, and the parser of both wire
  formats. The header serialiser is external and a parameter, like the VLQ codec.
\<close>

section \<open>Definitions\<close>

definition SYNC_OFFSETS :: "nat list" where
  "SYNC_OFFSETS = [0, 16, 128, 512]"

definition MAX_V1_HEADER_IDS :: u16 where
  "MAX_V1_HEADER_IDS = 1001"

definition MAX_V2_HEADERS :: u8 where
  "MAX_V2_HEADERS = 50"

definition MAX_V2_HEADER_SIZE :: u16 where
  "MAX_V2_HEADER_SIZE = 1000"

definition V2_MODE_BYTE :: u8 where
  "V2_MODE_BYTE = 0xFF"

datatype sync_info = V1 "bytes list" | V2 "header list"

record header_codec =
  header_serialize :: "header \<Rightarrow> bytes"
  header_parse :: "bytes \<Rightarrow> chain_error + header"

definition put_header :: "'st sigma_lib \<Rightarrow> header_codec \<Rightarrow> header \<Rightarrow> bytes" where
  "put_header lib hc h = (let bs = header_serialize hc h in put_u16 lib (of_nat (length bs)) @ bs)"

definition build_sync_info ::
  "('hc, 'sc, 'st) chain_lib \<Rightarrow> header_codec \<Rightarrow> ('hc, 'sc) header_chain \<Rightarrow> bytes \<times> ('hc, 'sc) header_chain" where
  "build_sync_info L hc s =
     (let buf = put_u16 (sigma L) 0 @ [V2_MODE_BYTE] in
      if is_empty s then (buf @ [0], s)
      else
        let tip_height = height s in
        case header_at L (tip_height - (length (by_id s) - 1)) s of
          (first, s1) \<Rightarrow>
            let base = (case first of Some h \<Rightarrow> h_height h | None \<Rightarrow> 1);
                targets = map (\<lambda>off. tip_height - off) (filter (\<lambda>off. off \<le> tip_height \<and> tip_height - off \<ge> base) SYNC_OFFSETS) in
            case read_heights (header_at L) targets s1 of
              (found, s2) \<Rightarrow>
                let selected = List.map_filter id found in
                (buf @ [of_nat (length selected)] @ concat (map (put_header (sigma L) hc) selected), s2))"

definition si_vlq_u16 :: "'st sigma_lib \<Rightarrow> (chain_error, u16) reader" where
  "si_vlq_u16 lib = (\<lambda>r. ok_or SyncInfoError (get_u16 lib r))"

definition si_u8 :: "(chain_error, u8) reader" where
  "si_u8 = (\<lambda>r. case r of [] \<Rightarrow> Inl SyncInfoError | b # r' \<Rightarrow> Inr (b, r'))"

definition si_exact :: "nat \<Rightarrow> (chain_error, bytes) reader" where
  "si_exact n = (\<lambda>r. if length r < n then Inl SyncInfoError else Inr (take n r, drop n r))"

definition parse_v1 :: "u16 \<Rightarrow> (chain_error, sync_info) reader" where
  "parse_v1 count =
     (if count > MAX_V1_HEADER_IDS then rd_fail SyncInfoError
      else rd_bind (rd_many (unat count) (si_exact 32)) (\<lambda>ids. rd_return (V1 ids)))"

definition v2_header :: "'st sigma_lib \<Rightarrow> header_codec \<Rightarrow> (chain_error, header) reader" where
  "v2_header lib hc =
     rd_bind (si_vlq_u16 lib) (\<lambda>size.
     if size > MAX_V2_HEADER_SIZE then rd_fail SyncInfoError
     else rd_bind (si_exact (unat size)) (\<lambda>bs r. and_then (header_parse hc bs) (\<lambda>h. Inr (h, r))))"

definition parse_v2 :: "'st sigma_lib \<Rightarrow> header_codec \<Rightarrow> (chain_error, sync_info) reader" where
  "parse_v2 lib hc =
     rd_bind si_u8 (\<lambda>mode.
     if mode \<noteq> V2_MODE_BYTE then rd_fail SyncInfoError
     else rd_bind si_u8 (\<lambda>count.
     if count > MAX_V2_HEADERS then rd_fail SyncInfoError
     else rd_bind (rd_many (unat count) (v2_header lib hc)) (\<lambda>hs. rd_return (V2 hs))))"

definition parse_sync_info :: "'st sigma_lib \<Rightarrow> header_codec \<Rightarrow> bytes \<Rightarrow> chain_error + sync_info" where
  "parse_sync_info lib hc body =
     (if body = [] then Inl SyncInfoError
      else rd_run (rd_bind (si_vlq_u16 lib) (\<lambda>count. if count > 0 then parse_v1 count else parse_v2 lib hc)) body)"

section \<open>The round trip\<close>

definition header_codec_ok :: "header_codec \<Rightarrow> header \<Rightarrow> bool" where
  "header_codec_ok hc h \<longleftrightarrow> header_parse hc (header_serialize hc h) = Inr h \<and> length (header_serialize hc h) \<le> 1000"

text \<open>The headers a node announces: the tip and those 16, 128 and 512 below it, as far as the chain goes.\<close>

definition announced :: "header list \<Rightarrow> header list" where
  "announced hs = map (\<lambda>off. hs ! (length hs - 1 - off)) (filter (\<lambda>off. off < length hs) SYNC_OFFSETS)"

lemma v2_header_put:
  assumes "lib_codec_ok lib" "header_codec_ok hc h"
  shows "v2_header lib hc (put_header lib hc h @ r) = Inr (h, r)"
proof -
  let ?bs = "header_serialize hc h"
  have l: "length ?bs \<le> 1000" "header_parse hc ?bs = Inr h" using assms(2) by (auto simp: header_codec_ok_def)
  then have u: "unat (of_nat (length ?bs) :: u16) = length ?bs" by (simp add: unat_of_nat take_bit_nat_eq_self)
  then have "\<not> (of_nat (length ?bs) :: u16) > MAX_V2_HEADER_SIZE"
    using l(1) by (simp add: word_less_nat_alt MAX_V2_HEADER_SIZE_def)
  with assms(1) l(2) u show ?thesis
    by (simp add: v2_header_def put_header_def Let_def rd_bind_def si_vlq_u16_def lib_codec_ok_def si_exact_def)
qed

lemma parse_built:
  assumes lib: "lib_codec_ok lib" and hc: "\<forall>h\<in>set hs. header_codec_ok hc h" and len: "length hs \<le> 50"
  shows "parse_sync_info lib hc
      ((put_u16 lib 0 @ [V2_MODE_BYTE]) @ [of_nat (length hs)] @ concat (map (put_header lib hc) hs)) = Inr (V2 hs)"
proof -
  have u: "unat (of_nat (length hs) :: u8) = length hs" using len by (simp add: unat_of_nat take_bit_nat_eq_self)
  then have c: "\<not> (of_nat (length hs) :: u8) > MAX_V2_HEADERS" using len by (simp add: word_less_nat_alt MAX_V2_HEADERS_def)
  have "rd_many (length hs) (v2_header lib hc) (concat (map (put_header lib hc) hs) @ []) = Inr (hs, [])"
    using hc v2_header_put [OF lib] by (induction hs) (auto simp: rd_bind_def)
  with lib u c show ?thesis
    by (simp add: parse_sync_info_def rd_run_def rd_bind_def si_vlq_u16_def lib_codec_ok_def parse_v2_def si_u8_def)
qed

text \<open>(C36) What a node announces is what its peer reads. On a chain that represents the list \<open>hs\<close>, the body built for the
  peers is parsed back as the current format with exactly the tip and the headers 16, 128 and 512 below it that
  exist, tip first; building it leaves the chain as it was.\<close>

theorem sync_info_roundtrip:
  assumes "represents L U b hs scs s" "lib_codec_ok (sigma L)" "\<forall>h\<in>set hs. header_codec_ok hc h"
    and "{b} \<union> (\<lambda>off. b + length hs - 1 - off) ` {0, 16, 128, 512} \<subseteq> U"
  shows "\<exists>body s'. build_sync_info L hc s = (body, s') \<and> parse_sync_info (sigma L) hc body = Inr (V2 (announced hs))
    \<and> represents L U b hs scs s' \<and> settings s' = settings s"
proof (cases "hs = []")
  case True
  have "parse_sync_info (sigma L) hc ((put_u16 (sigma L) 0 @ [V2_MODE_BYTE]) @ [0]) = Inr (V2 [])"
    using parse_built [OF assms(2), of "[]" hc] by simp
  with True assms(1) represents_empty [OF assms(1)] show ?thesis
    by (simp add: build_sync_info_def announced_def)
next
  case False
  note r = assms(1)
  have pos: "length hs > 0" using False by simp
  have ht: "height s = b + length hs - 1" using represents_height [OF r False] by simp
  have len: "length (by_id s) = length hs" using index_length r by (auto simp: represents_def)
  have low: "height s - (length (by_id s) - 1) = b" using ht len pos by simp
  have bU: "b \<in> U" using assms(4) by simp
  obtain first s1 where f: "header_at L b s = (first, s1)" by fastforce
  have "at_height b hs b = Some (hs ! 0)" using pos by (simp add: at_height_def)
  then have first: "first = Some (hs ! 0)" and s1: "represents L U b hs scs s1" "settings s1 = settings s"
    using header_at_represents [OF r bU] f by auto
  have base: "h_height (hs ! 0) = b" using r pos by (simp add: represents_def linked_def)
  define os where "os = filter (\<lambda>off. off \<le> height s \<and> height s - off \<ge> b) SYNC_OFFSETS"
  have "off \<le> height s \<and> height s - off \<ge> b \<longleftrightarrow> off < length hs" for off unfolding ht using pos by arith
  then have os: "os = filter (\<lambda>off. off < length hs) SYNC_OFFSETS" by (simp add: os_def)
  have sub: "set (map (\<lambda>off. height s - off) os) \<subseteq> U" using assms(4) ht by (auto simp: os_def SYNC_OFFSETS_def split: if_splits)
  obtain found s2 where g: "read_heights (header_at L) (map (\<lambda>off. height s - off) os) s1 = (found, s2)" by fastforce
  have found: "found = map (at_height b hs) (map (\<lambda>off. height s - off) os)"
    and s2: "represents L U b hs scs s2" "settings s2 = settings s"
    using headers_reader.read_heights_view [of L U b hs scs s1 "settings s" "map (\<lambda>off. height s - off) os"] sub s1 g by auto
  have "at_height b hs (height s - off) = Some (hs ! (length hs - 1 - off))" if "off \<in> set os" for off
    using that pos unfolding os ht at_height_def by auto
  then have sel: "List.map_filter id found = announced hs"
    unfolding found announced_def os [symmetric] by (induction os) (auto simp: map_filter_simps)
  have "set (announced hs) \<subseteq> set hs" using pos by (auto simp: announced_def)
  moreover have "length (announced hs) \<le> 50" by (simp add: announced_def SYNC_OFFSETS_def)
  ultimately have p: "parse_sync_info (sigma L) hc ((put_u16 (sigma L) 0 @ [V2_MODE_BYTE]) @ [of_nat (length (announced hs))]
      @ concat (map (put_header (sigma L) hc) (announced hs))) = Inr (V2 (announced hs))"
    using assms(3) by (intro parse_built [OF assms(2)]) auto
  have "build_sync_info L hc s = ((put_u16 (sigma L) 0 @ [V2_MODE_BYTE]) @ [of_nat (length (announced hs))]
      @ concat (map (put_header (sigma L) hc) (announced hs)), s2)"
    using False represents_empty [OF r] g sel
    unfolding build_sync_info_def Let_def low f first prod.case option.case base os_def [symmetric] by simp
  with p s2 show ?thesis by blast
qed

section \<open>A sample\<close>

definition sample_header_codec :: header_codec where
  "sample_header_codec = \<lparr>header_serialize = (\<lambda>h. [of_nat (h_height h)]),
     header_parse = (\<lambda>bs. if bs = [2] then Inr (sample_header 2 10) else Inr (sample_header 1 5))\<rparr>"

theorem sync_info_roundtrip_witness:
  "\<exists>s body s'. represents sample_chain_lib {1, 2, 0} 1 [sample_header 1 5, sample_header 2 10] [10, 20] s
     \<and> build_sync_info sample_chain_lib sample_header_codec s = (body, s')
     \<and> parse_sync_info sample_lib sample_header_codec body = Inr (V2 [sample_header 2 10])"
proof -
  let ?hs = "[sample_header 1 5, sample_header 2 10]"
  have l: "linked 1 ?hs" by (auto simp: linked_def sample_header_def less_Suc_eq)
  have d: "distinct (map h_id ?hs)" by (simp add: sample_header_def)
  obtain s where s: "represents sample_chain_lib {1, 2, 0} 1 ?hs [10, 20]
      (set_score_loader (at_height 1 [10, 20]) (set_header_loader (at_height 1 ?hs) s))"
    by (rule restore_represents [OF sample_chain_lib_ok _ _ l d, of "{1, 2, 0}" "[10, 20]" config_testnet]) simp_all
  have lib: "lib_codec_ok (sigma sample_chain_lib)" "sigma sample_chain_lib = sample_lib"
    using sample_lib_codec_ok by (simp_all add: sample_chain_lib_def)
  have hc: "\<forall>h\<in>set ?hs. header_codec_ok sample_header_codec h"
    by (simp add: header_codec_ok_def sample_header_codec_def) (simp add: sample_header_def)
  have a: "announced ?hs = [sample_header 2 10]" by (simp add: announced_def SYNC_OFFSETS_def)
  have w: "{1} \<union> (\<lambda>off. 1 + length ?hs - 1 - off) ` {0, 16, 128, 512} \<subseteq> {1, 2, 0 :: nat}" by auto
  show ?thesis using sync_info_roundtrip [OF s lib(1) hc w] s unfolding a lib(2) by blast
qed

end
