(* ===== verification/Bitmap.thy ===== *)
theory Bitmap
  imports Node_Prelude "HOL-Library.Monad_Syntax"
begin

text \<open>
  The 64-way bit tree of the vendored redb store (\<open>patches/redb/src/tree_store/page_store/bitmap.rs\<close>): a set bit is an
  allocated id. The leaf level has one bit per id; every bit of a level above says whether a 64-bit group
  below is full, so that the first unset id is found by one word per level. Levels are stored root first.

  A panic (a failed assertion, an index out of range, \<open>unwrap\<close> of \<open>None\<close>) is \<open>None\<close>; ids and lengths are \<open>u32\<close>
  in the source and numbers here. The assertions that compare an id with the length keep them in range: the
  largest intermediate value is the end \<open>entry + 64\<close> of a group, which fits for fewer than \<open>2^31\<close> ids.
\<close>

section \<open>Standard library\<close>

definition div_ceil :: "nat \<Rightarrow> nat \<Rightarrow> nat" where
  "div_ceil a b = (a + b - 1) div b"

definition index_at :: "'a list \<Rightarrow> nat \<Rightarrow> 'a option" where
  "index_at xs i = (if i < length xs then Some (xs ! i) else None)"

definition slice :: "'a list \<Rightarrow> nat \<Rightarrow> nat \<Rightarrow> 'a list option" where
  "slice xs a b = (if a \<le> b \<and> b \<le> length xs then Some (take (b - a) (drop a xs)) else None)"

definition assert_that :: "bool \<Rightarrow> unit option" where
  "assert_that p = (if p then Some () else None)"

definition trailing_ones :: "u64 \<Rightarrow> nat" where
  "trailing_ones w = length (takeWhile (bit w) [0..<64])"

definition count_zeros :: "u64 \<Rightarrow> nat" where
  "count_zeros w = length (filter (\<lambda>i. \<not> bit w i) [0..<64])"

fun to_le_bytes :: "nat \<Rightarrow> nat \<Rightarrow> bytes" where
  "to_le_bytes 0 n = []"
| "to_le_bytes (Suc k) n = of_nat (n mod 256) # to_le_bytes k (n div 256)"

fun from_le_bytes :: "bytes \<Rightarrow> nat" where
  "from_le_bytes [] = 0"
| "from_le_bytes (b # bs) = unat b + 256 * from_le_bytes bs"

definition try_into_u32 :: "nat \<Rightarrow> nat option" where
  "try_into_u32 n = (if n < 2 ^ 32 then Some n else None)"

section \<open>Grouped bitmaps\<close>

record grouped_bitmap =
  gb_len :: nat
  gb_data :: "u64 list"

definition required_words :: "nat \<Rightarrow> nat" where
  "required_words elements = div_ceil elements 64"

definition new_full :: "nat \<Rightarrow> nat \<Rightarrow> grouped_bitmap" where
  "new_full n capacity = \<lparr>gb_len = n, gb_data = replicate (required_words capacity) (- 1)\<rparr>"

definition gb_to_vec :: "grouped_bitmap \<Rightarrow> bytes option" where
  "gb_to_vec g = do {
     ws \<leftarrow> slice (gb_data g) 0 (required_words (gb_len g));
     Some (to_le_bytes 4 (gb_len g) @ concat (map (\<lambda>x. to_le_bytes 8 (unat x)) ws)) }"

fun gb_words :: "nat \<Rightarrow> bytes \<Rightarrow> u64 list" where
  "gb_words 0 bs = []"
| "gb_words (Suc n) bs = of_nat (from_le_bytes (take 8 bs)) # gb_words n (drop 8 bs)"

definition gb_from_bytes :: "bytes \<Rightarrow> grouped_bitmap option" where
  "gb_from_bytes serialized = do {
     assert_that (4 \<le> length serialized);
     assert_that ((length serialized - 4) mod 8 = 0);
     Some \<lparr>gb_len = from_le_bytes (take 4 serialized),
           gb_data = gb_words ((length serialized - 4) div 8) (drop 4 serialized)\<rparr> }"

definition data_index_of :: "nat \<Rightarrow> nat \<times> nat" where
  "data_index_of i = (i div 64, i mod 64)"

definition select_mask :: "nat \<Rightarrow> u64" where
  "select_mask i = push_bit i 1"

definition gb_count_unset :: "grouped_bitmap \<Rightarrow> nat" where
  "gb_count_unset g = sum_list (map count_zeros (gb_data g))"

definition gb_any_unset :: "grouped_bitmap \<Rightarrow> bool" where
  "gb_any_unset g = list_ex (\<lambda>x. count_zeros x > 0) (gb_data g)"

definition gb_first_unset :: "grouped_bitmap \<Rightarrow> nat \<Rightarrow> nat \<Rightarrow> nat option option" where
  "gb_first_unset g start_bit end_bit = do {
     assert_that (end_bit = (start_bit - start_bit mod 64) + 64);
     if gb_len g = 0 then Some None
     else do {
       let (index, i) = data_index_of start_bit;
       group \<leftarrow> index_at (gb_data g) index;
       let group = group OR (push_bit i 1 - 1);
       let x = trailing_ones group;
       Some (if x = 64 then None else Some (start_bit + x - i)) } }"

definition gb_get :: "grouped_bitmap \<Rightarrow> nat \<Rightarrow> bool option" where
  "gb_get g i = do {
     assert_that (i < gb_len g);
     let (index, bit_index) = data_index_of i;
     group \<leftarrow> index_at (gb_data g) index;
     Some (group AND select_mask bit_index \<noteq> 0) }"

text \<open>The flag says whether the group of the bit is all set.\<close>

definition gb_set :: "grouped_bitmap \<Rightarrow> nat \<Rightarrow> (bool \<times> grouped_bitmap) option" where
  "gb_set g i = do {
     assert_that (i < gb_len g);
     let (index, bit_index) = data_index_of i;
     group \<leftarrow> index_at (gb_data g) index;
     let group = group OR select_mask bit_index;
     Some (group = - 1, g\<lparr>gb_data := (gb_data g)[index := group]\<rparr>) }"

definition gb_clear :: "grouped_bitmap \<Rightarrow> nat \<Rightarrow> grouped_bitmap option" where
  "gb_clear g i = do {
     assert_that (i < gb_len g);
     let (index, bit_index) = data_index_of i;
     group \<leftarrow> index_at (gb_data g) index;
     Some (g\<lparr>gb_data := (gb_data g)[index := group AND NOT (select_mask bit_index)]\<rparr>) }"

fun gb_fill :: "bool \<Rightarrow> nat list \<Rightarrow> grouped_bitmap \<Rightarrow> grouped_bitmap option" where
  "gb_fill full [] g = Some g"
| "gb_fill full (i # is) g =
     (if full then do { (_, g') \<leftarrow> gb_set g i; gb_fill full is g' }
      else do { g' \<leftarrow> gb_clear g i; gb_fill full is g' })"

definition gb_resize :: "grouped_bitmap \<Rightarrow> nat \<Rightarrow> bool \<Rightarrow> grouped_bitmap option" where
  "gb_resize g new_len full =
     (let data = (if length (gb_data g) < required_words new_len
                  then gb_data g @ replicate (required_words new_len - length (gb_data g)) (if full then - 1 else 0)
                  else gb_data g);
          old_len = gb_len g;
          g1 = \<lparr>gb_len = new_len, gb_data = data\<rparr>
      in if old_len < new_len then gb_fill full [old_len..<new_len] g1 else Some g1)"

section \<open>The tree\<close>

type_synonym btree_bitmap = "grouped_bitmap list"

definition get_height :: "btree_bitmap \<Rightarrow> nat option" where
  "get_height b = try_into_u32 (length b)"

definition get_level :: "btree_bitmap \<Rightarrow> nat \<Rightarrow> grouped_bitmap option" where
  "get_level b i = do { h \<leftarrow> get_height b; assert_that (i < h); index_at b i }"

text \<open>\<open>get_level(get_height() - 1)\<close>; the subtraction panics on a tree without levels.\<close>

definition leaf_level :: "btree_bitmap \<Rightarrow> grouped_bitmap option" where
  "leaf_level b = do { h \<leftarrow> get_height b; assert_that (0 < h); get_level b (h - 1) }"

definition count_unset :: "btree_bitmap \<Rightarrow> nat option" where
  "count_unset b = map_option gb_count_unset (leaf_level b)"

definition has_unset :: "btree_bitmap \<Rightarrow> bool option" where
  "has_unset b = map_option gb_any_unset (leaf_level b)"

definition bm_get :: "btree_bitmap \<Rightarrow> nat \<Rightarrow> bool option" where
  "bm_get b i = do { leaf \<leftarrow> leaf_level b; gb_get leaf i }"

definition bm_len :: "btree_bitmap \<Rightarrow> nat option" where
  "bm_len b = map_option gb_len (leaf_level b)"

text \<open>The loop of \<open>find_first_unset\<close> over the levels below the root.\<close>

fun descend :: "grouped_bitmap list \<Rightarrow> nat \<Rightarrow> nat option" where
  "descend [] entry = Some entry"
| "descend (l # ls) entry = do {
     r \<leftarrow> gb_first_unset l (entry * 64) (entry * 64 + 64);
     e \<leftarrow> r;
     descend ls e }"

definition find_first_unset :: "btree_bitmap \<Rightarrow> nat option option" where
  "find_first_unset b = do {
     root \<leftarrow> get_level b 0;
     r \<leftarrow> gb_first_unset root 0 64;
     case r of None \<Rightarrow> Some None | Some entry \<Rightarrow> map_option Some (descend (tl b) entry) }"

text \<open>\<open>update_to_root\<close> walks from the level above the leaf to the root; its argument lists those levels in
  that order.\<close>

fun update_to_root :: "grouped_bitmap list \<Rightarrow> nat \<Rightarrow> bool \<Rightarrow> grouped_bitmap list option" where
  "update_to_root [] entry full = Some []"
| "update_to_root (p # ps) entry full = do {
     (full', p') \<leftarrow> (if full then gb_set p entry else map_option (Pair False) (gb_clear p entry));
     ps' \<leftarrow> update_to_root ps (entry div 64) full';
     Some (p' # ps') }"

definition bm_set :: "btree_bitmap \<Rightarrow> nat \<Rightarrow> btree_bitmap option" where
  "bm_set b i = do {
     leaf \<leftarrow> leaf_level b;
     (full, leaf') \<leftarrow> gb_set leaf i;
     parents \<leftarrow> update_to_root (tl (rev b)) (i div 64) full;
     Some (rev (leaf' # parents)) }"

definition bm_clear :: "btree_bitmap \<Rightarrow> nat \<Rightarrow> btree_bitmap option" where
  "bm_clear b i = do {
     leaf \<leftarrow> leaf_level b;
     leaf' \<leftarrow> gb_clear leaf i;
     parents \<leftarrow> update_to_root (tl (rev b)) (i div 64) False;
     Some (rev (leaf' # parents)) }"

definition bm_alloc :: "btree_bitmap \<Rightarrow> (nat option \<times> btree_bitmap) option" where
  "bm_alloc b = do {
     r \<leftarrow> find_first_unset b;
     case r of None \<Rightarrow> Some (None, b)
     | Some entry \<Rightarrow> do { b' \<leftarrow> bm_set b entry; Some (Some entry, b') } }"

text \<open>The loop of \<open>new\<close>, from the leaf to the root.\<close>

function new_levels :: "nat \<Rightarrow> nat \<Rightarrow> grouped_bitmap list" where
  "new_levels num_pages capacity =
     new_full num_pages capacity
       # (if capacity \<le> 64 then [] else new_levels (div_ceil num_pages 64) (div_ceil capacity 64))"
  by pat_completeness auto

termination
  by (relation "measure snd") (auto simp: div_ceil_def)

declare new_levels.simps [simp del]

definition bm_new :: "nat \<Rightarrow> nat \<Rightarrow> btree_bitmap" where
  "bm_new num_pages capacity = rev (new_levels num_pages capacity)"

function height_for_capacity :: "nat \<Rightarrow> nat" where
  "height_for_capacity capacity = (if capacity > 64 then height_for_capacity (div_ceil capacity 64) + 1 else 1)"
  by pat_completeness auto

termination
  by (relation "measure id") (auto simp: div_ceil_def)

declare height_for_capacity.simps [simp del]

text \<open>The padding loop of \<open>new_padded\<close>, which inserts \<open>n\<close> levels above the root.\<close>

fun pad_root :: "nat \<Rightarrow> btree_bitmap \<Rightarrow> btree_bitmap option" where
  "pad_root 0 b = Some b"
| "pad_root (Suc n) b = do {
     root \<leftarrow> index_at b 0;
     let parent_len = div_ceil (gb_len root) 64;
     pad_root n (new_full parent_len parent_len # b) }"

definition new_padded :: "nat \<Rightarrow> nat \<Rightarrow> nat \<Rightarrow> btree_bitmap option" where
  "new_padded num_pages capacity max_capacity =
     (let result = bm_new num_pages capacity
      in pad_root (height_for_capacity max_capacity - length result) result)"

text \<open>The loop of \<open>resize\<close>, from the leaf to the root.\<close>

fun resize_levels :: "grouped_bitmap list \<Rightarrow> nat \<Rightarrow> bool \<Rightarrow> grouped_bitmap list option" where
  "resize_levels [] new_len full = Some []"
| "resize_levels (l # ls) new_len full = do {
     l' \<leftarrow> gb_resize l new_len full;
     ls' \<leftarrow> resize_levels ls (div_ceil new_len 64) full;
     Some (l' # ls') }"

definition bm_resize :: "btree_bitmap \<Rightarrow> nat \<Rightarrow> bool \<Rightarrow> btree_bitmap option" where
  "bm_resize b new_len full = do {
     ls \<leftarrow> resize_levels (rev b) new_len full;
     root \<leftarrow> get_level (rev ls) 0;
     assert_that (gb_len root \<le> 64);
     Some (rev ls) }"

definition bm_to_vec :: "btree_bitmap \<Rightarrow> bytes option" where
  "bm_to_vec b = do {
     height \<leftarrow> try_into_u32 (length b);
     vecs \<leftarrow> those (map gb_to_vec b);
     let data_offset = 4 + length b * 4;
     ends \<leftarrow> those (map (\<lambda>k. try_into_u32 (data_offset + sum_list (map length (take (Suc k) vecs)))) [0..<length vecs]);
     let result = to_le_bytes 4 height @ concat (map (to_le_bytes 4) ends);
     assert_that (data_offset = length result);
     Some (result @ concat vecs) }"

text \<open>The loop of \<open>from_bytes\<close>: \<open>metadata\<close> is the position of the next end offset, \<open>data_start\<close> that of the next
  level.\<close>

fun bm_read_levels :: "nat \<Rightarrow> bytes \<Rightarrow> nat \<Rightarrow> nat \<Rightarrow> grouped_bitmap list option" where
  "bm_read_levels 0 data metadata data_start = Some []"
| "bm_read_levels (Suc n) data metadata data_start = do {
     field \<leftarrow> slice data metadata (metadata + 4);
     let data_end = from_le_bytes field;
     lvl \<leftarrow> slice data data_start data_end;
     g \<leftarrow> gb_from_bytes lvl;
     gs \<leftarrow> bm_read_levels n data (metadata + 4) data_end;
     Some (g # gs) }"

definition bm_from_bytes :: "bytes \<Rightarrow> btree_bitmap option" where
  "bm_from_bytes data = do {
     field \<leftarrow> slice data 0 4;
     let height = from_le_bytes field;
     bm_read_levels height data 4 (4 + height * 4) }"

end
