(* ===== verification/Bitmap_Spec.thy ===== *)
theory Bitmap_Spec
  imports Bitmap
begin

text \<open>
  The bit tree of \<open>bitmap.rs\<close> stands for the set of its unset ids. The invariant \<open>bitmap_inv\<close> says that bits beyond
  the length are set and that every level above the leaf marks exactly the full groups below. All operations
  keep it and act on the set: the tree is an instance of the interface \<open>free_set\<close> that the buddy allocator
  and the region tracker rely on.
\<close>

section \<open>Words\<close>

lemma assert_that_bind [simp]: "Option.bind (assert_that p) f = (if p then f () else None)"
  by (simp add: assert_that_def)

lemma index_at_Some [simp]: "i < length xs \<Longrightarrow> index_at xs i = Some (xs ! i)"
  by (simp add: index_at_def)

lemma select_mask_bit: "i < 64 \<Longrightarrow> bit (select_mask i) j \<longleftrightarrow> j = i"
  by (auto simp: select_mask_def bit_simps)

lemma and_select_mask: "i < 64 \<Longrightarrow> w AND select_mask i \<noteq> 0 \<longleftrightarrow> bit w i"
  by (auto simp: bit_eq_iff [of "w AND select_mask i" 0] bit_and_iff select_mask_bit)

lemma bit_set_word: "i < 64 \<Longrightarrow> bit (w OR select_mask i) j \<longleftrightarrow> bit w j \<or> j = i"
  by (auto simp: bit_or_iff select_mask_bit)

lemma bit_clear_word: "i < 64 \<Longrightarrow> j < 64 \<Longrightarrow> bit (w AND NOT (select_mask i)) j \<longleftrightarrow> bit w j \<and> j \<noteq> i"
  for w :: u64
  by (auto simp: bit_and_iff bit_not_iff select_mask_bit)

lemma word_full_iff: "w = - 1 \<longleftrightarrow> (\<forall>i < 64. bit w i)" for w :: u64
  by (auto intro!: bit_word_eqI)

lemma count_zeros_card: "count_zeros w = card {i. i < 64 \<and> \<not> bit w i}"
proof -
  have "count_zeros w = card (set (filter (\<lambda>i. \<not> bit w i) [0..<64]))"
    unfolding count_zeros_def by (rule distinct_card [symmetric]) simp
  moreover have "set (filter (\<lambda>i. \<not> bit w i) [0..<64]) = {i. i < 64 \<and> \<not> bit w i}" by auto
  ultimately show ?thesis by (simp only:)
qed

lemma count_zeros_pos: "count_zeros w > 0 \<longleftrightarrow> w \<noteq> - 1"
  by (auto simp: count_zeros_card card_gt_0_iff word_full_iff)

lemma trailing_ones_full: "trailing_ones w = 64 \<longleftrightarrow> w = - 1"
proof
  assume "trailing_ones w = 64"
  then have "takeWhile (bit w) [0..<64] = [0..<64]"
    unfolding trailing_ones_def by (subst takeWhile_eq_take) simp
  then have "\<forall>i \<in> set [0..<64]. bit w i" by (simp only: takeWhile_eq_all_conv)
  then show "w = - 1" by (simp add: word_full_iff)
next
  assume "w = - 1"
  then have "takeWhile (bit w) [0..<64] = [0..<64]"
    by (intro takeWhile_eq_all_conv [THEN iffD2]) (simp add: word_full_iff)
  then show "trailing_ones w = 64" unfolding trailing_ones_def by (simp only: length_upt diff_zero)
qed

lemma trailing_ones_least:
  assumes "w \<noteq> - 1"
  shows "trailing_ones w < 64" and "\<not> bit w (trailing_ones w)" and "\<And>i. i < trailing_ones w \<Longrightarrow> bit w i"
proof -
  let ?l = "takeWhile (bit w) [0..<64]"
  have "trailing_ones w \<le> 64" using length_takeWhile_le [of "bit w" "[0..<64]"] by (simp add: trailing_ones_def)
  with assms trailing_ones_full show lt: "trailing_ones w < 64" by (auto simp: le_less)
  then show "\<not> bit w (trailing_ones w)"
    using nth_length_takeWhile [of "bit w" "[0..<64]"] by (simp add: trailing_ones_def)
  show "bit w i" if "i < trailing_ones w" for i
  proof -
    have "?l ! i \<in> set ?l" using that by (simp add: trailing_ones_def)
    moreover have "?l ! i = i" using that lt by (simp add: trailing_ones_def takeWhile_nth)
    ultimately show ?thesis by (auto dest: set_takeWhileD)
  qed
qed

section \<open>The set of unset ids\<close>

definition bit_at :: "grouped_bitmap \<Rightarrow> nat \<Rightarrow> bool" where
  "bit_at g i = bit (gb_data g ! (i div 64)) (i mod 64)"

definition gb_unset :: "grouped_bitmap \<Rightarrow> nat set" where
  "gb_unset g = {i. i < gb_len g \<and> \<not> bit_at g i}"

text \<open>A level keeps the bits beyond its length set.\<close>

definition level_ok :: "grouped_bitmap \<Rightarrow> bool" where
  "level_ok g \<longleftrightarrow> gb_len g \<le> 64 * length (gb_data g)
     \<and> (\<forall>i. gb_len g \<le> i \<longrightarrow> i < 64 * length (gb_data g) \<longrightarrow> bit_at g i)"

text \<open>A level summarises the one below: one bit per group, set exactly when the group is full.\<close>

definition summarises :: "grouped_bitmap \<Rightarrow> grouped_bitmap \<Rightarrow> bool" where
  "summarises p c \<longleftrightarrow> gb_len p = required_words (gb_len c)
     \<and> (\<forall>w < gb_len p. bit_at p w \<longleftrightarrow> gb_data c ! w = - 1)"

text \<open>The levels of a tree, leaf first.\<close>

fun levels_ok :: "grouped_bitmap list \<Rightarrow> bool" where
  "levels_ok [] \<longleftrightarrow> False"
| "levels_ok [root] \<longleftrightarrow> level_ok root \<and> gb_len root \<le> 64"
| "levels_ok (c # p # ps) \<longleftrightarrow> level_ok c \<and> summarises p c \<and> levels_ok (p # ps)"

definition bitmap_inv :: "btree_bitmap \<Rightarrow> bool" where
  "bitmap_inv b \<longleftrightarrow> levels_ok (rev b) \<and> length b < 2 ^ 32"

definition unset :: "btree_bitmap \<Rightarrow> nat set" where
  "unset b = gb_unset (last b)"

definition size_of :: "btree_bitmap \<Rightarrow> nat" where
  "size_of b = gb_len (last b)"

lemma required_words_le: "n \<le> 64 * m \<longleftrightarrow> required_words n \<le> m"
  unfolding required_words_def div_ceil_def by arith

lemma required_words_less: "w < required_words n \<longleftrightarrow> 64 * w < n"
  unfolding required_words_def div_ceil_def by arith

lemma required_words_0 [simp]: "required_words n = 0 \<longleftrightarrow> n = 0" "required_words 0 = 0"
  unfolding required_words_def div_ceil_def by arith+

lemma level_word: "level_ok g \<Longrightarrow> i < gb_len g \<Longrightarrow> i div 64 < length (gb_data g)"
  by (simp add: level_ok_def less_mult_imp_div_less mult.commute)

lemma gb_get_ok: "level_ok g \<Longrightarrow> i < gb_len g \<Longrightarrow> gb_get g i = Some (i \<notin> gb_unset g)"
  by (simp add: gb_get_def data_index_of_def level_word and_select_mask gb_unset_def bit_at_def)

lemma bit_at_update:
  assumes "i div 64 < length (gb_data g)"
  shows "bit_at (g\<lparr>gb_data := (gb_data g)[i div 64 := w]\<rparr>) j
    \<longleftrightarrow> (if j div 64 = i div 64 then bit w (j mod 64) else bit_at g j)"
  using assms by (simp add: bit_at_def nth_list_update)

lemma same_position: "j div 64 = i div 64 \<and> j mod 64 = i mod 64 \<longleftrightarrow> j = (i::nat)"
  by (metis div_mult_mod_eq)

lemma bit_at_set:
  assumes "i div 64 < length (gb_data g)"
  shows "bit_at (g\<lparr>gb_data := (gb_data g)[i div 64 := gb_data g ! (i div 64) OR select_mask (i mod 64)]\<rparr>) j
    \<longleftrightarrow> bit_at g j \<or> j = i"
  using same_position [of j i] by (auto simp: bit_at_update assms bit_set_word) (auto simp: bit_at_def)

lemma bit_at_clear:
  assumes "i div 64 < length (gb_data g)"
  shows "bit_at (g\<lparr>gb_data := (gb_data g)[i div 64 := gb_data g ! (i div 64) AND NOT (select_mask (i mod 64))]\<rparr>) j
    \<longleftrightarrow> bit_at g j \<and> j \<noteq> i"
  using same_position [of j i] by (auto simp: bit_at_update assms bit_clear_word) (auto simp: bit_at_def)

text \<open>One update of a level: what it does to the ids and to the groups.\<close>

definition level_step :: "grouped_bitmap \<Rightarrow> nat \<Rightarrow> bool \<Rightarrow> grouped_bitmap \<Rightarrow> bool" where
  "level_step g i v g' \<longleftrightarrow> level_ok g' \<and> gb_len g' = gb_len g \<and> length (gb_data g') = length (gb_data g)
     \<and> (\<forall>j. bit_at g' j \<longleftrightarrow> (if j = i then v else bit_at g j))
     \<and> (\<forall>w. w \<noteq> i div 64 \<longrightarrow> gb_data g' ! w = gb_data g ! w)"

lemma gb_set_ok:
  assumes "level_ok g" and "i < gb_len g"
  shows "\<exists>g'. gb_set g i = Some (gb_data g' ! (i div 64) = - 1, g') \<and> level_step g i True g'"
proof -
  have w: "i div 64 < length (gb_data g)" using assms by (rule level_word)
  let ?g = "g\<lparr>gb_data := (gb_data g)[i div 64 := gb_data g ! (i div 64) OR select_mask (i mod 64)]\<rparr>"
  have "gb_set g i = Some (gb_data ?g ! (i div 64) = - 1, ?g)"
    using assms w by (simp add: gb_set_def data_index_of_def Let_def)
  moreover have "level_step g i True ?g"
    unfolding level_step_def bit_at_set [OF w] using assms by (auto simp: level_ok_def bit_at_set [OF w])
  ultimately show ?thesis by blast
qed

lemma gb_clear_ok:
  assumes "level_ok g" and "i < gb_len g"
  shows "\<exists>g'. gb_clear g i = Some g' \<and> level_step g i False g'"
proof -
  have w: "i div 64 < length (gb_data g)" using assms by (rule level_word)
  let ?g = "g\<lparr>gb_data := (gb_data g)[i div 64 := gb_data g ! (i div 64) AND NOT (select_mask (i mod 64))]\<rparr>"
  have "gb_clear g i = Some ?g"
    using assms w by (simp add: gb_clear_def data_index_of_def)
  moreover have "level_step g i False ?g"
    unfolding level_step_def bit_at_clear [OF w] using assms by (auto simp: level_ok_def bit_at_clear [OF w])
  ultimately show ?thesis by blast
qed

lemma level_step_unset:
  "level_step g i v g' \<Longrightarrow> i < gb_len g \<Longrightarrow>
     gb_unset g' = (if v then gb_unset g - {i} else insert i (gb_unset g))"
  by (auto simp: level_step_def gb_unset_def split: if_splits)

lemma level_step_not_full:
  "level_step g i False g' \<Longrightarrow> i < gb_len g \<Longrightarrow> gb_data g' ! (i div 64) \<noteq> - 1"
  by (auto simp: level_step_def bit_at_def word_full_iff intro!: exI [of _ "i mod 64"])

subsection \<open>Updates\<close>

lemma levels_ok_Cons: "levels_ok (c # ps) \<Longrightarrow> level_ok c"
  by (cases ps) auto

text \<open>After a change of the leaf, or of any level, the walk to the root restores the summaries above it.\<close>

lemma update_to_root_ok:
  assumes "levels_ok (c # ps)" and "level_step c i v c'" and "i < gb_len c"
  shows "\<exists>ps'. update_to_root ps (i div 64) (gb_data c' ! (i div 64) = - 1) = Some ps'
    \<and> levels_ok (c' # ps') \<and> length ps' = length ps"
  using assms
proof (induction ps arbitrary: c c' i v)
  case Nil
  then show ?case by (auto simp: level_step_def)
next
  case (Cons p ps)
  let ?full = "gb_data c' ! (i div 64) = - 1"
  have sum: "summarises p c" and p: "levels_ok (p # ps)" using Cons.prems(1) by auto
  have lt: "i div 64 < gb_len p"
    using sum Cons.prems(3) by (simp add: summarises_def required_words_less less_le_trans)
  obtain p' where upd: "(if ?full then gb_set p (i div 64) else map_option (Pair False) (gb_clear p (i div 64)))
      = Some (gb_data p' ! (i div 64 div 64) = - 1, p')" and step: "level_step p (i div 64) ?full p'"
    using gb_set_ok [OF levels_ok_Cons [OF p] lt] gb_clear_ok [OF levels_ok_Cons [OF p] lt] level_step_not_full lt
    by (cases ?full) (fastforce+)
  obtain ps' where ps': "update_to_root ps (i div 64 div 64) (gb_data p' ! (i div 64 div 64) = - 1) = Some ps'"
    "levels_ok (p' # ps')" "length ps' = length ps" using Cons.IH [OF p step lt] by blast
  have "summarises p' c'"
    using sum step Cons.prems(2) by (auto simp: summarises_def level_step_def)
  moreover have "level_ok c'" using Cons.prems(2) by (simp add: level_step_def)
  ultimately show ?case using upd ps' by simp
qed

lemma split_last: "b \<noteq> [] \<Longrightarrow> rev b = last b # tl (rev b)"
  by (cases b rule: rev_cases) simp_all

lemma bitmap_inv_nonempty: "bitmap_inv b \<Longrightarrow> b \<noteq> []"
  by (auto simp: bitmap_inv_def)

lemma bitmap_inv_split: "bitmap_inv b \<Longrightarrow> levels_ok (last b # tl (rev b))"
  by (metis bitmap_inv_def bitmap_inv_nonempty split_last)

lemma leaf_level_ok: "bitmap_inv b \<Longrightarrow> leaf_level b = Some (last b)"
  using bitmap_inv_nonempty [of b]
  by (simp add: leaf_level_def get_level_def get_height_def try_into_u32_def bitmap_inv_def last_conv_nth)

lemma last_level_ok: "bitmap_inv b \<Longrightarrow> level_ok (last b)"
  by (blast intro: levels_ok_Cons bitmap_inv_split)

lemma bm_len_ok: "bitmap_inv b \<Longrightarrow> bm_len b = Some (size_of b)"
  by (simp add: bm_len_def leaf_level_ok size_of_def)

lemma bm_get_ok: "bitmap_inv b \<Longrightarrow> i < size_of b \<Longrightarrow> bm_get b i = Some (i \<notin> unset b)"
  by (simp add: bm_get_def leaf_level_ok gb_get_ok last_level_ok unset_def size_of_def)

lemma unset_bound: "i \<in> unset b \<Longrightarrow> i < size_of b"
  by (simp add: unset_def gb_unset_def size_of_def)

lemma finite_unset [simp]: "finite (unset b)"
  by (rule finite_subset [of _ "{..<size_of b}"]) (auto dest: unset_bound)

lemma bitmap_step:
  assumes b: "bitmap_inv b" and i: "i < size_of b" and step: "level_step (last b) i v leaf'"
  obtains parents where "update_to_root (tl (rev b)) (i div 64) (gb_data leaf' ! (i div 64) = - 1) = Some parents"
    and "bitmap_inv (rev (leaf' # parents))" and "size_of (rev (leaf' # parents)) = size_of b"
    and "unset (rev (leaf' # parents)) = (if v then unset b - {i} else insert i (unset b))"
proof -
  obtain parents where p: "update_to_root (tl (rev b)) (i div 64) (gb_data leaf' ! (i div 64) = - 1) = Some parents"
    "levels_ok (leaf' # parents)" "length parents = length (tl (rev b))"
    using update_to_root_ok [OF bitmap_inv_split [OF b] step] i by (auto simp: size_of_def)
  have "bitmap_inv (rev (leaf' # parents))"
    using p(2,3) b bitmap_inv_nonempty [OF b] by (simp add: bitmap_inv_def)
  moreover have "gb_len leaf' = gb_len (last b)" using step by (simp add: level_step_def)
  ultimately show ?thesis
    using that p(1) level_step_unset [OF step] i by (simp add: size_of_def unset_def)
qed

lemma bm_set_ok:
  assumes b: "bitmap_inv b" and i: "i < size_of b"
  shows "\<exists>b'. bm_set b i = Some b' \<and> bitmap_inv b' \<and> size_of b' = size_of b \<and> unset b' = unset b - {i}"
proof -
  obtain leaf' where "gb_set (last b) i = Some (gb_data leaf' ! (i div 64) = - 1, leaf')"
    and step: "level_step (last b) i True leaf'"
    using gb_set_ok [OF last_level_ok [OF b]] i by (auto simp: size_of_def)
  then show ?thesis
    by (rule_tac bitmap_step [OF b i step]) (simp add: bm_set_def leaf_level_ok [OF b])
qed

lemma bm_clear_ok:
  assumes b: "bitmap_inv b" and i: "i < size_of b"
  shows "\<exists>b'. bm_clear b i = Some b' \<and> bitmap_inv b' \<and> size_of b' = size_of b \<and> unset b' = insert i (unset b)"
proof -
  obtain leaf' where c: "gb_clear (last b) i = Some leaf'" and step: "level_step (last b) i False leaf'"
    using gb_clear_ok [OF last_level_ok [OF b]] i by (auto simp: size_of_def)
  have "gb_data leaf' ! (i div 64) \<noteq> - 1"
    using level_step_not_full [OF step] i by (simp add: size_of_def)
  with c show ?thesis
    by (rule_tac bitmap_step [OF b i step]) (simp add: bm_clear_def leaf_level_ok [OF b])
qed

subsection \<open>Search\<close>

lemma first_unset_ok:
  assumes ok: "level_ok g" and e: "64 * e < gb_len g"
  shows "gb_first_unset g (e * 64) (e * 64 + 64) =
    Some (if gb_data g ! e = - 1 then None else Some (e * 64 + trailing_ones (gb_data g ! e)))"
proof -
  have "e < length (gb_data g)" using level_word [OF ok e] by simp
  then show ?thesis
    using e by (simp add: gb_first_unset_def data_index_of_def Let_def trailing_ones_full)
qed

lemma group_first_unset:
  assumes ok: "level_ok g" and e: "64 * e < gb_len g" and nf: "gb_data g ! e \<noteq> - 1"
  shows "e * 64 + trailing_ones (gb_data g ! e) \<in> gb_unset g"
    and "j \<in> gb_unset g \<Longrightarrow> e \<le> j div 64 \<Longrightarrow> e * 64 + trailing_ones (gb_data g ! e) \<le> j"
proof -
  let ?t = "trailing_ones (gb_data g ! e)" and ?i = "e * 64 + trailing_ones (gb_data g ! e)"
  note t = trailing_ones_least [OF nf]
  have pos: "?i div 64 = e" "?i mod 64 = ?t" using t(1) by simp_all
  have clear: "\<not> bit_at g ?i" unfolding bit_at_def pos by (rule t(2))
  have "e < length (gb_data g)" using level_word [OF ok e] by simp
  then have "?i < 64 * length (gb_data g)" using t(1) by simp
  with clear ok have "?i < gb_len g" by (auto simp: level_ok_def not_le [symmetric])
  with clear show "?i \<in> gb_unset g" by (simp add: gb_unset_def)
  assume j: "j \<in> gb_unset g" "e \<le> j div 64"
  show "?i \<le> j"
  proof (cases "e = j div 64")
    case True
    with j(1) have "\<not> bit (gb_data g ! e) (j mod 64)" by (simp add: gb_unset_def bit_at_def)
    then have "?t \<le> j mod 64" using t(3) not_le by blast
    then show ?thesis using True by (metis add_left_mono div_mult_mod_eq)
  next
    case False
    then show ?thesis using j(2) t(1) by arith
  qed
qed

lemma summary_unset:
  assumes s: "summarises p c" and c: "level_ok c"
  shows "w \<in> gb_unset p \<longleftrightarrow> 64 * w < gb_len c \<and> gb_data c ! w \<noteq> - 1"
    and "j \<in> gb_unset c \<Longrightarrow> j div 64 \<in> gb_unset p"
proof -
  show w: "w \<in> gb_unset p \<longleftrightarrow> 64 * w < gb_len c \<and> gb_data c ! w \<noteq> - 1" for w
    using s by (auto simp: summarises_def gb_unset_def required_words_less)
  assume j: "j \<in> gb_unset c"
  then have "gb_data c ! (j div 64) \<noteq> - 1"
    by (auto simp: gb_unset_def bit_at_def word_full_iff intro!: exI [of _ "j mod 64"])
  moreover have "64 * (j div 64) < gb_len c"
    using j div_times_less_eq_dividend [of j 64] unfolding gb_unset_def mem_Collect_eq by linarith
  ultimately show "j div 64 \<in> gb_unset p" by (simp add: w)
qed

definition first_of :: "nat set \<Rightarrow> nat option" where
  "first_of S = (if S = {} then None else Some (Min S))"

lemma first_of_Some: "finite S \<Longrightarrow> m \<in> S \<Longrightarrow> (\<And>j. j \<in> S \<Longrightarrow> m \<le> j) \<Longrightarrow> first_of S = Some m"
  by (auto simp: first_of_def intro: Min_eqI)

lemma finite_gb_unset [simp]: "finite (gb_unset g)"
  by (simp add: gb_unset_def)

text \<open>\<open>find_first_unset\<close> on the levels, leaf first.\<close>

definition search :: "grouped_bitmap list \<Rightarrow> nat option option" where
  "search ls = do {
     r \<leftarrow> gb_first_unset (last ls) 0 64;
     case r of None \<Rightarrow> Some None | Some entry \<Rightarrow> map_option Some (descend (rev (butlast ls)) entry) }"

lemma descend_snoc:
  "descend (ls @ [c]) e = do { e1 \<leftarrow> descend ls e; r \<leftarrow> gb_first_unset c (e1 * 64) (e1 * 64 + 64); r }"
  by (induction ls arbitrary: e) (auto simp: Option.bind_eq_Some_conv split: Option.bind_splits)

lemma search_Cons:
  "search (c # p # ps) = do {
     r \<leftarrow> search (p # ps);
     case r of None \<Rightarrow> Some None
     | Some e \<Rightarrow> do { r' \<leftarrow> gb_first_unset c (e * 64) (e * 64 + 64); map_option Some r' } }"
proof -
  define d where "d = rev (butlast (p # ps))"
  have d: "rev (butlast (c # p # ps)) = d @ [c]" "last (c # p # ps) = last (p # ps)" by (simp_all add: d_def)
  show ?thesis
    unfolding search_def d descend_snoc d_def [symmetric]
    by (cases "gb_first_unset (last (p # ps)) 0 64") (auto split: option.split Option.bind_split)
qed

lemma search_ok: "levels_ok (c # ps) \<Longrightarrow> search (c # ps) = Some (first_of (gb_unset c))"
proof (induction ps arbitrary: c)
  case Nil
  then have ok: "level_ok c" and len: "gb_len c \<le> 64" by auto
  show ?case
  proof (cases "gb_len c = 0")
    case True
    then show ?thesis by (simp add: search_def gb_first_unset_def gb_unset_def first_of_def)
  next
    case False
    then have e: "64 * 0 < gb_len c" by simp
    have "first_of (gb_unset c) = (if gb_data c ! 0 = - 1 then None else Some (trailing_ones (gb_data c ! 0)))"
    proof (cases "gb_data c ! 0 = - 1")
      case True
      then have "gb_unset c = {}" using len by (auto simp: gb_unset_def bit_at_def word_full_iff)
      with True show ?thesis by (simp add: first_of_def)
    next
      case False
      then show ?thesis using group_first_unset [OF ok e False] by (simp add: first_of_Some)
    qed
    then show ?thesis using first_unset_ok [OF ok e] by (simp add: search_def)
  qed
next
  case (Cons p ps)
  then have ok: "level_ok c" and s: "summarises p c" and IH: "search (p # ps) = Some (first_of (gb_unset p))" by auto
  show ?case
  proof (cases "gb_unset p = {}")
    case True
    then have "gb_unset c = {}" using summary_unset(2) [OF s ok] by blast
    with True show ?thesis by (simp add: search_Cons IH first_of_def)
  next
    case False
    define e where "e = Min (gb_unset p)"
    have e: "e \<in> gb_unset p" and least: "\<And>w. w \<in> gb_unset p \<Longrightarrow> e \<le> w" using False by (simp_all add: e_def)
    have lt: "64 * e < gb_len c" and nf: "gb_data c ! e \<noteq> - 1" using e summary_unset(1) [OF s ok] by auto
    have "first_of (gb_unset c) = Some (e * 64 + trailing_ones (gb_data c ! e))"
      using group_first_unset [OF ok lt nf] summary_unset(2) [OF s ok] least by (simp add: first_of_Some)
    moreover have "first_of (gb_unset p) = Some e" using False by (simp add: first_of_def e_def)
    ultimately show ?thesis using first_unset_ok [OF ok lt] nf by (simp add: search_Cons IH)
  qed
qed

lemma find_first_unset_ok:
  assumes "bitmap_inv b"
  shows "find_first_unset b = Some (first_of (unset b))"
proof -
  have ne: "b \<noteq> []" using assms by (rule bitmap_inv_nonempty)
  have "get_level b 0 = Some (hd b)"
    using assms ne by (simp add: get_level_def get_height_def try_into_u32_def bitmap_inv_def hd_conv_nth)
  then have "find_first_unset b = search (rev b)"
    using ne by (simp add: find_first_unset_def search_def last_rev butlast_rev cong: option.case_cong)
  also have "\<dots> = Some (first_of (unset b))"
    using search_ok [OF bitmap_inv_split [OF assms]] by (simp only: split_last [OF ne, symmetric] unset_def)
  finally show ?thesis .
qed

subsection \<open>Counting\<close>

lemma beyond_len_set:
  "level_ok g \<Longrightarrow> i < 64 * length (gb_data g) \<Longrightarrow> \<not> bit_at g i \<Longrightarrow> i \<in> gb_unset g"
  by (auto simp: level_ok_def gb_unset_def not_le [symmetric])

lemma gb_unset_groups:
  assumes "level_ok g"
  shows "gb_unset g = (\<Union>k < length (gb_data g). (\<lambda>i. 64 * k + i) ` {i. i < 64 \<and> \<not> bit (gb_data g ! k) i})"
    (is "_ = (\<Union>k < _. ?part k)")
proof (intro equalityI subsetI)
  fix j
  assume j: "j \<in> gb_unset g"
  then have "j div 64 < length (gb_data g)" using assms by (simp add: gb_unset_def level_word)
  moreover have "\<not> bit (gb_data g ! (j div 64)) (j mod 64)" using j by (simp add: gb_unset_def bit_at_def)
  ultimately show "j \<in> (\<Union>k < length (gb_data g). ?part k)"
    by (intro UN_I [of "j div 64"] image_eqI [of _ _ "j mod 64"]) simp_all
next
  fix j
  assume "j \<in> (\<Union>k < length (gb_data g). ?part k)"
  then obtain k i where "k < length (gb_data g)" "i < 64" "\<not> bit (gb_data g ! k) i" "j = 64 * k + i" by auto
  then show "j \<in> gb_unset g" using assms by (intro beyond_len_set) (auto simp: bit_at_def)
qed

lemma gb_count_unset_ok:
  assumes "level_ok g"
  shows "gb_count_unset g = card (gb_unset g)"
proof -
  let ?part = "\<lambda>k. (\<lambda>i. 64 * k + i) ` {i. i < 64 \<and> \<not> bit (gb_data g ! k) i}"
  have "gb_count_unset g = (\<Sum>k < length (gb_data g). count_zeros (gb_data g ! k))"
    by (simp add: gb_count_unset_def sum_list_sum_nth atLeast0LessThan)
  also have "\<dots> = (\<Sum>k < length (gb_data g). card (?part k))"
    by (intro sum.cong refl) (simp add: count_zeros_card card_image inj_on_def)
  also have "\<dots> = card (\<Union>k < length (gb_data g). ?part k)"
    by (rule card_UN_disjoint [symmetric]) auto
  finally show ?thesis by (simp only: gb_unset_groups [OF assms])
qed

lemma count_unset_ok: "bitmap_inv b \<Longrightarrow> count_unset b = Some (card (unset b))"
  by (simp add: count_unset_def leaf_level_ok gb_count_unset_ok last_level_ok unset_def)

lemma has_unset_ok:
  assumes "bitmap_inv b"
  shows "has_unset b = Some (unset b \<noteq> {})"
proof -
  have "gb_any_unset g \<longleftrightarrow> gb_count_unset g \<noteq> 0" for g
    by (auto simp: gb_any_unset_def gb_count_unset_def list_ex_iff)
  then show ?thesis
    using gb_count_unset_ok [OF last_level_ok [OF assms]]
    by (simp add: has_unset_def leaf_level_ok [OF assms] unset_def card_gt_0_iff)
qed

subsection \<open>Construction and growth\<close>

lemma required_words_div_ceil: "div_ceil n 64 = required_words n"
  by (simp add: required_words_def)

lemma required_words_mono: "m \<le> n \<Longrightarrow> required_words m \<le> required_words n"
  unfolding required_words_def div_ceil_def by (simp add: div_le_mono)

lemma new_full_bit: "i < 64 * required_words capacity \<Longrightarrow> bit_at (new_full n capacity) i"
  by (simp add: bit_at_def new_full_def less_mult_imp_div_less mult.commute)

lemma new_full_sel [simp]:
  "gb_len (new_full n capacity) = n" "gb_data (new_full n capacity) = replicate (required_words capacity) (- 1)"
  by (simp_all add: new_full_def)

lemma new_full_ok: "n \<le> capacity \<Longrightarrow> level_ok (new_full n capacity)"
  using required_words_le [of n "required_words capacity"] required_words_mono [of n capacity]
  by (auto simp: level_ok_def new_full_bit)

lemma new_full_unset: "n \<le> capacity \<Longrightarrow> gb_unset (new_full n capacity) = {}"
  using required_words_le [of n "required_words capacity"] required_words_mono [of n capacity]
  by (auto simp: gb_unset_def new_full_bit)

text \<open>A full level above a full one summarises it.\<close>

lemma full_summarises:
  assumes c: "level_ok c" "gb_unset c = {}" and p: "level_ok p" "gb_unset p = {}"
    and len: "gb_len p = required_words (gb_len c)"
  shows "summarises p c"
proof -
  have "gb_data c ! w = - 1" if w: "w < gb_len p" for w
    unfolding word_full_iff
  proof (intro allI impI)
    fix i :: nat
    assume i: "i < 64"
    have "w < length (gb_data c)"
      using w c(1) len by (simp add: level_ok_def required_words_le)
    then have "bit_at c (64 * w + i)" using beyond_len_set [OF c(1), of "64 * w + i"] c(2) i by fastforce
    then show "bit (gb_data c ! w) i" using i by (simp add: bit_at_def)
  qed
  moreover have "bit_at p w" if "w < gb_len p" for w using p(2) that by (auto simp: gb_unset_def)
  ultimately show ?thesis using len by (simp add: summarises_def)
qed

text \<open>The largest length a tree of \<open>h\<close> levels above the leaf can be resized to.\<close>

definition supports :: "nat \<Rightarrow> nat \<Rightarrow> bool" where
  "supports h n \<longleftrightarrow> (required_words ^^ h) n \<le> 64"

lemma supports_mono: "supports h n \<Longrightarrow> m \<le> n \<Longrightarrow> supports h m"
proof -
  have "(required_words ^^ h) m \<le> (required_words ^^ h) n" if "m \<le> n" for m n
    using that by (induction h) (simp_all add: required_words_mono)
  then show "supports h n \<Longrightarrow> m \<le> n \<Longrightarrow> supports h m"
    by (auto simp: supports_def intro: order_trans)
qed

lemma supports_Suc: "supports (Suc h) n \<longleftrightarrow> supports h (required_words n)"
  by (simp add: supports_def funpow_swap1)

lemma new_levels_nonempty [simp]: "new_levels n capacity \<noteq> []"
  by (simp add: new_levels.simps)

lemma new_levels_ok:
  "n \<le> capacity \<Longrightarrow> levels_ok (new_levels n capacity) \<and> hd (new_levels n capacity) = new_full n capacity
     \<and> length (new_levels n capacity) \<le> max 1 capacity \<and> supports (length (new_levels n capacity) - 1) capacity"
proof (induction n capacity rule: new_levels.induct)
  case (1 n capacity)
  show ?case
  proof (cases "capacity \<le> 64")
    case True
    then show ?thesis
      using 1(2) new_full_ok [OF 1(2)] by (simp add: new_levels.simps supports_def)
  next
    case False
    let ?up = "new_levels (required_words n) (required_words capacity)"
    have le: "required_words n \<le> required_words capacity" using 1(2) by (rule required_words_mono)
    have IH: "levels_ok ?up" "hd ?up = new_full (required_words n) (required_words capacity)"
      "length ?up \<le> max 1 (required_words capacity)" "supports (length ?up - 1) (required_words capacity)"
      using 1(1) [OF False] le by (simp_all add: required_words_div_ceil)
    obtain p ps where up: "?up = p # ps" by (cases ?up) auto
    have eq: "new_levels n capacity = new_full n capacity # ?up"
      using False by (simp add: new_levels.simps [of n capacity] required_words_div_ceil)
    have "summarises p (new_full n capacity)"
      using IH(2) up new_full_ok new_full_unset 1(2) le by (intro full_summarises) auto
    moreover have "Suc (max 1 (required_words capacity)) \<le> max 1 capacity"
      using False by (simp add: required_words_def div_ceil_def)
    ultimately show ?thesis
      using IH up 1(2) new_full_ok [OF 1(2)] unfolding eq by (simp add: supports_Suc)
  qed
qed

lemma bm_new_ok:
  assumes "n \<le> capacity" and "capacity < 2 ^ 32"
  shows "bitmap_inv (bm_new n capacity)" and "size_of (bm_new n capacity) = n" and "unset (bm_new n capacity) = {}"
    and "supports (length (bm_new n capacity) - 1) capacity"
proof -
  note ok = new_levels_ok [OF assms(1)]
  have "last (rev (new_levels n capacity)) = new_full n capacity" using ok by (simp add: last_rev)
  then show "size_of (bm_new n capacity) = n" "unset (bm_new n capacity) = {}"
    using new_full_unset [OF assms(1)] by (simp_all add: size_of_def unset_def bm_new_def)
  show "bitmap_inv (bm_new n capacity)" "supports (length (bm_new n capacity) - 1) capacity"
    using ok assms(2) by (auto simp: bitmap_inv_def bm_new_def)
qed

text \<open>Resizing a level with \<open>full\<close>: the words stay, new ones are full.\<close>

definition extended :: "grouped_bitmap \<Rightarrow> nat \<Rightarrow> grouped_bitmap" where
  "extended g n = \<lparr>gb_len = n, gb_data = gb_data g @ replicate (required_words n - length (gb_data g)) (- 1)\<rparr>"

lemma extended_sel [simp]:
  "gb_len (extended g n) = n" "length (gb_data (extended g n)) = max (length (gb_data g)) (required_words n)"
  by (simp_all add: extended_def)

lemma extended_word:
  "w < max (length (gb_data g)) (required_words n) \<Longrightarrow>
     gb_data (extended g n) ! w = (if w < length (gb_data g) then gb_data g ! w else - 1)"
  by (auto simp: extended_def nth_append)

lemma extended_bit:
  assumes "level_ok g" and "i < 64 * max (length (gb_data g)) (required_words n)"
  shows "bit_at (extended g n) i \<longleftrightarrow> (i < gb_len g \<longrightarrow> bit_at g i)"
proof -
  have w: "i div 64 < max (length (gb_data g)) (required_words n)"
    using assms(2) by (simp add: less_mult_imp_div_less mult.commute)
  show ?thesis
  proof (cases "i div 64 < length (gb_data g)")
    case True
    then have "i < 64 * length (gb_data g)" by arith
    then show ?thesis
      using assms(1) True unfolding bit_at_def [of "extended g n"] extended_word [OF w]
      by (auto simp: bit_at_def level_ok_def)
  next
    case False
    then show ?thesis
      using level_word [OF assms(1), of i] unfolding bit_at_def [of "extended g n"] extended_word [OF w] by auto
  qed
qed

lemma extended_ok:
  assumes "level_ok g" and "gb_unset g \<subseteq> {..<n}"
  shows "level_ok (extended g n)" and "gb_unset (extended g n) = gb_unset g"
proof -
  have fit: "n \<le> 64 * max (length (gb_data g)) (required_words n)" by (simp add: required_words_le)
  show "level_ok (extended g n)"
    using assms(2) fit by (auto simp: level_ok_def extended_bit [OF assms(1)] gb_unset_def)
  show "gb_unset (extended g n) = gb_unset g"
    using assms(2) fit by (auto simp: gb_unset_def extended_bit [OF assms(1)])
qed

lemma gb_set_idle: "level_ok g \<Longrightarrow> i < gb_len g \<Longrightarrow> bit_at g i \<Longrightarrow> \<exists>full. gb_set g i = Some (full, g)"
proof -
  assume g: "level_ok g" "i < gb_len g" "bit_at g i"
  have "gb_data g ! (i div 64) OR select_mask (i mod 64) = gb_data g ! (i div 64)"
    using g(3) by (intro bit_eqI) (auto simp: bit_set_word bit_at_def)
  then show ?thesis using g level_word [OF g(1,2)] by (simp add: gb_set_def data_index_of_def Let_def)
qed

lemma gb_fill_idle:
  "level_ok g \<Longrightarrow> (\<And>i. i \<in> set is \<Longrightarrow> i < gb_len g \<and> bit_at g i) \<Longrightarrow> gb_fill True is g = Some g"
proof (induction "is")
  case (Cons i "is")
  then obtain full where "gb_set g i = Some (full, g)" using gb_set_idle by fastforce
  with Cons show ?case by simp
qed simp

lemma gb_resize_full:
  assumes "level_ok g" and "gb_unset g \<subseteq> {..<n}"
  shows "gb_resize g n True = Some (extended g n)"
proof -
  have eq: "gb_resize g n True =
      (if gb_len g < n then gb_fill True [gb_len g..<n] (extended g n) else Some (extended g n))"
    by (simp add: gb_resize_def extended_def Let_def)
  have "n \<le> 64 * max (length (gb_data g)) (required_words n)" by (simp add: required_words_le)
  then have "gb_fill True [gb_len g..<n] (extended g n) = Some (extended g n)"
    by (intro gb_fill_idle extended_ok assms) (auto simp: extended_bit [OF assms(1)])
  with eq show ?thesis by simp
qed

lemma extended_summarises:
  assumes s: "summarises p c" and c: "level_ok c" and p: "level_ok p"
  shows "summarises (extended p (required_words n)) (extended c n)"
proof -
  have "bit_at (extended p (required_words n)) w \<longleftrightarrow> gb_data (extended c n) ! w = - 1" if w: "w < required_words n" for w
  proof -
    have ewp: "w < 64 * max (length (gb_data p)) (required_words (required_words n))"
      using w by (simp add: less_le_trans required_words_le)
    have ewc: "w < max (length (gb_data c)) (required_words n)" using w by simp
    show ?thesis
    proof (cases "w < gb_len p")
      case True
      then have "w < length (gb_data c)" using s c by (auto simp: summarises_def level_ok_def required_words_le)
      with True s show ?thesis
        unfolding extended_bit [OF p ewp] extended_word [OF ewc] by (auto simp: summarises_def)
    next
      case False
      then have "gb_len c \<le> 64 * w" using s by (simp add: summarises_def required_words_le)
      then have "bit_at c (64 * w + i)" if "w < length (gb_data c)" "i < 64" for i
        using c that by (auto simp: level_ok_def)
      then have "gb_data c ! w = - 1" if "w < length (gb_data c)"
        using that by (auto simp: word_full_iff bit_at_def)
      with False show ?thesis unfolding extended_bit [OF p ewp] extended_word [OF ewc] by auto
    qed
  qed
  then show ?thesis by (simp add: summarises_def)
qed

lemma resize_levels_ok:
  "levels_ok (c # ps) \<Longrightarrow> gb_unset c \<subseteq> {..<n} \<Longrightarrow> supports (length ps) n \<Longrightarrow>
     \<exists>ps'. resize_levels (c # ps) n True = Some (extended c n # ps') \<and> levels_ok (extended c n # ps') \<and> length ps' = length ps"
proof (induction ps arbitrary: c n)
  case Nil
  then show ?case by (simp add: gb_resize_full extended_ok supports_def)
next
  case (Cons p ps)
  then have c: "level_ok c" and s: "summarises p c" and p: "levels_ok (p # ps)" by auto
  note pok = levels_ok_Cons [OF p]
  have up: "gb_unset p \<subseteq> {..<required_words n}"
  proof
    fix w
    assume "w \<in> gb_unset p"
    then have w: "64 * w < gb_len c" "gb_data c ! w \<noteq> - 1" using summary_unset(1) [OF s c] by auto
    have "w * 64 + trailing_ones (gb_data c ! w) < n" using group_first_unset(1) [OF c w] Cons.prems(2) by blast
    then show "w \<in> {..<required_words n}" by (simp add: required_words_less)
  qed
  have "supports (length ps) (required_words n)" using Cons.prems(3) by (simp add: supports_Suc)
  then obtain ps' where "resize_levels (p # ps) (required_words n) True = Some (extended p (required_words n) # ps')"
    "levels_ok (extended p (required_words n) # ps')" "length ps' = length ps" using Cons.IH [OF p up] by blast
  then show ?case
    using c Cons.prems(2) extended_summarises [OF s c pok]
    by (simp add: gb_resize_full extended_ok required_words_div_ceil)
qed

lemma root_len: "levels_ok ls \<Longrightarrow> gb_len (last ls) \<le> 64"
  by (induction ls rule: levels_ok.induct) auto

lemma bm_resize_ok:
  assumes b: "bitmap_inv b" and u: "unset b \<subseteq> {..<n}" and sup: "supports (length b - 1) n"
  shows "\<exists>b'. bm_resize b n True = Some b' \<and> bitmap_inv b' \<and> size_of b' = n \<and> unset b' = unset b \<and> length b' = length b"
proof -
  have ne: "b \<noteq> []" using b by (rule bitmap_inv_nonempty)
  obtain ps where ps: "resize_levels (rev b) n True = Some (extended (last b) n # ps)"
    "levels_ok (extended (last b) n # ps)" "length ps = length b - 1"
    using resize_levels_ok [OF bitmap_inv_split [OF b]] u sup
    by (auto simp: split_last [OF ne, symmetric] unset_def)
  let ?b = "rev (extended (last b) n # ps)"
  have len: "length ?b = length b" using ps(3) ne by (simp add: Suc_diff_Suc)
  have inv: "bitmap_inv ?b" using ps(2) len b by (simp add: bitmap_inv_def)
  have "get_level ?b 0 = Some (hd ?b)"
    using len b ne by (simp add: get_level_def get_height_def try_into_u32_def bitmap_inv_def hd_conv_nth del: rev.simps)
  moreover have "gb_len (hd ?b) \<le> 64" using root_len [OF ps(2)] by (simp only: hd_rev)
  ultimately have "bm_resize b n True = Some ?b" using ps(1) by (simp add: bm_resize_def del: rev.simps)
  then show ?thesis
    using inv len extended_ok(2) [OF last_level_ok [OF b]] u by (auto simp: size_of_def unset_def)
qed

lemma pad_root_ok:
  assumes "bitmap_inv b" and "unset b = {}" and "length b + n < 2 ^ 32"
  shows "\<exists>b'. pad_root n b = Some b' \<and> bitmap_inv b' \<and> unset b' = {} \<and> size_of b' = size_of b \<and> length b' = length b + n"
proof -
  have all_full: "gb_unset (hd b) = {}" if "levels_ok (rev b)" "gb_unset (last b) = {}" for b
  proof -
    have "levels_ok ls \<Longrightarrow> gb_unset (hd ls) = {} \<Longrightarrow> gb_unset (last ls) = {}" for ls
    proof (induction ls rule: levels_ok.induct)
      case (3 c p ps)
      have "gb_unset p = {}"
      proof (rule ccontr)
        assume "gb_unset p \<noteq> {}"
        then obtain w where "64 * w < gb_len c" "gb_data c ! w \<noteq> - 1"
          using summary_unset(1) [of p c] 3(2) by auto
        then show False using group_first_unset(1) [of c w] 3(2,3) by auto
      qed
      then show ?case using 3 by auto
    qed auto
    from this [of "rev b"] show ?thesis using that by (cases "b = []") (auto simp: hd_rev last_rev)
  qed
  have pad: "levels_ok (ls @ [new_full (required_words (gb_len (last ls))) (required_words (gb_len (last ls)))])"
    if "levels_ok ls" "gb_unset (last ls) = {}" for ls
    using that
  proof (induction ls rule: levels_ok.induct)
    case (2 root)
    moreover have "required_words (gb_len root) \<le> 64"
      using 2 by (simp add: required_words_le [symmetric])
    ultimately show ?case by (simp add: full_summarises new_full_ok new_full_unset)
  qed auto
  show ?thesis
    using assms
  proof (induction n arbitrary: b)
    case (Suc n)
    note ne = bitmap_inv_nonempty [OF Suc.prems(1)]
    let ?k = "required_words (gb_len (hd b))" let ?b = "new_full ?k ?k # b"
    have "gb_unset (hd b) = {}" using all_full Suc.prems by (simp add: bitmap_inv_def unset_def)
    then have "bitmap_inv ?b"
      using pad [of "rev b"] Suc.prems ne by (simp add: bitmap_inv_def last_rev)
    moreover have "unset ?b = unset b" "size_of ?b = size_of b" using ne by (simp_all add: unset_def size_of_def)
    ultimately obtain b' where "pad_root n ?b = Some b'" "bitmap_inv b'" "unset b' = {}" "size_of b' = size_of b"
      "length b' = length ?b + n" using Suc.IH [of ?b] Suc.prems by auto
    then show ?case using ne by (simp add: hd_conv_nth required_words_div_ceil Let_def)
  qed simp
qed

lemma height_bound: "height_for_capacity n \<le> max 1 n"
proof (induction n rule: height_for_capacity.induct)
  case (1 n)
  then show ?case
    by (cases "64 < n") (auto simp: height_for_capacity.simps [of n] div_ceil_def)
qed

lemma new_padded_ok:
  assumes "n \<le> capacity" and "capacity < 2 ^ 32" and "max_capacity < 2 ^ 32"
  shows "\<exists>b. new_padded n capacity max_capacity = Some b \<and> bitmap_inv b \<and> size_of b = n \<and> unset b = {}
    \<and> height_for_capacity max_capacity \<le> length b"
proof -
  let ?b = "bm_new n capacity" and ?h = "height_for_capacity max_capacity"
  note ok = bm_new_ok [OF assms(1,2)]
  have "length ?b < 2 ^ 32" using ok(1) by (simp add: bitmap_inv_def)
  moreover have "?h < 2 ^ 32" using height_bound [of max_capacity] assms(3) by (simp add: max_def split: if_splits)
  ultimately have "length ?b + (?h - length ?b) < 2 ^ 32" by linarith
  from pad_root_ok [OF ok(1,3) this] show ?thesis
    using ok(2) by (auto simp: new_padded_def Let_def)
qed

section \<open>The interface to the allocators\<close>

text \<open>What an allocator needs of a bitmap: it stands for a set of free ids below its length, answers membership,
  adds and removes an id, and finds the least one. \<open>alloc\<close> combines the last two.\<close>

definition take_least :: "('b \<Rightarrow> nat option option) \<Rightarrow> ('b \<Rightarrow> nat \<Rightarrow> 'b option) \<Rightarrow> 'b \<Rightarrow> (nat option \<times> 'b) option" where
  "take_least least take_id b = do {
     r \<leftarrow> least b;
     case r of None \<Rightarrow> Some (None, b)
     | Some i \<Rightarrow> do { b' \<leftarrow> take_id b i; Some (Some i, b') } }"

locale free_set =
  fixes inv :: "'b \<Rightarrow> bool"
    and ids :: "'b \<Rightarrow> nat set"
    and bound :: "'b \<Rightarrow> nat"
    and taken :: "'b \<Rightarrow> nat \<Rightarrow> bool option"
    and take_id :: "'b \<Rightarrow> nat \<Rightarrow> 'b option"
    and give_id :: "'b \<Rightarrow> nat \<Rightarrow> 'b option"
    and least_id :: "'b \<Rightarrow> nat option option"
  assumes taken_law: "inv b \<Longrightarrow> i < bound b \<Longrightarrow> taken b i = Some (i \<notin> ids b)"
    and take_law: "inv b \<Longrightarrow> i < bound b \<Longrightarrow>
      \<exists>b'. take_id b i = Some b' \<and> inv b' \<and> bound b' = bound b \<and> ids b' = ids b - {i}"
    and give_law: "inv b \<Longrightarrow> i < bound b \<Longrightarrow>
      \<exists>b'. give_id b i = Some b' \<and> inv b' \<and> bound b' = bound b \<and> ids b' = insert i (ids b)"
    and least_law: "inv b \<Longrightarrow> least_id b = Some (first_of (ids b))"
    and ids_bound: "i \<in> ids b \<Longrightarrow> i < bound b"
begin

lemma finite_ids: "finite (ids b)"
  by (rule finite_subset [of _ "{..<bound b}"]) (auto dest: ids_bound)

lemma take_least_empty: "inv b \<Longrightarrow> ids b = {} \<Longrightarrow> take_least least_id take_id b = Some (None, b)"
  by (simp add: take_least_def least_law first_of_def)

lemma take_least_some:
  assumes "inv b" and "ids b \<noteq> {}"
  shows "\<exists>b'. take_least least_id take_id b = Some (Some (Min (ids b)), b') \<and> inv b' \<and> bound b' = bound b
    \<and> ids b' = ids b - {Min (ids b)}"
proof -
  have "Min (ids b) < bound b" using assms finite_ids ids_bound by simp
  from take_law [OF assms(1) this] obtain b' where
    "take_id b (Min (ids b)) = Some b'" "inv b'" "bound b' = bound b" "ids b' = ids b - {Min (ids b)}" by blast
  then show ?thesis using assms by (simp add: take_least_def least_law first_of_def)
qed

text \<open>Giving an id back undoes taking it.\<close>

lemma give_taken:
  assumes "inv b" and "i \<in> ids b"
  shows "\<exists>b' b''. take_id b i = Some b' \<and> give_id b' i = Some b'' \<and> inv b'' \<and> ids b'' = ids b"
  using take_law [OF assms(1) ids_bound [OF assms(2)]] give_law assms
  by (metis insert_Diff ids_bound)

end

interpretation bitmap: free_set bitmap_inv unset size_of bm_get bm_set bm_clear find_first_unset
  by unfold_locales (blast intro: bm_get_ok bm_set_ok bm_clear_ok find_first_unset_ok unset_bound)+

lemma bm_alloc_take_least: "bm_alloc b = take_least find_first_unset bm_set b"
  by (simp add: bm_alloc_def take_least_def)

lemmas bm_alloc_empty = bitmap.take_least_empty [folded bm_alloc_take_least]
lemmas bm_alloc_some = bitmap.take_least_some [folded bm_alloc_take_least]

section \<open>Runs of operations\<close>

datatype bitmap_op = Op_Set nat | Op_Clear nat | Op_Alloc | Op_Get nat | Op_Count | Op_Resize nat

datatype answer = Done | Id "nat option" | Flag bool | Count nat

fun bitmap_step :: "bitmap_op \<Rightarrow> btree_bitmap \<Rightarrow> (answer \<times> btree_bitmap) option" where
  "bitmap_step (Op_Set i) b = map_option (Pair Done) (bm_set b i)"
| "bitmap_step (Op_Clear i) b = map_option (Pair Done) (bm_clear b i)"
| "bitmap_step Op_Alloc b = map_option (map_prod Id id) (bm_alloc b)"
| "bitmap_step (Op_Get i) b = map_option (\<lambda>f. (Flag f, b)) (bm_get b i)"
| "bitmap_step Op_Count b = map_option (\<lambda>n. (Count n, b)) (count_unset b)"
| "bitmap_step (Op_Resize n) b = map_option (Pair Done) (bm_resize b n True)"

text \<open>The specification: a set of free ids below a length; \<open>None\<close> where the caller breaks the contract.\<close>

fun free_step :: "nat \<Rightarrow> bitmap_op \<Rightarrow> nat set \<times> nat \<Rightarrow> (answer \<times> nat set \<times> nat) option" where
  "free_step cap (Op_Set i) (S, n) = (if i < n then Some (Done, S - {i}, n) else None)"
| "free_step cap (Op_Clear i) (S, n) = (if i < n then Some (Done, insert i S, n) else None)"
| "free_step cap Op_Alloc (S, n) =
     Some (if S = {} then (Id None, S, n) else (Id (Some (Min S)), S - {Min S}, n))"
| "free_step cap (Op_Get i) (S, n) = (if i < n then Some (Flag (i \<notin> S), S, n) else None)"
| "free_step cap Op_Count (S, n) = Some (Count (card S), S, n)"
| "free_step cap (Op_Resize m) (S, n) = (if m \<le> cap \<and> S \<subseteq> {..<m} then Some (Done, S, m) else None)"

fun run_ops :: "('op \<Rightarrow> 's \<Rightarrow> ('a \<times> 's) option) \<Rightarrow> 'op list \<Rightarrow> 's \<Rightarrow> ('a list \<times> 's) option" where
  "run_ops step [] s = Some ([], s)"
| "run_ops step (x # xs) s = do {
     (a, s1) \<leftarrow> step x s;
     (as, s2) \<leftarrow> run_ops step xs s1;
     Some (a # as, s2) }"

definition stands_for :: "nat \<Rightarrow> btree_bitmap \<Rightarrow> nat set \<times> nat \<Rightarrow> bool" where
  "stands_for cap b = (\<lambda>(S, n). bitmap_inv b \<and> unset b = S \<and> size_of b = n \<and> supports (length b - 1) cap)"

lemma bm_set_length: "bm_set b i = Some b' \<Longrightarrow> length b' = length b"
  and bm_clear_length: "bm_clear b i = Some b' \<Longrightarrow> length b' = length b"
proof -
  have up: "update_to_root ps e f = Some ps' \<Longrightarrow> length ps' = length ps" for ps e f ps'
    by (induction ps arbitrary: e f ps') (auto simp: bind_eq_Some_conv)
  have "leaf_level b = Some l \<Longrightarrow> b \<noteq> []" for l
    by (auto simp: leaf_level_def get_level_def get_height_def try_into_u32_def index_at_def split: if_splits)
  then show "bm_set b i = Some b' \<Longrightarrow> length b' = length b" "bm_clear b i = Some b' \<Longrightarrow> length b' = length b"
    by (auto simp: bm_set_def bm_clear_def bind_eq_Some_conv dest!: up)
qed

lemma bm_alloc_length: "bm_alloc b = Some (r, b') \<Longrightarrow> length b' = length b"
  by (auto simp: bm_alloc_def bind_eq_Some_conv split: option.splits dest: bm_set_length)

lemma bitmap_step_simulates:
  assumes "stands_for cap b S" and "free_step cap x S = Some (a, S')"
  shows "\<exists>b'. bitmap_step x b = Some (a, b') \<and> stands_for cap b' S'"
proof -
  have b: "bitmap_inv b" and S: "S = (unset b, size_of b)" and sup: "supports (length b - 1) cap"
    using assms(1) by (auto simp: stands_for_def)
  show ?thesis
  proof (cases x)
    case (Op_Set i)
    then show ?thesis
      using assms(2) bm_set_ok [OF b, of i] bm_set_length [of b i] sup by (auto simp: S stands_for_def split: if_splits)
  next
    case (Op_Clear i)
    then show ?thesis
      using assms(2) bm_clear_ok [OF b, of i] bm_clear_length [of b i] sup
      by (auto simp: S stands_for_def split: if_splits)
  next
    case Op_Alloc
    then show ?thesis
      using assms(2) bm_alloc_empty [OF b] bm_alloc_some [OF b] bm_alloc_length [of b] sup b
      by (cases "unset b = {}") (auto simp: S stands_for_def)
  next
    case (Op_Get i)
    then show ?thesis using assms(2) bm_get_ok [OF b] b sup by (auto simp: S stands_for_def split: if_splits)
  next
    case Op_Count
    then show ?thesis using assms(2) count_unset_ok [OF b] b sup by (auto simp: S stands_for_def)
  next
    case (Op_Resize n)
    then show ?thesis
      using assms(2) bm_resize_ok [OF b, of n] supports_mono [OF sup, of n] sup
      by (auto simp: S stands_for_def split: if_splits)
  qed
qed

lemma bitmap_run_simulates:
  "stands_for cap b S \<Longrightarrow> run_ops (free_step cap) ops S = Some (as, S') \<Longrightarrow>
     \<exists>b'. run_ops bitmap_step ops b = Some (as, b') \<and> stands_for cap b' S'"
proof (induction ops arbitrary: b S as)
  case (Cons x ops)
  then obtain a S1 as1 where "free_step cap x S = Some (a, S1)" "run_ops (free_step cap) ops S1 = Some (as1, S')"
    and as: "as = a # as1" by (auto simp: bind_eq_Some_conv)
  moreover from bitmap_step_simulates [OF Cons.prems(1) this(1)] obtain b1 where
    "bitmap_step x b = Some (a, b1)" "stands_for cap b1 S1" by blast
  moreover from Cons.IH [OF this(2) calculation(2)] obtain b2 where
    "run_ops bitmap_step ops b1 = Some (as1, b2)" "stands_for cap b2 S'" by blast
  ultimately show ?case by simp
qed simp

text \<open>(C9) The bit tree refines a set of free ids: any sequence of \<open>set\<close>, \<open>clear\<close>, \<open>alloc\<close>, \<open>get\<close>, \<open>count_unset\<close> and
  \<open>resize\<close> that keeps to the contract (ids below the length, lengths within the capacity, no free id cut off)
  runs on a new tree of fewer than \<open>2^31\<close> ids without a panic and gives the same answers as on the set; in particular \<open>alloc\<close> takes the
  least free id, and fails only when none is free.\<close>

theorem bitmap_refines_set:
  assumes "n \<le> capacity" and "capacity < 2 ^ 31"
    and "run_ops (free_step capacity) ops ({}, n) = Some (answers, S, m)"
  shows "\<exists>b. run_ops bitmap_step ops (bm_new n capacity) = Some (answers, b)
    \<and> unset b = S \<and> size_of b = m \<and> find_first_unset b = Some (if S = {} then None else Some (Min S))"
proof -
  have "stands_for capacity (bm_new n capacity) ({}, n)"
    using bm_new_ok [OF assms(1)] assms(2) by (simp add: stands_for_def)
  from bitmap_run_simulates [OF this assms(3)] obtain b where
    "run_ops bitmap_step ops (bm_new n capacity) = Some (answers, b)" and b: "stands_for capacity b (S, m)" by blast
  then show ?thesis by (auto simp: stands_for_def find_first_unset_ok first_of_def)
qed

theorem bitmap_refines_set_witness:
  "\<exists>b. run_ops bitmap_step [Op_Clear 70, Op_Clear 3, Op_Alloc, Op_Resize 100, Op_Count, Op_Alloc] (bm_new 90 5000)
      = Some ([Done, Done, Id (Some 3), Done, Count 1, Id (Some 70)], b)
    \<and> unset b = {} \<and> size_of b = 100 \<and> find_first_unset b = Some (if {} = ({} :: nat set) then None else Some (Min {}))"
proof -
  have "insert 3 {70 :: nat} - {Min (insert 3 {70})} = {70}" by auto
  then show ?thesis by (intro bitmap_refines_set) (simp_all add: Let_def)
qed

end
