(* ===== verification/Bitmap_Bytes.thy ===== *)
theory Bitmap_Bytes
  imports Bitmap_Spec
begin

text \<open>
  The serialised form of the bit tree (\<open>to_vec\<close> and \<open>from_bytes\<close> of \<open>bitmap.rs\<close>): reading back what was written gives
  a tree with the same free ids, whose spare words beyond the length are dropped.
\<close>

section \<open>Little-endian integers and slices\<close>

lemma length_to_le_bytes [simp]: "length (to_le_bytes k n) = k"
  by (induction k n rule: to_le_bytes.induct) simp_all

lemma from_to_le_bytes [simp]: "n < 256 ^ k \<Longrightarrow> from_le_bytes (to_le_bytes k n) = n"
proof (induction k n rule: to_le_bytes.induct)
  case (2 k n)
  then have "n div 256 < 256 ^ k" by (simp add: less_mult_imp_div_less mult.commute)
  moreover have "unat (of_nat (n mod 256) :: u8) = n mod 256" by (simp add: unat_of_nat)
  ultimately show ?case using 2 by simp
qed simp

lemma from_to_le_bytes_u32: "try_into_u32 n = Some m \<Longrightarrow> m = n \<and> from_le_bytes (to_le_bytes 4 n) = n"
  by (auto simp: try_into_u32_def split: if_splits)

lemma from_to_le_bytes_u64 [simp]: "of_nat (from_le_bytes (to_le_bytes 8 (unat w))) = (w :: u64)"
  using unat_u64_bound [of w] by simp

text \<open>A buffer that is a concatenation of chunks can be cut at the chunk boundaries.\<close>

definition chunk_start :: "'a list list \<Rightarrow> nat \<Rightarrow> nat" where
  "chunk_start xss k = sum_list (map length (take k xss))"

lemma chunk_start_Suc: "k < length xss \<Longrightarrow> chunk_start xss (Suc k) = chunk_start xss k + length (xss ! k)"
  by (simp add: chunk_start_def take_Suc_conv_app_nth)

lemma slice_chunk: "k < length xss \<Longrightarrow> slice (concat xss) (chunk_start xss k) (chunk_start xss (Suc k)) = Some (xss ! k)"
proof -
  assume k: "k < length xss"
  have "concat xss = concat (take k xss) @ xss ! k @ concat (drop (Suc k) xss)"
    by (metis concat.simps(2) concat_append id_take_nth_drop k)
  moreover have "chunk_start xss k = length (concat (take k xss))" by (simp add: chunk_start_def length_concat)
  ultimately show ?thesis by (simp add: slice_def chunk_start_Suc [OF k])
qed

lemma chunk_start_fixed: "(\<And>xs. xs \<in> set xss \<Longrightarrow> length xs = n) \<Longrightarrow> k \<le> length xss \<Longrightarrow> chunk_start xss k = k * n"
proof (induction k)
  case (Suc k)
  then show ?case using chunk_start_Suc [of k xss] by simp
qed (simp add: chunk_start_def)

lemma chunk_start_append:
  "chunk_start (xss @ yss) (length xss + k) = length (concat xss) + chunk_start yss k"
  "k \<le> length xss \<Longrightarrow> chunk_start (xss @ yss) k = chunk_start xss k"
  by (simp_all add: chunk_start_def length_concat)

section \<open>One level\<close>

definition trimmed :: "grouped_bitmap \<Rightarrow> grouped_bitmap" where
  "trimmed g = g\<lparr>gb_data := take (required_words (gb_len g)) (gb_data g)\<rparr>"

lemma gb_words_concat: "gb_words (length ws) (concat (map (\<lambda>x. to_le_bytes 8 (unat x)) ws)) = ws"
  by (induction ws) simp_all

lemma gb_bytes_roundtrip:
  assumes "gb_to_vec g = Some v" and "gb_len g < 2 ^ 32"
  shows "gb_from_bytes v = Some (trimmed g)"
proof -
  define ws where "ws = take (required_words (gb_len g)) (gb_data g)"
  have v: "v = to_le_bytes 4 (gb_len g) @ concat (map (\<lambda>x. to_le_bytes 8 (unat x)) ws)"
    using assms(1) by (auto simp: gb_to_vec_def slice_def ws_def split: if_splits)
  have len: "length (concat (map (\<lambda>x. to_le_bytes 8 (unat x)) ws)) = 8 * length ws"
    by (induction ws) simp_all
  have "gb_words (length ws) (concat (map (\<lambda>x. to_le_bytes 8 (unat x)) ws)) = ws" by (rule gb_words_concat)
  then show ?thesis using assms(2) by (simp add: gb_from_bytes_def v len trimmed_def ws_def [symmetric])
qed

lemma trimmed_sel [simp]: "gb_len (trimmed g) = gb_len g"
  by (simp add: trimmed_def)

lemma trimmed_word: "w < required_words (gb_len g) \<Longrightarrow> gb_data (trimmed g) ! w = gb_data g ! w"
  by (simp add: trimmed_def)

lemma trimmed_bit: "i < 64 * required_words (gb_len g) \<Longrightarrow> bit_at (trimmed g) i = bit_at g i"
  by (simp add: bit_at_def trimmed_word less_mult_imp_div_less mult.commute)

lemma trimmed_ok:
  assumes "level_ok g"
  shows "level_ok (trimmed g)" and "gb_unset (trimmed g) = gb_unset g"
proof -
  have fit: "required_words (gb_len g) \<le> length (gb_data g)"
    using assms by (simp add: level_ok_def required_words_le)
  then have len: "length (gb_data (trimmed g)) = required_words (gb_len g)" by (simp add: trimmed_def)
  have self: "gb_len g \<le> 64 * required_words (gb_len g)" by (simp add: required_words_le)
  show "level_ok (trimmed g)"
    using assms fit self by (auto simp: level_ok_def len trimmed_bit)
  show "gb_unset (trimmed g) = gb_unset g" using self by (auto simp: gb_unset_def trimmed_bit)
qed

lemma trimmed_summarises:
  assumes "summarises p c"
  shows "summarises (trimmed p) (trimmed c)"
proof -
  have "w < 64 * required_words (gb_len p)" if "w < gb_len p" for w
    using that required_words_le [of "gb_len p" "required_words (gb_len p)"] by simp
  then show ?thesis using assms by (auto simp: summarises_def trimmed_bit trimmed_word)
qed

lemma trimmed_levels: "levels_ok ls \<Longrightarrow> levels_ok (map trimmed ls)"
  by (induction ls rule: levels_ok.induct) (auto simp: trimmed_ok trimmed_summarises)

lemma trimmed_inv:
  assumes "bitmap_inv b"
  shows "bitmap_inv (map trimmed b)" and "unset (map trimmed b) = unset b" and "size_of (map trimmed b) = size_of b"
  using assms trimmed_levels [of "rev b"] trimmed_ok(2) [OF last_level_ok [OF assms]] bitmap_inv_nonempty [OF assms]
  by (simp_all add: bitmap_inv_def rev_map unset_def size_of_def last_map)

section \<open>Chunks with end offsets\<close>

text \<open>Trees and allocators share a layout: a header, one four-byte end offset per chunk, the chunks.\<close>

lemma those_nth: "those xs = Some ys \<Longrightarrow> length ys = length xs \<and> (\<forall>k < length xs. xs ! k = Some (ys ! k))"
proof (induction xs arbitrary: ys)
  case (Cons x xs)
  then obtain y zs where "x = Some y" "those xs = Some zs" "ys = y # zs" by (auto split: option.splits)
  then show ?case using Cons.IH by (auto simp: nth_Cons split: nat.split)
qed simp

lemma those_map_Some: "(\<And>x. x \<in> set xs \<Longrightarrow> f x = Some (g x)) \<Longrightarrow> those (map f xs) = Some (map g xs)"
  by (induction xs) auto

definition assemble :: "bytes \<Rightarrow> bytes list \<Rightarrow> bytes option" where
  "assemble h vecs = do {
     ends \<leftarrow> those (map (\<lambda>k. try_into_u32 (length h + 4 * length vecs + chunk_start vecs (Suc k))) [0..<length vecs]);
     Some (concat (h # map (to_le_bytes 4) ends @ vecs)) }"

lemma chunk_start_le: "k \<le> length vecs \<Longrightarrow> chunk_start vecs k \<le> length (concat vecs)"
  by (metis append_take_drop_id concat_append length_append le_add1 chunk_start_def length_concat)

lemma length_fixed: "(\<And>x. x \<in> set xs \<Longrightarrow> length (f x) = n) \<Longrightarrow> length (concat (map f xs)) = n * length xs"
  by (induction xs) auto

lemma assemble_fits:
  assumes "length h + 4 * length vecs + length (concat vecs) < 2 ^ 32"
  shows "\<exists>v. assemble h vecs = Some v \<and> length v = length h + 4 * length vecs + length (concat vecs)"
proof -
  let ?upto = "\<lambda>k. length h + 4 * length vecs + chunk_start vecs (Suc k)"
  have "try_into_u32 (?upto k) = Some (?upto k)" if "k \<in> set [0..<length vecs]" for k
    using that assms chunk_start_le [of "Suc k" vecs] by (simp add: try_into_u32_def)
  then have "those (map (\<lambda>k. try_into_u32 (?upto k)) [0..<length vecs]) = Some (map ?upto [0..<length vecs])"
    by (rule those_map_Some)
  then show ?thesis
    using length_fixed [of "map ?upto [0..<length vecs]" "to_le_bytes 4" 4] by (simp add: assemble_def)
qed

locale chunk_reader =
  fixes get :: "bytes \<Rightarrow> 'a option"
    and reader :: "nat \<Rightarrow> bytes \<Rightarrow> nat \<Rightarrow> nat \<Rightarrow> 'a list option"
  assumes reader_0: "reader 0 data m start = Some []"
    and reader_Suc: "reader (Suc n) data m start = do {
      field \<leftarrow> slice data m (m + 4);
      part \<leftarrow> slice data start (from_le_bytes field);
      x \<leftarrow> get part;
      xs \<leftarrow> reader n data (m + 4) (from_le_bytes field);
      Some (x # xs) }"
begin

lemma read_chunks:
  assumes len: "length vecs = length xs" "length ends = length xs"
    and gets: "\<And>k. k < length xs \<Longrightarrow> get (vecs ! k) = Some (xs ! k)"
    and ends: "\<And>k. k < length xs \<Longrightarrow> from_le_bytes (ends ! k) = length h + 4 * length xs + chunk_start vecs (Suc k)"
    and four: "\<And>e. e \<in> set ends \<Longrightarrow> length e = 4"
    and k: "k + n = length xs"
  shows "reader n (concat (h # ends @ vecs)) (length h + 4 * k) (length h + 4 * length xs + chunk_start vecs k) = Some (drop k xs)"
  using k
proof (induction n arbitrary: k)
  case 0
  then show ?case by (simp add: reader_0)
next
  case (Suc n)
  let ?xss = "(h # ends) @ vecs"
  have k: "k < length xs" using Suc.prems by simp
  have ends4: "chunk_start ends j = j * 4" if "j \<le> length xs" for j
    using that len four by (intro chunk_start_fixed) auto
  have head: "chunk_start (h # zs) (Suc j) = length h + chunk_start zs j" for zs :: "bytes list" and j
    by (simp add: chunk_start_def)
  have "chunk_start ?xss (Suc j) = length h + 4 * j" if "j \<le> length xs" for j
    using that len ends4 [OF that] chunk_start_append(2) [of j ends vecs] by (simp add: head)
  then have field: "slice (concat ?xss) (length h + 4 * k) (length h + 4 * k + 4) = Some (ends ! k)"
    using slice_chunk [of "Suc k" ?xss] k len by (simp add: nth_append add.assoc add.commute [of 4])
  have "length (concat ends) = 4 * length xs"
    using ends4 [of "length xs"] len by (simp add: chunk_start_def length_concat)
  then have start: "chunk_start ?xss (Suc (length xs) + j) = length h + 4 * length xs + chunk_start vecs j" for j
    using chunk_start_append(1) [of "h # ends" vecs j] len by simp
  have level: "slice (concat ?xss) (length h + 4 * length xs + chunk_start vecs k)
      (length h + 4 * length xs + chunk_start vecs (Suc k)) = Some (vecs ! k)"
    using slice_chunk [of "Suc (length xs) + k" ?xss] k len start [of k] start [of "Suc k"] by (simp add: nth_append)
  have "drop k xs = xs ! k # drop (Suc k) xs" using k by (simp add: Cons_nth_drop_Suc)
  moreover have "reader n (concat ?xss) (length h + 4 * k + 4) (length h + 4 * length xs + chunk_start vecs (Suc k))
      = Some (drop (Suc k) xs)"
    using Suc.IH [of "Suc k"] Suc.prems by (simp add: add.assoc add.commute [of 4])
  ultimately show ?case using field level ends [OF k] gets [OF k] by (simp add: reader_Suc)
qed

lemma read_assembled:
  assumes v: "assemble h vecs = Some v" and len: "length vecs = length xs"
    and gets: "\<And>k. k < length xs \<Longrightarrow> get (vecs ! k) = Some (xs ! k)"
  shows "reader (length xs) v (length h) (length h + 4 * length xs) = Some xs" and "take (length h) v = h" and "length h \<le> length v"
proof -
  obtain ends where ends: "those (map (\<lambda>k. try_into_u32 (length h + 4 * length vecs + chunk_start vecs (Suc k))) [0..<length vecs]) = Some ends"
    and veq: "v = concat (h # map (to_le_bytes 4) ends @ vecs)" using v by (auto simp: assemble_def bind_eq_Some_conv)
  note en = those_nth [OF ends]
  have "from_le_bytes (map (to_le_bytes 4) ends ! k) = length h + 4 * length xs + chunk_start vecs (Suc k)"
    if "k < length xs" for k
    using en that len from_to_le_bytes_u32 [of "length h + 4 * length vecs + chunk_start vecs (Suc k)" "ends ! k"] by auto
  then have "reader (length xs) v (length h + 4 * 0) (length h + 4 * length xs + chunk_start vecs 0) = Some (drop 0 xs)"
    unfolding veq using len en gets by (intro read_chunks) auto
  then show "reader (length xs) v (length h) (length h + 4 * length xs) = Some xs" by (simp add: chunk_start_def)
qed (use v in \<open>auto simp: assemble_def bind_eq_Some_conv\<close>)

end

interpretation levels: chunk_reader gb_from_bytes bm_read_levels
  by unfold_locales (simp_all add: Let_def)

section \<open>The tree\<close>

lemma bm_to_vec_assemble:
  "bm_to_vec b = do { h \<leftarrow> try_into_u32 (length b); vecs \<leftarrow> those (map gb_to_vec b); assemble (to_le_bytes 4 h) vecs }"
proof (cases "those (map gb_to_vec b)")
  case (Some vecs)
  then have "length vecs = length b" using those_nth by fastforce
  then show ?thesis
    using Some by (auto simp: bm_to_vec_def assemble_def Let_def chunk_start_def mult.commute length_fixed
        split: Option.bind_splits dest!: those_nth)
qed (simp add: bm_to_vec_def)

definition bm_bytes :: "btree_bitmap \<Rightarrow> nat" where
  "bm_bytes b = 4 + 4 * length b + (\<Sum>g \<leftarrow> b. 4 + 8 * required_words (gb_len g))"

lemma gb_to_vec_fits: "level_ok g \<Longrightarrow> \<exists>v. gb_to_vec g = Some v \<and> length v = 4 + 8 * required_words (gb_len g)"
  using length_fixed [of "take (required_words (gb_len g)) (gb_data g)" "\<lambda>x. to_le_bytes 8 (unat x)" 8]
  by (auto simp: gb_to_vec_def slice_def level_ok_def required_words_le)

lemma levels_ok_all: "levels_ok ls \<Longrightarrow> g \<in> set ls \<Longrightarrow> level_ok g"
  by (induction ls rule: levels_ok.induct) auto

lemma bm_to_vec_fits:
  assumes b: "bitmap_inv b" and small: "bm_bytes b < 2 ^ 32"
  shows "\<exists>v. bm_to_vec b = Some v \<and> length v = bm_bytes b"
proof -
  have "\<exists>v. gb_to_vec g = Some v \<and> length v = 4 + 8 * required_words (gb_len g)" if "g \<in> set b" for g
    using levels_ok_all [of "rev b" g] b that by (intro gb_to_vec_fits) (auto simp: bitmap_inv_def)
  then have each: "gb_to_vec g = Some (the (gb_to_vec g)) \<and> length (the (gb_to_vec g)) = 4 + 8 * required_words (gb_len g)"
    if "g \<in> set b" for g using that by fastforce
  let ?vecs = "map (\<lambda>g. the (gb_to_vec g)) b"
  have "those (map gb_to_vec b) = Some ?vecs" using each by (intro those_map_Some) blast
  moreover have "length (concat ?vecs) = (\<Sum>g \<leftarrow> b. 4 + 8 * required_words (gb_len g))"
    using each by (simp add: length_concat o_def cong: map_cong)
  ultimately show ?thesis
    using assemble_fits [of "to_le_bytes 4 (length b)" ?vecs] small b
    by (simp add: bm_to_vec_assemble bm_bytes_def try_into_u32_def bitmap_inv_def)
qed

lemma bm_bytes_roundtrip:
  assumes v: "bm_to_vec b = Some v" and small: "\<And>g. g \<in> set b \<Longrightarrow> gb_len g < 2 ^ 32"
  shows "bm_from_bytes v = Some (map trimmed b)"
proof -
  obtain vecs where h: "length b < 2 ^ 32" and vecs: "those (map gb_to_vec b) = Some vecs"
    and as: "assemble (to_le_bytes 4 (length b)) vecs = Some v"
    using v by (auto simp: bm_to_vec_assemble bind_eq_Some_conv try_into_u32_def split: if_splits)
  note vn = those_nth [OF vecs]
  have "gb_from_bytes (vecs ! k) = Some (map trimmed b ! k)" if "k < length (map trimmed b)" for k
    using vn that gb_bytes_roundtrip [of "b ! k" "vecs ! k"] small [of "b ! k"] by simp
  note rd = levels.read_assembled [OF as, of "map trimmed b", OF _ this]
  have "slice v 0 4 = Some (to_le_bytes 4 (length b))" using rd(2,3) vn by (simp add: slice_def)
  then show ?thesis using rd(1) vn h by (simp add: bm_from_bytes_def mult.commute Let_def)
qed

lemma level_lengths:
  assumes "levels_ok ls" and "g \<in> set ls"
  shows "gb_len g \<le> max 64 (gb_len (hd ls))"
  using assms
proof (induction ls rule: levels_ok.induct)
  case (3 c p ps)
  have "gb_len p \<le> gb_len c"
    using 3(2) by (auto simp: summarises_def required_words_def div_ceil_def)
  then show ?case using 3 by auto
qed auto

lemma bitmap_bytes_ok:
  assumes b: "bitmap_inv b" and v: "bm_to_vec b = Some v" and n: "size_of b < 2 ^ 32"
  shows "\<exists>b'. bm_from_bytes v = Some b' \<and> bitmap_inv b' \<and> unset b' = unset b \<and> size_of b' = size_of b \<and> length b' = length b"
proof -
  have "gb_len g < 2 ^ 32" if "g \<in> set b" for g
    using level_lengths [of "rev b" g] b that n by (auto simp: bitmap_inv_def hd_rev size_of_def)
  then show ?thesis
    using bm_bytes_roundtrip [OF v] trimmed_inv [OF b] by auto
qed

end
