(* ===== verification/Buddy.thy ===== *)
theory Buddy
  imports Bitmap_Bytes
begin

text \<open>
  The buddy allocator of the vendored redb store (\<open>patches/redb/src/tree_store/page_store/buddy_allocator.rs\<close>). A region of
  \<open>bd_len\<close> pages is divided into blocks: block \<open>p\<close> of order \<open>k\<close> covers the pages \<open>p * 2^k\<close> to \<open>(p + 1) * 2^k - 1\<close>. One bit
  tree per order holds the free blocks of that order as its unset ids; a free block is recorded at its largest
  order only.

  A panic is \<open>None\<close>, and the debug assertions of the source are panics too. Page numbers are \<open>u32\<close> in the source; in
  a region of fewer than \<open>2^31\<close> pages no operation leaves that range: the largest sums are an end of the region plus
  the size of one block of at most \<open>2^20\<close> pages.
\<close>

lemma block_step_up: "n - (m + 2 ^ k) < n - m" if "m + 2 ^ k \<le> n" for m n k :: nat
proof -
  have "0 < (2 :: nat) ^ k" by simp
  with that show ?thesis by linarith
qed

lemma block_step_down: "n - 2 ^ k < n" if "\<not> n < 2 ^ k" for n k :: nat
proof -
  have "0 < (2 :: nat) ^ k" by simp
  with that show ?thesis by linarith
qed

definition MAX_MAX_PAGE_ORDER :: nat where
  "MAX_MAX_PAGE_ORDER = 20"

definition leading_zeros :: "nat \<Rightarrow> nat" where
  "leading_zeros n = length (takeWhile (\<lambda>i. \<not> bit n i) (rev [0..<32]))"

definition trailing_zeros :: "nat \<Rightarrow> nat" where
  "trailing_zeros n = length (takeWhile (\<lambda>i. \<not> bit n i) [0..<32])"

definition calculate_usable_order :: "nat \<Rightarrow> nat option" where
  "calculate_usable_order pages = do {
     assert_that (leading_zeros pages < 32);
     Some (min MAX_MAX_PAGE_ORDER (32 - leading_zeros pages - 1)) }"

definition next_higher_order :: "nat \<Rightarrow> nat" where
  "next_higher_order page_number = page_number div 2"

definition buddy_page :: "nat \<Rightarrow> nat" where
  "buddy_page page_number = page_number XOR 1"

record buddy_allocator =
  bd_free :: "btree_bitmap list"
  bd_len :: nat
  bd_max_order :: nat

definition get_order_free :: "buddy_allocator \<Rightarrow> nat \<Rightarrow> btree_bitmap option" where
  "get_order_free a order = index_at (bd_free a) order"

text \<open>Storing through \<open>get_order_free_mut\<close>.\<close>

definition put_order_free :: "buddy_allocator \<Rightarrow> nat \<Rightarrow> btree_bitmap \<Rightarrow> buddy_allocator" where
  "put_order_free a order b = a\<lparr>bd_free := (bd_free a)[order := b]\<rparr>"

definition clear_at :: "buddy_allocator \<Rightarrow> nat \<Rightarrow> nat \<Rightarrow> buddy_allocator option" where
  "clear_at a order page = do {
     b \<leftarrow> get_order_free a order;
     b' \<leftarrow> bm_clear b page;
     Some (put_order_free a order b') }"

definition set_at :: "buddy_allocator \<Rightarrow> nat \<Rightarrow> nat \<Rightarrow> buddy_allocator option" where
  "set_at a order page = do {
     b \<leftarrow> get_order_free a order;
     b' \<leftarrow> bm_set b page;
     Some (put_order_free a order b') }"

definition get_at :: "buddy_allocator \<Rightarrow> nat \<Rightarrow> nat \<Rightarrow> bool option" where
  "get_at a order page = do { b \<leftarrow> get_order_free a order; bm_get b page }"

definition len_at :: "buddy_allocator \<Rightarrow> nat \<Rightarrow> nat option" where
  "len_at a order = do { b \<leftarrow> get_order_free a order; bm_len b }"

section \<open>Construction\<close>

fun new_orders :: "nat \<Rightarrow> nat \<Rightarrow> nat \<Rightarrow> btree_bitmap list" where
  "new_orders 0 pages capacity = []"
| "new_orders (Suc k) pages capacity =
     bm_new pages capacity # new_orders k (next_higher_order pages) (next_higher_order capacity)"

text \<open>The two nested loops that mark the available pages; the result has the accounted pages.\<close>

function mark_order :: "nat \<Rightarrow> nat \<Rightarrow> nat \<Rightarrow> buddy_allocator \<Rightarrow> (nat \<times> buddy_allocator) option" where
  "mark_order order num_pages accounted a =
     (if accounted + 2 ^ order \<le> num_pages then do {
        a' \<leftarrow> clear_at a order (accounted div 2 ^ order);
        mark_order order num_pages (accounted + 2 ^ order) a' }
      else Some (accounted, a))"
  by pat_completeness auto

termination
  by (relation "measure (\<lambda>(order, num_pages, accounted, a). num_pages - accounted)") (auto intro: block_step_up)

declare mark_order.simps [simp del]

fun mark_orders :: "nat list \<Rightarrow> nat \<Rightarrow> nat \<Rightarrow> buddy_allocator \<Rightarrow> (nat \<times> buddy_allocator) option" where
  "mark_orders [] num_pages accounted a = Some (accounted, a)"
| "mark_orders (order # orders) num_pages accounted a = do {
     (accounted', a') \<leftarrow> mark_order order num_pages accounted a;
     mark_orders orders num_pages accounted' a' }"

definition buddy_new :: "nat \<Rightarrow> nat \<Rightarrow> buddy_allocator option" where
  "buddy_new num_pages max_page_capacity = do {
     max_order \<leftarrow> calculate_usable_order max_page_capacity;
     let free = new_orders (Suc max_order) num_pages max_page_capacity;
     (accounted, a) \<leftarrow> mark_orders (rev [0..<Suc max_order]) num_pages 0
       \<lparr>bd_free = free, bd_len = num_pages, bd_max_order = max_order\<rparr>;
     assert_that (accounted = num_pages);
     Some a }"

section \<open>Queries\<close>

fun highest_free :: "nat list \<Rightarrow> buddy_allocator \<Rightarrow> nat option option" where
  "highest_free [] a = Some None"
| "highest_free (order # orders) a = do {
     b \<leftarrow> get_order_free a order;
     u \<leftarrow> has_unset b;
     if u then Some (Some order) else highest_free orders a }"

definition highest_free_order :: "buddy_allocator \<Rightarrow> nat option option" where
  "highest_free_order a = highest_free (rev [0..<Suc (bd_max_order a)]) a"

fun sum_free :: "nat list \<Rightarrow> buddy_allocator \<Rightarrow> nat \<Rightarrow> nat option" where
  "sum_free [] a pages = Some pages"
| "sum_free (order # orders) a pages = do {
     b \<leftarrow> get_order_free a order;
     n \<leftarrow> count_unset b;
     sum_free orders a (pages + n * 2 ^ order) }"

definition count_free_pages :: "buddy_allocator \<Rightarrow> nat option" where
  "count_free_pages a = sum_free [0..<Suc (bd_max_order a)] a 0"

definition count_allocated_pages :: "buddy_allocator \<Rightarrow> nat option" where
  "count_allocated_pages a = do {
     n \<leftarrow> count_free_pages a;
     assert_that (n \<le> bd_len a);
     Some (bd_len a - n) }"

fun free_order_of :: "nat list \<Rightarrow> buddy_allocator \<Rightarrow> nat \<Rightarrow> nat option option" where
  "free_order_of [] a page = Some None"
| "free_order_of (order # orders) a page = do {
     n \<leftarrow> len_at a order;
     free \<leftarrow> (if page < n then map_option Not (get_at a order page) else Some False);
     if free then Some (Some order) else free_order_of orders a (next_higher_order page) }"

definition find_free_order :: "buddy_allocator \<Rightarrow> nat \<Rightarrow> nat option option" where
  "find_free_order a page = free_order_of [0..<Suc (bd_max_order a)] a page"

function trailing_loop :: "buddy_allocator \<Rightarrow> nat \<Rightarrow> nat \<Rightarrow> nat option" where
  "trailing_loop a next_page free_pages =
     Option.bind (find_free_order a next_page) (\<lambda>r. case r of
        None \<Rightarrow> Some free_pages
      | Some order \<Rightarrow>
          if 2 ^ order > next_page then Some (free_pages + 2 ^ order)
          else trailing_loop a (next_page - 2 ^ order) (free_pages + 2 ^ order))"
  by pat_completeness auto

termination
  by (relation "measure (\<lambda>(a, next_page, free_pages). next_page)") (auto intro: block_step_down)

declare trailing_loop.simps [simp del]

definition trailing_free_pages :: "buddy_allocator \<Rightarrow> nat option" where
  "trailing_free_pages a = do { assert_that (0 < bd_len a); trailing_loop a (bd_len a - 1) 0 }"

section \<open>Allocation and release\<close>

function alloc_inner :: "nat \<Rightarrow> buddy_allocator \<Rightarrow> (nat option \<times> buddy_allocator) option" where
  "alloc_inner order a =
     (if order > bd_max_order a then Some (None, a)
      else do {
        b \<leftarrow> get_order_free a order;
        (r, b') \<leftarrow> bm_alloc b;
        let a1 = put_order_free a order b';
        case r of
          Some x \<Rightarrow> Some (Some x, a1)
        | None \<Rightarrow> do {
            (upper, a2) \<leftarrow> alloc_inner (order + 1) a1;
            case upper of
              None \<Rightarrow> Some (None, a2)
            | Some upper_page \<Rightarrow> do {
                let (free1, free2) = (upper_page * 2, upper_page * 2 + 1);
                g1 \<leftarrow> get_at a2 order free1;
                assert_that g1;
                g2 \<leftarrow> get_at a2 order free2;
                assert_that g2;
                a3 \<leftarrow> clear_at a2 order free2;
                Some (Some free1, a3) } } })"
  by pat_completeness auto

termination
  by (relation "measure (\<lambda>(order, a). Suc (bd_max_order a) - order)") (auto simp: put_order_free_def)

declare alloc_inner.simps [simp del]

definition buddy_alloc :: "nat \<Rightarrow> buddy_allocator \<Rightarrow> (nat option \<times> buddy_allocator) option" where
  "buddy_alloc order a = alloc_inner order a"

lemma order_in_range:
  "get_at a order page = Some g \<Longrightarrow> order < length (bd_free a)"
  "len_at a order = Some n \<Longrightarrow> order < length (bd_free a)"
  by (auto simp: get_at_def len_at_def get_order_free_def index_at_def split: if_splits)

lemma update_keeps:
  "set_at a order page = Some a' \<Longrightarrow> length (bd_free a') = length (bd_free a) \<and> bd_max_order a' = bd_max_order a \<and> bd_len a' = bd_len a"
  "clear_at a order page = Some a' \<Longrightarrow> length (bd_free a') = length (bd_free a) \<and> bd_max_order a' = bd_max_order a \<and> bd_len a' = bd_len a"
  by (auto simp: set_at_def clear_at_def put_order_free_def bind_eq_Some_conv)

function record_alloc_inner :: "nat \<Rightarrow> nat \<Rightarrow> buddy_allocator \<Rightarrow> buddy_allocator option" where
  "record_alloc_inner page_number order a = do {
     allocated \<leftarrow> get_at a order page_number;
     if allocated then do {
       let upper_page = next_higher_order page_number;
       a1 \<leftarrow> record_alloc_inner upper_page (order + 1) a;
       let (free1, free2) = (upper_page * 2, upper_page * 2 + 1);
       assert_that (free1 = page_number \<or> free2 = page_number);
       if free1 = page_number then clear_at a1 order free2 else clear_at a1 order free1 }
     else set_at a order page_number }"
  by pat_completeness auto

termination
  by (relation "measure (\<lambda>(page_number, order, a). length (bd_free a) - order)")
    (auto dest!: order_in_range)

declare record_alloc_inner.simps [simp del]

definition record_alloc :: "nat \<Rightarrow> nat \<Rightarrow> buddy_allocator \<Rightarrow> buddy_allocator option" where
  "record_alloc page_number order a = do {
     assert_that (order \<le> bd_max_order a);
     record_alloc_inner page_number order a }"

function free_inner :: "nat \<Rightarrow> nat \<Rightarrow> buddy_allocator \<Rightarrow> buddy_allocator option" where
  "free_inner page_number order a =
     (if order = bd_max_order a then clear_at a order page_number
      else do {
        let buddy = buddy_page page_number;
        n \<leftarrow> len_at a order;
        allocated \<leftarrow> (if buddy \<ge> n then Some True else get_at a order buddy);
        if allocated then clear_at a order page_number
        else do {
          a1 \<leftarrow> set_at a order buddy;
          free_inner (next_higher_order page_number) (order + 1) a1 } })"
  by pat_completeness auto

termination
  by (relation "measure (\<lambda>(page_number, order, a). length (bd_free a) - order)")
    (auto dest!: order_in_range update_keeps)

declare free_inner.simps [simp del]

definition buddy_free :: "nat \<Rightarrow> nat \<Rightarrow> buddy_allocator \<Rightarrow> buddy_allocator option" where
  "buddy_free page_number order a = do {
     allocated \<leftarrow> get_at a order page_number;
     assert_that allocated;
     free_inner page_number order a }"

text \<open>\<open>alloc_lowest\<close>: the search over the higher orders (the remaining orders, the multiplier, the best index at the
  requested order, the block held), and the split of the block found.\<close>

fun lowest_loop ::
  "nat list \<Rightarrow> nat \<Rightarrow> nat \<Rightarrow> nat \<times> nat \<Rightarrow> buddy_allocator \<Rightarrow> (nat \<times> (nat \<times> nat) \<times> buddy_allocator) option" where
  "lowest_loop [] multiplier best_index best a = Some (best_index, best, a)"
| "lowest_loop (i # is) multiplier best_index best a = do {
     (r, a1) \<leftarrow> alloc_inner i a;
     case r of
       None \<Rightarrow> lowest_loop is (multiplier * 2) best_index best a1
     | Some index \<Rightarrow>
         let index_at_order = index * multiplier in
         if index_at_order < best_index then do {
           a2 \<leftarrow> free_inner (fst best) (snd best) a1;
           lowest_loop is (multiplier * 2) index_at_order (index, i) a2 }
         else do {
           a2 \<leftarrow> free_inner index i a1;
           lowest_loop is (multiplier * 2) best_index best a2 } }"

function split_down :: "nat \<Rightarrow> nat \<times> nat \<Rightarrow> buddy_allocator \<Rightarrow> (nat \<times> buddy_allocator) option" where
  "split_down order best a =
     (if snd best > order then do {
        let (best_index, best_order) = best;
        let (free1, free2) = (best_index * 2, best_index * 2 + 1);
        g1 \<leftarrow> get_at a (best_order - 1) free1;
        assert_that g1;
        g2 \<leftarrow> get_at a (best_order - 1) free2;
        assert_that g2;
        a1 \<leftarrow> clear_at a (best_order - 1) free2;
        split_down order (free1, best_order - 1) a1 }
      else Some (fst best, a))"
  by pat_completeness auto

termination
  by (relation "measure (\<lambda>(order, best, a). snd best)") auto

declare split_down.simps [simp del]

definition alloc_lowest :: "nat \<Rightarrow> buddy_allocator \<Rightarrow> (nat option \<times> buddy_allocator) option" where
  "alloc_lowest order a = do {
     (r, a1) \<leftarrow> alloc_inner order a;
     case r of
       None \<Rightarrow> Some (None, a1)
     | Some index \<Rightarrow> do {
         (best_index, best, a2) \<leftarrow> lowest_loop [order + 1..<Suc (bd_max_order a)] 2 index (index, order) a1;
         (x, a3) \<leftarrow> split_down order best a2;
         assert_that (x = best_index);
         Some (Some x, a3) } }"

section \<open>Consistency check and resizing\<close>

fun check_page :: "nat list \<Rightarrow> buddy_allocator \<Rightarrow> nat \<Rightarrow> bool \<Rightarrow> unit option" where
  "check_page [] a page found = Some ()"
| "check_page (order # orders) a page found = do {
     n \<leftarrow> len_at a order;
     if n \<le> page then Some ()
     else do {
       allocated \<leftarrow> get_at a order page;
       assert_that (allocated \<or> \<not> found);
       check_page orders a (next_higher_order page) (found \<or> \<not> allocated) } }"

fun check_pages :: "nat list \<Rightarrow> buddy_allocator \<Rightarrow> unit option" where
  "check_pages [] a = Some ()"
| "check_pages (p # ps) a = do { check_page [0..<Suc (bd_max_order a)] a p False; check_pages ps a }"

definition check_buddy :: "buddy_allocator \<Rightarrow> nat \<Rightarrow> nat \<Rightarrow> unit option" where
  "check_buddy a order page = do {
     allocated \<leftarrow> get_at a order page;
     if allocated then Some ()
     else do {
       n \<leftarrow> len_at a order;
       if buddy_page page < n then do { g \<leftarrow> get_at a order (buddy_page page); assert_that g } else Some () } }"

fun check_buddies :: "(nat \<times> nat) list \<Rightarrow> buddy_allocator \<Rightarrow> unit option" where
  "check_buddies [] a = Some ()"
| "check_buddies ((order, page) # rest) a = do { check_buddy a order page; check_buddies rest a }"

definition debug_check_consistency :: "buddy_allocator \<Rightarrow> unit option" where
  "debug_check_consistency a = do {
     check_pages [0..<bd_len a] a;
     check_buddies (concat (map (\<lambda>order. map (Pair order) [0..<bd_len a div 2 ^ order]) (rev [0..<bd_max_order a]))) a }"

text \<open>The loops of \<open>resize\<close> release (\<open>free_inner\<close>) or take (\<open>record_alloc_inner\<close>) the pages from \<open>processed\<close> up to \<open>end\<close>:
  first in blocks as large as the alignment of \<open>processed\<close> permits, then in the largest blocks that fit. In
  the growing case the block size is computed before the test of the order, and \<open>2u32.pow(32)\<close> panics; the
  shrinking case tests first.\<close>

function grow_align :: "nat \<Rightarrow> nat \<Rightarrow> buddy_allocator \<Rightarrow> (nat \<times> buddy_allocator) option" where
  "grow_align processed new_size a =
     (if processed < new_size then do {
        let order = trailing_zeros processed;
        assert_that (order < 32);
        let page = processed div 2 ^ order;
        assert_that (processed mod 2 ^ order = 0);
        if order \<ge> bd_max_order a \<or> processed + 2 ^ order > new_size then Some (processed, a)
        else do {
          a1 \<leftarrow> free_inner page order a;
          grow_align (processed + 2 ^ order) new_size a1 } }
      else Some (processed, a))"
  by pat_completeness auto

termination
  by (relation "measure (\<lambda>(processed, new_size, a). new_size - processed)") (auto intro: block_step_up)

declare grow_align.simps [simp del]

function grow_order :: "nat \<Rightarrow> nat \<Rightarrow> nat \<Rightarrow> buddy_allocator \<Rightarrow> (nat \<times> buddy_allocator) option" where
  "grow_order order processed new_size a =
     (if processed + 2 ^ order \<le> new_size then do {
        a1 \<leftarrow> free_inner (processed div 2 ^ order) order a;
        grow_order order (processed + 2 ^ order) new_size a1 }
      else Some (processed, a))"
  by pat_completeness auto

termination
  by (relation "measure (\<lambda>(order, processed, new_size, a). new_size - processed)") (auto intro: block_step_up)

declare grow_order.simps [simp del]

function shrink_align :: "nat \<Rightarrow> nat \<Rightarrow> buddy_allocator \<Rightarrow> (nat \<times> buddy_allocator) option" where
  "shrink_align processed old_len a =
     (if processed < old_len then do {
        let order = trailing_zeros processed;
        if order \<ge> bd_max_order a then Some (processed, a)
        else do {
          let page = processed div 2 ^ order;
          assert_that (processed mod 2 ^ order = 0);
          if processed + 2 ^ order > old_len then Some (processed, a)
          else do {
            a1 \<leftarrow> record_alloc_inner page order a;
            shrink_align (processed + 2 ^ order) old_len a1 } } }
      else Some (processed, a))"
  by pat_completeness auto

termination
  by (relation "measure (\<lambda>(processed, old_len, a). old_len - processed)") (auto intro: block_step_up)

declare shrink_align.simps [simp del]

function shrink_order :: "nat \<Rightarrow> nat \<Rightarrow> nat \<Rightarrow> buddy_allocator \<Rightarrow> (nat \<times> buddy_allocator) option" where
  "shrink_order order processed old_len a =
     (if processed + 2 ^ order \<le> old_len then do {
        a1 \<leftarrow> record_alloc_inner (processed div 2 ^ order) order a;
        shrink_order order (processed + 2 ^ order) old_len a1 }
      else Some (processed, a))"
  by pat_completeness auto

termination
  by (relation "measure (\<lambda>(order, processed, old_len, a). old_len - processed)") (auto intro: block_step_up)

declare shrink_order.simps [simp del]

fun over_orders ::
  "(nat \<Rightarrow> nat \<Rightarrow> nat \<Rightarrow> buddy_allocator \<Rightarrow> (nat \<times> buddy_allocator) option)
    \<Rightarrow> nat list \<Rightarrow> nat \<Rightarrow> nat \<Rightarrow> buddy_allocator \<Rightarrow> (nat \<times> buddy_allocator) option" where
  "over_orders f [] processed target a = Some (processed, a)"
| "over_orders f (order # orders) processed target a = do {
     (processed', a') \<leftarrow> f order processed target a;
     over_orders f orders processed' target a' }"

fun resize_orders :: "btree_bitmap list \<Rightarrow> nat \<Rightarrow> btree_bitmap list option" where
  "resize_orders [] pages = Some []"
| "resize_orders (b # bs) pages = do {
     b' \<leftarrow> bm_resize b pages True;
     bs' \<leftarrow> resize_orders bs (next_higher_order pages);
     Some (b' # bs') }"

definition buddy_resize :: "nat \<Rightarrow> buddy_allocator \<Rightarrow> buddy_allocator option" where
  "buddy_resize new_size a = do {
     debug_check_consistency a;
     a' \<leftarrow> (if new_size > bd_len a then do {
              free \<leftarrow> resize_orders (bd_free a) new_size;
              (processed, a1) \<leftarrow> grow_align (bd_len a) new_size (a\<lparr>bd_free := free\<rparr>);
              (processed', a2) \<leftarrow> over_orders grow_order (rev [0..<Suc (bd_max_order a)]) processed new_size a1;
              assert_that (processed' = new_size);
              Some (a2\<lparr>bd_len := new_size\<rparr>) }
            else do {
              (processed, a1) \<leftarrow> shrink_align new_size (bd_len a) a;
              (processed', a2) \<leftarrow> over_orders shrink_order (rev [0..<Suc (bd_max_order a)]) processed (bd_len a) a1;
              assert_that (processed' = bd_len a);
              free \<leftarrow> resize_orders (bd_free a2) new_size;
              Some (a2\<lparr>bd_free := free, bd_len := new_size\<rparr>) });
     debug_check_consistency a';
     Some a' }"

section \<open>Serialised form\<close>

definition buddy_to_vec :: "buddy_allocator \<Rightarrow> bytes option" where
  "buddy_to_vec a = do {
     let result = [of_nat (bd_max_order a), 0, 0, 0] @ to_le_bytes 4 (bd_len a);
     let data_offset = length result + (bd_max_order a + 1) * 4;
     vecs \<leftarrow> those (map bm_to_vec (bd_free a));
     ends \<leftarrow> those (map (\<lambda>k. try_into_u32 (data_offset + sum_list (map length (take (Suc k) vecs)))) [0..<length vecs]);
     let result = result @ concat (map (to_le_bytes 4) ends);
     assert_that (data_offset = length result);
     Some (result @ concat vecs) }"

fun read_orders :: "nat \<Rightarrow> bytes \<Rightarrow> nat \<Rightarrow> nat \<Rightarrow> btree_bitmap list option" where
  "read_orders 0 data metadata data_start = Some []"
| "read_orders (Suc n) data metadata data_start = do {
     field \<leftarrow> slice data metadata (metadata + 4);
     let data_end = from_le_bytes field;
     part \<leftarrow> slice data data_start data_end;
     b \<leftarrow> bm_from_bytes part;
     bs \<leftarrow> read_orders n data (metadata + 4) data_end;
     Some (b # bs) }"

definition buddy_from_bytes :: "bytes \<Rightarrow> buddy_allocator option" where
  "buddy_from_bytes data = do {
     m \<leftarrow> index_at data 0;
     let max_order = unat m;
     field \<leftarrow> slice data 4 8;
     let num_pages = from_le_bytes field;
     free \<leftarrow> read_orders (max_order + 1) data 8 (8 + (max_order + 1) * 4);
     Some \<lparr>bd_free = free, bd_len = num_pages, bd_max_order = max_order\<rparr> }"

end
