(* ===== verification/Buddy_Blocks.thy ===== *)
theory Buddy_Blocks
  imports Buddy
begin

text \<open>
  Blocks and pages, independently of the data structure. A set of free blocks that do not overlap and of which no
  two buddies are both free is determined by the pages it covers (\<open>blocks_determined\<close>), and every aligned run of
  free pages lies in one free block (\<open>run_in_block\<close>).
\<close>

type_synonym block = "nat \<times> nat"

definition span :: "nat \<Rightarrow> nat \<Rightarrow> nat set" where
  "span k p = {x. x div 2 ^ k = p}"

definition pages :: "block set \<Rightarrow> nat set" where
  "pages B = {x. \<exists>k. (k, x div 2 ^ k) \<in> B}"

definition separate :: "block set \<Rightarrow> bool" where
  "separate B \<longleftrightarrow> (\<forall>x k l. (k, x div 2 ^ k) \<in> B \<longrightarrow> (l, x div 2 ^ l) \<in> B \<longrightarrow> k = l)"

definition merged :: "nat \<Rightarrow> block set \<Rightarrow> bool" where
  "merged m B \<longleftrightarrow> (\<forall>k p. (k, p) \<in> B \<longrightarrow> k < m \<longrightarrow> (k, buddy_page p) \<notin> B)"

definition blocks_ok :: "nat \<Rightarrow> nat \<Rightarrow> block set \<Rightarrow> bool" where
  "blocks_ok m n B \<longleftrightarrow> (\<forall>k p. (k, p) \<in> B \<longrightarrow> k \<le> m \<and> p < n div 2 ^ k) \<and> separate B \<and> merged m B"

section \<open>Buddies\<close>

lemma buddy_page_even: "even p \<Longrightarrow> buddy_page p = p + 1"
  by (simp add: buddy_page_def xor_Suc_0_eq)

lemma buddy_page_odd: "odd p \<Longrightarrow> buddy_page p = p - 1"
  by (simp add: buddy_page_def xor_Suc_0_eq)

lemma buddy_page_simps [simp]:
  "buddy_page (2 * q) = Suc (2 * q)" "buddy_page (Suc (2 * q)) = 2 * q"
  "buddy_page p div 2 = p div 2" "buddy_page p \<noteq> p" "buddy_page (buddy_page p) = p"
  by (cases "even p"; auto simp: buddy_page_even buddy_page_odd elim!: evenE oddE)+

lemma buddy_pair: "{p, buddy_page p} = {2 * (p div 2), Suc (2 * (p div 2))}"
  by (cases "even p") (auto simp: buddy_page_even buddy_page_odd elim!: evenE oddE)

section \<open>Spans\<close>

lemma in_span [simp]: "x \<in> span k p \<longleftrightarrow> x div 2 ^ k = p"
  by (simp add: span_def)

lemma first_in_span [simp]: "p * 2 ^ k \<in> span k p"
  by simp

lemma span_nonempty [simp]: "span k p \<noteq> {}"
  using first_in_span by blast

lemma span_0: "span 0 p = {p}"
  by auto

lemma div_power_add: "x div 2 ^ (k + d) = x div 2 ^ k div 2 ^ d" for x :: nat
  by (simp add: power_add div_mult2_eq)

lemma div_power_le: "k \<le> l \<Longrightarrow> x div 2 ^ l = x div 2 ^ k div 2 ^ (l - k)" for x :: nat
  using div_power_add [of x k "l - k"] by simp

lemma div_power_Suc: "x div 2 ^ Suc k = x div 2 ^ k div 2" for x :: nat
  using div_power_add [of x k 1] by simp

lemma span_split: "span (Suc k) q = span k (2 * q) \<union> span k (Suc (2 * q))"
  by (auto simp: div_power_Suc simp del: power_Suc)

lemma span_buddies: "span (Suc k) (p div 2) = span k p \<union> span k (buddy_page p)"
proof -
  have "span (Suc k) (p div 2) = (\<Union>q \<in> {p, buddy_page p}. span k q)" unfolding buddy_pair span_split by simp
  then show ?thesis by simp
qed

lemma span_disjoint: "p \<noteq> q \<Longrightarrow> span k p \<inter> span k q = {}"
  by auto

lemma span_subset: "k \<le> l \<Longrightarrow> span k p \<subseteq> span l (p div 2 ^ (l - k))"
  by (auto simp: div_power_le)

lemma div_eq_between: "0 < d \<Longrightarrow> x div d = p \<longleftrightarrow> p * d \<le> x \<and> x < (p + 1) * d" for x d p :: nat
  using div_times_less_eq_dividend [of x d] dividend_less_div_times [of d x]
  by (auto simp: mult.commute intro: div_nat_eqI)

lemma span_interval: "span k p = {p * 2 ^ k..<(p + 1) * 2 ^ k}"
  by (simp add: span_def div_eq_between set_eq_iff)

lemma finite_span [simp]: "finite (span k p)"
  by (simp add: span_interval)

lemma card_span: "card (span k p) = 2 ^ k"
  by (simp add: span_interval)

lemma span_below: "span k p \<subseteq> {..<n} \<longleftrightarrow> p < n div 2 ^ k"
proof -
  have "span k p \<subseteq> {..<n} \<longleftrightarrow> (p + 1) * 2 ^ k \<le> n"
  proof
    assume sub: "span k p \<subseteq> {..<n}"
    define d where "d = (2 :: nat) ^ k"
    have d: "0 < d" by (simp add: d_def)
    have "p * d + (d - 1) \<in> span k p" using d by (simp add: span_interval d_def [symmetric]) arith
    with sub have "p * d + (d - 1) < n" by blast
    then show "(p + 1) * 2 ^ k \<le> n" using d by (simp add: d_def [symmetric])
  qed (auto simp: span_interval)
  also have "\<dots> \<longleftrightarrow> p < n div 2 ^ k" by (simp add: less_eq_div_iff_mult_less_eq Suc_le_eq [symmetric])
  finally show ?thesis .
qed

section \<open>Covered pages\<close>

lemma in_pages [simp]: "x \<in> pages B \<longleftrightarrow> (\<exists>k. (k, x div 2 ^ k) \<in> B)"
  by (simp add: pages_def)

lemma pages_UN: "pages B = (\<Union>(k, p) \<in> B. span k p)"
  by (force simp: pages_def)

lemma span_in_pages: "(k, p) \<in> B \<Longrightarrow> span k p \<subseteq> pages B"
  by auto

lemma pages_insert [simp]: "pages (insert (k, p) B) = span k p \<union> pages B"
  by (auto simp: pages_UN)

lemma pages_empty [simp]: "pages {} = {}"
  by (simp add: pages_def)

lemma pages_remove:
  assumes "separate B" and "(k, p) \<in> B"
  shows "pages (B - {(k, p)}) = pages B - span k p"
proof -
  have "l = k" if "x div 2 ^ k = p" "(l, x div 2 ^ l) \<in> B" for x l
    using assms that by (auto simp: separate_def)
  then show ?thesis by auto
qed

lemma pages_below:
  assumes "blocks_ok m n B"
  shows "pages B \<subseteq> {..<n}"
proof -
  have "span k p \<subseteq> {..<n}" if "(k, p) \<in> B" for k p
    using assms that by (auto simp: blocks_ok_def span_below)
  then show ?thesis unfolding pages_UN by auto
qed

lemma separate_span:
  "separate B \<Longrightarrow> (k, p) \<in> B \<Longrightarrow> (l, q) \<in> B \<Longrightarrow> span k p \<inter> span l q \<noteq> {} \<Longrightarrow> k = l \<and> p = q"
  unfolding separate_def by (metis disjoint_iff in_span)

lemma blocks_ok_remove: "blocks_ok m n B \<Longrightarrow> blocks_ok m n (B - A)"
  by (auto simp: blocks_ok_def separate_def merged_def)

lemma blocks_ok_insert:
  assumes "blocks_ok m n B" and "k \<le> m" and "p < n div 2 ^ k" and "span k p \<inter> pages B = {}"
    and "k < m \<Longrightarrow> (k, buddy_page p) \<notin> B"
  shows "blocks_ok m n (insert (k, p) B)"
proof -
  have "(l, x div 2 ^ l) \<notin> B" if "x div 2 ^ k = p" for x l
    using assms(4) that by (auto simp: disjoint_iff)
  then have "separate (insert (k, p) B)"
    using assms(1) by (auto simp: blocks_ok_def separate_def)
  moreover have "merged m (insert (k, p) B)"
    using assms(1,5) by (auto simp: blocks_ok_def merged_def)
  ultimately show ?thesis using assms(1-3) by (auto simp: blocks_ok_def)
qed

text \<open>An aligned run of free pages lies within one free block.\<close>

lemma run_in_block:
  assumes "blocks_ok m n B" and "k \<le> m" and "span k p \<subseteq> pages B"
  shows "\<exists>l. k \<le> l \<and> (l, p div 2 ^ (l - k)) \<in> B"
  using assms(2,3)
proof (induction k arbitrary: p)
  case 0
  then show ?case by (auto simp: span_0)
next
  case (Suc k)
  have part: "(\<exists>l. Suc k \<le> l \<and> (l, p div 2 ^ (l - Suc k)) \<in> B) \<or> (k, q) \<in> B"
    if q: "q div 2 = p" "span k q \<subseteq> pages B" for q
  proof -
    obtain l where l: "k \<le> l" "(l, q div 2 ^ (l - k)) \<in> B" using Suc.IH [of q] q(2) Suc.prems(1) by auto
    show ?thesis
    proof (cases "l = k")
      case False
      then have "q div 2 ^ (l - k) = p div 2 ^ (l - Suc k)"
        using l(1) q(1) div_power_add [of q 1 "l - Suc k"] by (simp add: Suc_diff_Suc)
      with False l show ?thesis by (intro disjI1 exI [of _ l]) simp
    qed (use l in simp)
  qed
  have "span k (2 * p) \<subseteq> pages B" "span k (Suc (2 * p)) \<subseteq> pages B" using Suc.prems(2) by (auto simp: span_split)
  moreover have "(k, buddy_page (2 * p)) \<notin> B" if "(k, 2 * p) \<in> B"
    using assms(1) Suc.prems(1) that unfolding blocks_ok_def merged_def by (meson Suc_le_lessD)
  ultimately show ?case using part [of "2 * p"] part [of "Suc (2 * p)"] by auto
qed

lemma run_iff_block:
  assumes "blocks_ok m n B" and "k \<le> m"
  shows "span k p \<subseteq> pages B \<longleftrightarrow> (\<exists>l. k \<le> l \<and> (l, p div 2 ^ (l - k)) \<in> B)"
proof
  assume "\<exists>l. k \<le> l \<and> (l, p div 2 ^ (l - k)) \<in> B"
  then show "span k p \<subseteq> pages B" using span_subset span_in_pages by (meson subset_trans)
qed (rule run_in_block [OF assms])

text \<open>The blocks are determined by the pages they cover.\<close>

definition maximal_runs :: "nat \<Rightarrow> nat set \<Rightarrow> block set" where
  "maximal_runs m F = {(k, p). k \<le> m \<and> span k p \<subseteq> F \<and> (k < m \<longrightarrow> \<not> span (Suc k) (p div 2) \<subseteq> F)}"

lemma blocks_determined:
  assumes ok: "blocks_ok m n B"
  shows "B = maximal_runs m (pages B)"
proof (intro equalityI subrelI)
  fix k p
  assume b: "(k, p) \<in> B"
  then have k: "k \<le> m" using ok by (auto simp: blocks_ok_def)
  moreover have "\<not> span (Suc k) (p div 2) \<subseteq> pages B" if "k < m"
  proof
    assume "span (Suc k) (p div 2) \<subseteq> pages B"
    from run_in_block [OF ok Suc_leI [OF that] this]
    obtain l where l: "Suc k \<le> l" "(l, p div 2 div 2 ^ (l - Suc k)) \<in> B" by blast
    have "p div 2 div 2 ^ (l - Suc k) = p div 2 ^ (l - k)"
      using l(1) div_power_add [of p 1 "l - Suc k"] by (simp add: Suc_diff_Suc)
    then have "span k p \<subseteq> span l (p div 2 div 2 ^ (l - Suc k))"
      using span_subset [of k l p] l(1) by simp
    then have "span k p \<inter> span l (p div 2 div 2 ^ (l - Suc k)) \<noteq> {}"
      by (metis Int_absorb2 span_nonempty)
    then have "k = l" using separate_span [of B k p l] b l(2) ok by (auto simp: blocks_ok_def)
    with l(1) show False by simp
  qed
  ultimately show "(k, p) \<in> maximal_runs m (pages B)" using span_in_pages [OF b] by (auto simp: maximal_runs_def)
next
  fix k p
  assume "(k, p) \<in> maximal_runs m (pages B)"
  then have k: "k \<le> m" and run: "span k p \<subseteq> pages B" and top: "k < m \<Longrightarrow> \<not> span (Suc k) (p div 2) \<subseteq> pages B"
    by (auto simp: maximal_runs_def)
  obtain l where l: "k \<le> l" "(l, p div 2 ^ (l - k)) \<in> B" using run_in_block [OF ok k run] by blast
  have "l \<le> m" using l(2) ok by (auto simp: blocks_ok_def)
  show "(k, p) \<in> B"
  proof (cases "l = k")
    case False
    then have "p div 2 ^ (l - k) = p div 2 div 2 ^ (l - Suc k)"
      using l(1) div_power_add [of p 1 "l - Suc k"] by (simp add: Suc_diff_Suc)
    moreover have "Suc k \<le> l" using False l(1) by simp
    ultimately have "span (Suc k) (p div 2) \<subseteq> pages B"
      using run_iff_block [OF ok, of "Suc k" "p div 2"] l \<open>l \<le> m\<close> by (metis order_trans)
    with top False l(1) \<open>l \<le> m\<close> show ?thesis by simp
  qed (use l in simp)
qed

lemma same_pages_same_blocks: "blocks_ok m n B \<Longrightarrow> blocks_ok m n' C \<Longrightarrow> pages B = pages C \<Longrightarrow> B = C"
  by (metis blocks_determined)

end
