(* ===== verification/Buddy_Spec.thy ===== *)
theory Buddy_Spec
  imports Buddy_Blocks
begin

text \<open>
  The buddy allocator refines a set of free pages. The invariant \<open>region\<close> says that the bit trees have the right
  lengths, that free blocks do not overlap and that no two free buddies are left unmerged; \<open>free_pages\<close> is what the
  allocator stands for. Allocation takes an aligned run of free pages whenever there is one, release adds the
  pages of a block, and no operation panics when its caller keeps to the contract.
\<close>

definition blocks :: "buddy_allocator \<Rightarrow> block set" where
  "blocks a = {(k, p). k < length (bd_free a) \<and> p \<in> unset (bd_free a ! k)}"

text \<open>The tree of order \<open>k\<close> has one bit per block of a region of \<open>n\<close> pages, and room for one of \<open>c\<close> pages; six levels
  are enough for \<open>2^32\<close> bits.\<close>

definition orders_ok :: "nat \<Rightarrow> nat \<Rightarrow> buddy_allocator \<Rightarrow> bool" where
  "orders_ok c n a \<longleftrightarrow> length (bd_free a) = Suc (bd_max_order a)
     \<and> (\<forall>k < length (bd_free a). bitmap_inv (bd_free a ! k) \<and> size_of (bd_free a ! k) = n div 2 ^ k
          \<and> supports (length (bd_free a ! k) - 1) (c div 2 ^ k) \<and> length (bd_free a ! k) \<le> 6)"

definition region :: "nat \<Rightarrow> nat \<Rightarrow> buddy_allocator \<Rightarrow> bool" where
  "region c n a \<longleftrightarrow> orders_ok c n a \<and> blocks_ok (bd_max_order a) n (blocks a)"

definition free_pages :: "buddy_allocator \<Rightarrow> nat set" where
  "free_pages a = pages (blocks a)"

definition same_shape :: "buddy_allocator \<Rightarrow> buddy_allocator \<Rightarrow> bool" where
  "same_shape a a' \<longleftrightarrow> bd_len a' = bd_len a \<and> bd_max_order a' = bd_max_order a"

lemma same_shape_refl [simp]: "same_shape a a"
  by (simp add: same_shape_def)

lemma same_shape_trans: "same_shape a b \<Longrightarrow> same_shape b c \<Longrightarrow> same_shape a c"
  by (simp add: same_shape_def)

text \<open>The result of an operation: the region with the given free pages.\<close>

definition becomes :: "nat \<Rightarrow> nat \<Rightarrow> buddy_allocator \<Rightarrow> nat set \<Rightarrow> buddy_allocator \<Rightarrow> bool" where
  "becomes c n a F a' \<longleftrightarrow> region c n a' \<and> free_pages a' = F \<and> same_shape a a'"

section \<open>Single bits\<close>

lemma order_bitmap:
  assumes "orders_ok c n a" and "k \<le> bd_max_order a"
  shows "get_order_free a k = Some (bd_free a ! k)" and "bitmap_inv (bd_free a ! k)"
    and "size_of (bd_free a ! k) = n div 2 ^ k" and "k < length (bd_free a)"
  using assms by (simp_all add: orders_ok_def get_order_free_def)

lemma in_blocks: "orders_ok c n a \<Longrightarrow> (k, p) \<in> blocks a \<longleftrightarrow> k \<le> bd_max_order a \<and> p \<in> unset (bd_free a ! k)"
  by (auto simp: blocks_def orders_ok_def less_Suc_eq_le)

lemma len_at_ok: "orders_ok c n a \<Longrightarrow> k \<le> bd_max_order a \<Longrightarrow> len_at a k = Some (n div 2 ^ k)"
  using order_bitmap [of c n a k] by (simp add: len_at_def bm_len_ok)

lemma get_at_ok:
  "orders_ok c n a \<Longrightarrow> k \<le> bd_max_order a \<Longrightarrow> p < n div 2 ^ k \<Longrightarrow> get_at a k p = Some ((k, p) \<notin> blocks a)"
  using order_bitmap [of c n a k] by (simp add: get_at_def bm_get_ok in_blocks)

lemma put_order_ok:
  assumes a: "orders_ok c n a" and k: "k \<le> bd_max_order a" and b: "bitmap_inv b" "size_of b = n div 2 ^ k"
    and len: "length b = length (bd_free a ! k)"
  shows "orders_ok c n (put_order_free a k b)" and "same_shape a (put_order_free a k b)"
    and "blocks (put_order_free a k b) = {(j, p) \<in> blocks a. j \<noteq> k} \<union> Pair k ` unset b"
proof -
  have kl: "k < length (bd_free a)" by (rule order_bitmap [OF a k])
  then show "orders_ok c n (put_order_free a k b)"
    using a b len by (auto simp: orders_ok_def put_order_free_def nth_list_update)
  show "blocks (put_order_free a k b) = {(j, p) \<in> blocks a. j \<noteq> k} \<union> Pair k ` unset b"
    using kl by (auto simp: blocks_def put_order_free_def nth_list_update split: if_splits)
qed (simp add: same_shape_def put_order_free_def)

lemma clear_at_ok:
  assumes a: "orders_ok c n a" and k: "k \<le> bd_max_order a" and p: "p < n div 2 ^ k"
  shows "\<exists>a'. clear_at a k p = Some a' \<and> orders_ok c n a' \<and> blocks a' = insert (k, p) (blocks a) \<and> same_shape a a'"
proof -
  note b = order_bitmap [OF a k]
  obtain b' where b': "bm_clear (bd_free a ! k) p = Some b'" "bitmap_inv b'" "size_of b' = n div 2 ^ k"
    "unset b' = insert p (unset (bd_free a ! k))" using bm_clear_ok [OF b(2)] b(3) p by auto
  note put = put_order_ok [OF a k b'(2,3) bm_clear_length [OF b'(1)]]
  have "blocks (put_order_free a k b') = insert (k, p) (blocks a)"
    unfolding put(3) b'(4) using in_blocks [OF a] k by auto
  then show ?thesis using b(1) b'(1) put(1,2) by (simp add: clear_at_def)
qed

lemma set_at_ok:
  assumes a: "orders_ok c n a" and k: "k \<le> bd_max_order a" and p: "p < n div 2 ^ k"
  shows "\<exists>a'. set_at a k p = Some a' \<and> orders_ok c n a' \<and> blocks a' = blocks a - {(k, p)} \<and> same_shape a a'"
proof -
  note b = order_bitmap [OF a k]
  obtain b' where b': "bm_set (bd_free a ! k) p = Some b'" "bitmap_inv b'" "size_of b' = n div 2 ^ k"
    "unset b' = unset (bd_free a ! k) - {p}" using bm_set_ok [OF b(2)] b(3) p by auto
  note put = put_order_ok [OF a k b'(2,3) bm_set_length [OF b'(1)]]
  have "blocks (put_order_free a k b') = blocks a - {(k, p)}"
    unfolding put(3) b'(4) using in_blocks [OF a] k by auto
  then show ?thesis using b(1) b'(1) put(1,2) by (simp add: set_at_def)
qed

section \<open>Adding and removing a block\<close>

lemma add_block:
  assumes a: "region c n a" and k: "k \<le> bd_max_order a" and p: "p < n div 2 ^ k" and new: "span k p \<inter> free_pages a = {}"
    and buddy: "k < bd_max_order a \<Longrightarrow> (k, buddy_page p) \<notin> blocks a"
  shows "\<exists>a'. clear_at a k p = Some a' \<and> becomes c n a (free_pages a \<union> span k p) a'"
proof -
  obtain a' where a': "clear_at a k p = Some a'" "orders_ok c n a'" "blocks a' = insert (k, p) (blocks a)" "same_shape a a'"
    using clear_at_ok [OF _ k p] a by (auto simp: region_def)
  have "blocks_ok (bd_max_order a) n (insert (k, p) (blocks a))"
    using a new buddy by (intro blocks_ok_insert k p) (auto simp: region_def free_pages_def)
  then show ?thesis using a' by (auto simp: becomes_def region_def free_pages_def same_shape_def)
qed

lemma remove_block:
  assumes a: "region c n a" and b: "(k, p) \<in> blocks a"
  shows "\<exists>a'. set_at a k p = Some a' \<and> becomes c n a (free_pages a - span k p) a' \<and> blocks a' = blocks a - {(k, p)}"
proof -
  have "k \<le> bd_max_order a" "p < n div 2 ^ k" and sep: "separate (blocks a)"
    using a b by (auto simp: region_def blocks_ok_def)
  then obtain a' where "set_at a k p = Some a'" "orders_ok c n a'" "blocks a' = blocks a - {(k, p)}" "same_shape a a'"
    using set_at_ok [of c n a k p] a by (auto simp: region_def)
  then show ?thesis
    using a blocks_ok_remove [of "bd_max_order a" n "blocks a"] pages_remove [OF sep b]
    by (auto simp: becomes_def region_def free_pages_def same_shape_def)
qed

lemma region_pages: "region c n a \<Longrightarrow> free_pages a \<subseteq> {..<n}"
  by (auto simp: region_def free_pages_def dest: pages_below)

lemma free_run_bound: "region c n a \<Longrightarrow> span k p \<subseteq> free_pages a \<Longrightarrow> p < n div 2 ^ k"
  using region_pages span_below by blast

section \<open>Release\<close>

lemma free_inner_ok:
  assumes "region c n a" and "k \<le> bd_max_order a" and "p < n div 2 ^ k" and "span k p \<inter> free_pages a = {}"
  shows "\<exists>a'. free_inner p k a = Some a' \<and> becomes c n a (free_pages a \<union> span k p) a'"
  using assms
proof (induction "bd_max_order a - k" arbitrary: k p a)
  case 0
  then show ?case using add_block [of c n a k p] by (simp add: free_inner.simps)
next
  case (Suc d)
  then have k: "k < bd_max_order a" and ord: "orders_ok c n a" by (auto simp: region_def)
  have unfold: "free_inner p k a = do {
        allocated \<leftarrow> (if n div 2 ^ k \<le> buddy_page p then Some True else Some ((k, buddy_page p) \<notin> blocks a));
        if allocated then clear_at a k p
        else do { a1 \<leftarrow> set_at a k (buddy_page p); free_inner (p div 2) (Suc k) a1 } }"
    using k by (subst free_inner.simps)
      (simp add: Let_def len_at_ok [OF ord] get_at_ok [OF ord] next_higher_order_def)
  show ?case
  proof (cases "(k, buddy_page p) \<in> blocks a")
    case False
    then show ?thesis using unfold add_block [OF Suc.prems(1-4)] by simp
  next
    case True
    then have lt: "buddy_page p < n div 2 ^ k" using Suc.prems(1) by (auto simp: region_def blocks_ok_def)
    obtain a1 where a1: "set_at a k (buddy_page p) = Some a1"
      "becomes c n a (free_pages a - span k (buddy_page p)) a1" using remove_block [OF Suc.prems(1) True] by blast
    have "span k p \<union> span k (buddy_page p) \<subseteq> {..<n}" using Suc.prems(3) lt by (simp add: span_below)
    then have in_range: "p div 2 < n div 2 ^ Suc k" by (simp only: span_buddies [symmetric] span_below)
    have "span (Suc k) (p div 2) \<inter> free_pages a1 = {}"
      using Suc.prems(4) a1(2) unfolding span_buddies becomes_def by blast
    moreover have "d = bd_max_order a1 - Suc k" "Suc k \<le> bd_max_order a1"
      using Suc.hyps(2) a1(2) k by (auto simp: becomes_def same_shape_def)
    ultimately obtain a2 where a2: "free_inner (p div 2) (Suc k) a1 = Some a2"
      "becomes c n a1 (free_pages a1 \<union> span (Suc k) (p div 2)) a2"
      using Suc.hyps(1) [of a1 "Suc k" "p div 2"] a1(2) in_range by (auto simp: becomes_def)
    have "span k (buddy_page p) \<subseteq> free_pages a" using span_in_pages [OF True] by (simp only: free_pages_def)
    then have "free_pages a1 \<union> span (Suc k) (p div 2) = free_pages a \<union> span k p"
      using a1(2) unfolding becomes_def span_buddies by blast
    then show ?thesis using unfold True lt a1 a2 by (auto simp: becomes_def intro: same_shape_trans)
  qed
qed

section \<open>Taking a given block\<close>

lemma record_alloc_inner_ok:
  assumes "region c n a" and "k \<le> bd_max_order a" and "span k p \<subseteq> free_pages a"
  shows "\<exists>a'. record_alloc_inner p k a = Some a' \<and> becomes c n a (free_pages a - span k p) a'"
  using assms
proof (induction "bd_max_order a - k" arbitrary: k p)
  case (0 k p)
  then have "(k, p) \<in> blocks a"
    using run_in_block [of "bd_max_order a" n "blocks a" k p] by (force simp: region_def free_pages_def blocks_ok_def)
  moreover from remove_block [OF "0.prems"(1) this] obtain a' where
    "set_at a k p = Some a'" "becomes c n a (free_pages a - span k p) a'" by blast
  ultimately show ?case
    using "0.prems" get_at_ok [of c n a k p] free_run_bound [of c n a k p]
    by (subst record_alloc_inner.simps) (auto simp: region_def)
next
  case (Suc d k p)
  then have k: "k < bd_max_order a" and ord: "orders_ok c n a" by (auto simp: region_def)
  have p: "p < n div 2 ^ k" using Suc.prems(1,3) by (rule free_run_bound)
  note get = get_at_ok [OF ord Suc.prems(2) p]
  show ?case
  proof (cases "(k, p) \<in> blocks a")
    case True
    with remove_block [OF Suc.prems(1) True] show ?thesis using get by (subst record_alloc_inner.simps) auto
  next
    case False
    have up: "span (Suc k) (p div 2) \<subseteq> free_pages a"
      using blocks_determined [of "bd_max_order a" n "blocks a"] Suc.prems(1,3) False k
      by (auto simp: region_def free_pages_def maximal_runs_def)
    moreover have "d = bd_max_order a - Suc k" using Suc.hyps(2) by simp
    ultimately obtain a1 where a1: "record_alloc_inner (p div 2) (Suc k) a = Some a1"
      "becomes c n a (free_pages a - span (Suc k) (p div 2)) a1"
      using Suc.hyps(1) [of "Suc k" "p div 2"] Suc.prems(1) k by auto
    let ?q = "buddy_page p"
    have "span k ?q \<subseteq> free_pages a" using up by (simp add: span_buddies)
    then have q: "?q < n div 2 ^ k" using free_run_bound Suc.prems(1) by blast
    have "\<not> span k p \<subseteq> pages (blocks a1)"
      using a1(2) span_nonempty [of k p] unfolding becomes_def free_pages_def span_buddies by blast
    then have "(k, buddy_page ?q) \<notin> blocks a1" using span_in_pages [of k p "blocks a1"] by auto
    moreover have "span k ?q \<inter> free_pages a1 = {}" using a1(2) unfolding becomes_def span_buddies by blast
    ultimately obtain a2 where a2: "clear_at a1 k ?q = Some a2" "becomes c n a1 (free_pages a1 \<union> span k ?q) a2"
      using add_block [of c n a1 k ?q] a1(2) q Suc.prems(2) by (auto simp only: becomes_def same_shape_def)
    have "span k p \<inter> span k ?q = {}" by (rule span_disjoint) (rule buddy_page_simps(4) [symmetric])
    then have pages: "free_pages a1 \<union> span k ?q = free_pages a - span k p"
      using a1(2) \<open>span k ?q \<subseteq> free_pages a\<close> unfolding becomes_def span_buddies by blast
    have "record_alloc_inner p k a = clear_at a1 k ?q"
      using get False a1(1) buddy_page_even buddy_page_odd
      by (subst record_alloc_inner.simps, cases "even p") (auto simp: Let_def next_higher_order_def mult.commute elim!: evenE oddE)
    then show ?thesis using a1(2) a2 pages by (auto simp: becomes_def intro: same_shape_trans)
  qed
qed

section \<open>Allocation\<close>

text \<open>The block that \<open>alloc_inner\<close> takes for order \<open>k\<close>: the first one of the least order that has any.\<close>

definition best_block :: "block set \<Rightarrow> nat \<Rightarrow> nat \<Rightarrow> nat \<Rightarrow> bool" where
  "best_block B k l p \<longleftrightarrow> k \<le> l \<and> (l, p) \<in> B \<and> (\<forall>j q. (j, q) \<in> B \<longrightarrow> k \<le> j \<longrightarrow> l \<le> j) \<and> (\<forall>q. (l, q) \<in> B \<longrightarrow> p \<le> q)"

lemma best_block_exists:
  assumes "(j, q) \<in> B" and "k \<le> j"
  obtains l p where "best_block B k l p"
proof -
  define l where "l = (LEAST j. k \<le> j \<and> (\<exists>q. (j, q) \<in> B))"
  have l: "k \<le> l \<and> (\<exists>q. (l, q) \<in> B)" unfolding l_def by (rule LeastI) (use assms in blast)
  then have "(l, LEAST q. (l, q) \<in> B) \<in> B" using LeastI_ex [of "\<lambda>q. (l, q) \<in> B"] by blast
  moreover have "\<forall>j q. (j, q) \<in> B \<longrightarrow> k \<le> j \<longrightarrow> l \<le> j" unfolding l_def by (blast intro: Least_le)
  ultimately show ?thesis using l by (intro that [of l]) (auto simp: best_block_def intro: Least_le)
qed

lemma put_same [simp]: "put_order_free a k (bd_free a ! k) = a"
  by (simp add: put_order_free_def)

lemma alloc_inner_none:
  assumes a: "region c n a" and none: "\<And>l q. (l, q) \<in> blocks a \<Longrightarrow> l < k"
  shows "alloc_inner k a = Some (None, a)"
  using none
proof (induction "Suc (bd_max_order a) - k" arbitrary: k)
  case 0
  then show ?case by (subst alloc_inner.simps) simp
next
  case (Suc d)
  then have k: "k \<le> bd_max_order a" by simp
  have ord: "orders_ok c n a" using a by (simp add: region_def)
  have "unset (bd_free a ! k) = {}" using in_blocks [OF ord, of k] k Suc.prems by fastforce
  then have "bm_alloc (bd_free a ! k) = Some (None, bd_free a ! k)"
    using bm_alloc_empty order_bitmap [OF ord k] by blast
  moreover have "alloc_inner (Suc k) a = Some (None, a)"
    by (rule Suc.hyps(1)) (use Suc.hyps(2) Suc.prems in \<open>fastforce+\<close>)
  ultimately show ?case using order_bitmap [OF ord k] k by (subst alloc_inner.simps) (simp add: Let_def)
qed

lemma take_first_block:
  assumes a: "region c n a" and b: "(k, p) \<in> blocks a" and least: "\<And>q. (k, q) \<in> blocks a \<Longrightarrow> p \<le> q"
  shows "\<exists>b'. bm_alloc (bd_free a ! k) = Some (Some p, b')
    \<and> becomes c n a (free_pages a - span k p) (put_order_free a k b')"
proof -
  have ord: "orders_ok c n a" and k: "k \<le> bd_max_order a" and sep: "separate (blocks a)"
    using a b by (auto simp: region_def blocks_ok_def)
  note bm = order_bitmap [OF ord k] and mem = in_blocks [OF ord, of k]
  have "Min (unset (bd_free a ! k)) = p"
    using b least mem k by (intro Min_eqI) auto
  moreover have "unset (bd_free a ! k) \<noteq> {}" using b mem by auto
  ultimately obtain b' where b': "bm_alloc (bd_free a ! k) = Some (Some p, b')" "bitmap_inv b'"
    "size_of b' = n div 2 ^ k" "unset b' = unset (bd_free a ! k) - {p}"
    using bm_alloc_some [OF bm(2)] bm(3) by auto
  note put = put_order_ok [OF ord k b'(2,3) bm_alloc_length [OF b'(1)]]
  have "blocks (put_order_free a k b') = blocks a - {(k, p)}" unfolding put(3) b'(4) using mem k by auto
  then show ?thesis
    using b'(1) put(1,2) a pages_remove [OF sep b] blocks_ok_remove [of "bd_max_order a" n "blocks a" "{(k, p)}"]
    by (simp add: becomes_def region_def free_pages_def same_shape_def)
qed

lemma alloc_inner_some:
  assumes a: "region c n a" and best: "best_block (blocks a) k l p"
  shows "\<exists>a'. alloc_inner k a = Some (Some (p * 2 ^ (l - k)), a')
    \<and> becomes c n a (free_pages a - span k (p * 2 ^ (l - k))) a'"
  using best
proof (induction "l - k" arbitrary: k)
  case 0
  then have "l = k" by (simp add: best_block_def)
  with 0 obtain b' where b': "bm_alloc (bd_free a ! k) = Some (Some p, b')"
    "becomes c n a (free_pages a - span k p) (put_order_free a k b')"
    using take_first_block [OF a, of k p] by (auto simp: best_block_def)
  have "k \<le> bd_max_order a" using a "0.prems" \<open>l = k\<close> by (auto simp: best_block_def region_def blocks_ok_def)
  then show ?case
    using b' order_bitmap [of c n a k] a \<open>l = k\<close> by (subst alloc_inner.simps) (simp add: Let_def region_def)
next
  case (Suc d)
  have ord: "orders_ok c n a" and l: "l \<le> bd_max_order a" and k: "k < l"
    using a Suc by (auto simp: region_def blocks_ok_def best_block_def)
  have kb: "k \<le> bd_max_order a" using l k by simp
  have "(k, q) \<notin> blocks a" for q using Suc.prems k by (force simp: best_block_def)
  then have "unset (bd_free a ! k) = {}" using in_blocks [OF ord, of k] kb by blast
  then have none: "bm_alloc (bd_free a ! k) = Some (None, bd_free a ! k)"
    using bm_alloc_empty order_bitmap [OF ord kb] by blast
  define u where "u = p * 2 ^ (l - Suc k)"
  have "best_block (blocks a) (Suc k) l p" using Suc.prems k by (auto simp: best_block_def)
  moreover have "d = l - Suc k" using Suc.hyps(2) by simp
  ultimately obtain a2 where a2: "alloc_inner (Suc k) a = Some (Some u, a2)"
    "becomes c n a (free_pages a - span (Suc k) u) a2"
    using Suc.hyps(1) [of "Suc k"] unfolding u_def by auto
  have "u div 2 ^ (l - Suc k) = p" by (simp add: u_def)
  then have run: "span (Suc k) u \<subseteq> free_pages a"
    using run_iff_block [of "bd_max_order a" n "blocks a" "Suc k" u] a Suc.prems k l
    by (auto simp: region_def free_pages_def best_block_def)
  have q: "2 * u < n div 2 ^ k" "Suc (2 * u) < n div 2 ^ k"
    using run free_run_bound [OF a] unfolding span_split by blast+
  have ord2: "orders_ok c n a2" and k2: "k \<le> bd_max_order a2"
    using a2(2) kb by (auto simp: becomes_def region_def same_shape_def)
  have gone: "\<not> span k (2 * u) \<subseteq> free_pages a2" "\<not> span k (Suc (2 * u)) \<subseteq> free_pages a2"
    using a2(2) span_nonempty [of k "2 * u"] span_nonempty [of k "Suc (2 * u)"] unfolding becomes_def span_split by blast+
  then have notin: "(k, 2 * u) \<notin> blocks a2" "(k, Suc (2 * u)) \<notin> blocks a2"
    using span_in_pages [of k _ "blocks a2"] by (auto simp only: free_pages_def)
  have dis: "span k (Suc (2 * u)) \<inter> free_pages a2 = {}" using a2(2) unfolding becomes_def span_split by blast
  have "region c n a2" using a2(2) by (simp add: becomes_def)
  from add_block [OF this k2 q(2) dis] notin obtain a3 where a3: "clear_at a2 k (Suc (2 * u)) = Some a3"
    "becomes c n a2 (free_pages a2 \<union> span k (Suc (2 * u))) a3" by auto
  have "span k (2 * u) \<inter> span k (Suc (2 * u)) = {}" by (rule span_disjoint) simp
  then have pages: "free_pages a2 \<union> span k (Suc (2 * u)) = free_pages a - span k (2 * u)"
    using a2(2) run unfolding becomes_def span_split by blast
  have "alloc_inner k a = Some (Some (2 * u), a3)"
    using kb none order_bitmap [OF ord kb] a2(1) a3(1) get_at_ok [OF ord2 k2] q notin
    by (subst alloc_inner.simps) (simp add: Let_def mult.commute [of u])
  moreover have "2 * u = p * 2 ^ (l - k)" using k by (simp add: u_def Suc_diff_Suc [symmetric] del: Suc_diff_Suc)
  ultimately show ?case using a2(2) a3(2) pages by (auto simp: becomes_def intro: same_shape_trans)
qed

text \<open>\<open>alloc\<close> finds an aligned free run whenever there is one.\<close>

lemma alloc_inner_ok:
  assumes a: "region c n a" and k: "k \<le> bd_max_order a"
  shows "(\<exists>p a'. alloc_inner k a = Some (Some p, a') \<and> span k p \<subseteq> free_pages a \<and> becomes c n a (free_pages a - span k p) a')
    \<or> alloc_inner k a = Some (None, a) \<and> (\<forall>p. \<not> span k p \<subseteq> free_pages a)"
proof (cases "\<exists>l q. (l, q) \<in> blocks a \<and> k \<le> l")
  case True
  then obtain l p where best: "best_block (blocks a) k l p" using best_block_exists by metis
  have "p * 2 ^ (l - k) div 2 ^ (l - k) = p" by simp
  then have "span k (p * 2 ^ (l - k)) \<subseteq> free_pages a"
    using run_iff_block [of "bd_max_order a" n "blocks a" k] a k best
    by (auto simp: region_def free_pages_def best_block_def)
  then show ?thesis using alloc_inner_some [OF a best] by blast
next
  case False
  then have "alloc_inner k a = Some (None, a)" by (intro alloc_inner_none [OF a]) (auto simp: not_le)
  moreover have "\<not> span k p \<subseteq> free_pages a" for p
    using run_iff_block [of "bd_max_order a" n "blocks a" k p] a k False by (auto simp: region_def free_pages_def)
  ultimately show ?thesis by blast
qed

end
