(* ===== verification/Buddy_Ops.thy ===== *)
theory Buddy_Ops
  imports Buddy_Spec
begin

text \<open>
  Construction and queries of the buddy allocator: a new allocator has every page free, the counters count free and
  allocated pages, \<open>find_free_order\<close> finds the free block of a page and \<open>trailing_free_pages\<close> is the length of the
  longest free run at the end of the region.
\<close>

definition buddy_inv :: "nat \<Rightarrow> buddy_allocator \<Rightarrow> bool" where
  "buddy_inv c a \<longleftrightarrow> region c (bd_len a) a \<and> bd_max_order a \<le> MAX_MAX_PAGE_ORDER \<and> bd_len a \<le> c \<and> c < 2 ^ 32"

section \<open>Construction\<close>

lemma some_bit_below:
  fixes n :: nat
  assumes "0 < n" and "n < 2 ^ 32"
  shows "\<exists>i < 32. bit n i"
proof (rule ccontr)
  assume "\<not> (\<exists>i < 32. bit n i)"
  then have "take_bit 32 n = 0" by (auto simp: bit_eq_iff bit_take_bit_iff)
  with assms show False by (simp add: take_bit_nat_eq_self)
qed

lemma usable_order:
  assumes "0 < n" and "n < 2 ^ 32"
  shows "\<exists>m. calculate_usable_order n = Some m \<and> m \<le> MAX_MAX_PAGE_ORDER"
proof -
  obtain i where i: "i < 32" "bit n i" using some_bit_below [OF assms] by blast
  have "leading_zeros n \<le> 32"
    using length_takeWhile_le [of "\<lambda>i. \<not> bit n i" "rev [0..<32]"] by (simp add: leading_zeros_def del: upt_Suc)
  moreover have "leading_zeros n \<noteq> 32"
  proof
    assume "leading_zeros n = 32"
    then have "takeWhile (\<lambda>i. \<not> bit n i) (rev [0..<32]) = rev [0..<32]"
      unfolding leading_zeros_def by (subst takeWhile_eq_take) simp
    then have "\<forall>i \<in> set (rev [0..<32]). \<not> bit n i" by (simp only: takeWhile_eq_all_conv)
    with i show False by simp
  qed
  ultimately show ?thesis by (simp add: calculate_usable_order_def)
qed

lemma new_orders_length [simp]: "length (new_orders m n c) = m"
  by (induction m n c rule: new_orders.induct) simp_all

lemma new_orders_nth: "k < m \<Longrightarrow> new_orders m n c ! k = bm_new (n div 2 ^ k) (c div 2 ^ k)"
proof (induction m n c arbitrary: k rule: new_orders.induct)
  case (2 m n c)
  then show ?case by (cases k) (simp_all add: next_higher_order_def div_mult2_eq)
qed simp

lemma new_levels_length: "capacity \<le> 64 ^ h \<Longrightarrow> length (new_levels n capacity) \<le> max 1 h"
proof (induction n capacity arbitrary: h rule: new_levels.induct)
  case (1 n capacity)
  show ?case
  proof (cases "capacity \<le> 64")
    case False
    then obtain h' where h': "h = Suc h'" "h' \<noteq> 0" using 1(2) by (cases h; cases "h - 1") auto
    then have "div_ceil capacity 64 \<le> 64 ^ h'" using 1(2) by (simp add: div_ceil_def)
    then have "length (new_levels (div_ceil n 64) (div_ceil capacity 64)) \<le> max 1 h'" by (rule 1(1) [OF False])
    then show ?thesis using False h' by (subst new_levels.simps) auto
  qed (simp add: new_levels.simps)
qed

lemma bm_new_height: "c < 2 ^ 32 \<Longrightarrow> length (bm_new n c) \<le> 6"
  using new_levels_length [of c 6 n] by (simp add: bm_new_def)

lemma empty_region:
  assumes "n \<le> c" and "c < 2 ^ 32"
  shows "region c n \<lparr>bd_free = new_orders (Suc m) n c, bd_len = n, bd_max_order = m\<rparr>"
    and "free_pages \<lparr>bd_free = new_orders (Suc m) n c, bd_len = n, bd_max_order = m\<rparr> = {}"
proof -
  let ?a = "\<lparr>bd_free = new_orders (Suc m) n c, bd_len = n, bd_max_order = m\<rparr>"
  have "c div 2 ^ k < 2 ^ 32" for k using assms(2) by (rule le_less_trans [OF div_le_dividend])
  note new = bm_new_ok [OF div_le_mono [OF assms(1)] this] bm_new_height [OF this]
  have nth: "bd_free ?a ! k = bm_new (n div 2 ^ k) (c div 2 ^ k)" if "k < Suc m" for k
    using new_orders_nth [OF that] by simp
  have "blocks ?a = {}" unfolding blocks_def using nth new(3) by (auto simp del: new_orders.simps)
  moreover have "orders_ok c n ?a" unfolding orders_ok_def using nth new by (auto simp del: new_orders.simps)
  ultimately show "region c n ?a" "free_pages ?a = {}"
    by (simp_all add: region_def free_pages_def blocks_ok_def separate_def merged_def)
qed

lemma aligned_span: "2 ^ k dvd m \<Longrightarrow> span k (m div 2 ^ k) = {m..<m + 2 ^ k}" for m :: nat
  by (auto simp: span_interval elim!: dvdE)

lemma aligned_fits: "2 ^ k dvd m \<Longrightarrow> m + 2 ^ k \<le> n \<Longrightarrow> m div 2 ^ k < n div 2 ^ k" for m n :: nat
  using aligned_span [of k m] span_below [of k "m div 2 ^ k" n] by auto

text \<open>One order of the marking loop. Below the highest order at most one block is left to mark, and it is an even
  one whose buddy lies beyond the region.\<close>

lemma mark_order_ok:
  assumes "region c n a" and "k \<le> bd_max_order a" and "2 ^ k dvd m" and "m \<le> n" and "free_pages a = {..<m}"
    and "k < bd_max_order a \<Longrightarrow> n < m + 2 ^ Suc k"
    and "k < bd_max_order a \<Longrightarrow> 2 ^ Suc k dvd m \<or> n < m + 2 ^ k"
  shows "\<exists>m' a'. mark_order k n m a = Some (m', a') \<and> becomes c n a {..<m'} a' \<and> 2 ^ k dvd m' \<and> m' \<le> n \<and> n < m' + 2 ^ k"
  using assms
proof (induction k n m a rule: mark_order.induct)
  case (1 k n m a)
  show ?case
  proof (cases "m + 2 ^ k \<le> n")
    case False
    then show ?thesis using "1.prems" by (subst mark_order.simps) (auto simp: becomes_def)
  next
    case True
    note sp = aligned_span [OF "1.prems"(3)]
    have buddy: "(k, buddy_page (m div 2 ^ k)) \<notin> blocks a" if k: "k < bd_max_order a"
    proof
      assume "(k, buddy_page (m div 2 ^ k)) \<in> blocks a"
      then have sub: "span k (buddy_page (m div 2 ^ k)) \<subseteq> {..<m}"
        using span_in_pages "1.prems"(5) by (metis free_pages_def)
      have "2 ^ Suc k dvd m" using "1.prems"(7) [OF k] True by linarith
      then have "even (m div 2 ^ k)" by (auto simp: elim!: dvdE)
      then have "Suc (m div 2 ^ k) * 2 ^ k \<in> span k (buddy_page (m div 2 ^ k))" by (simp add: buddy_page_even)
      then have "Suc (m div 2 ^ k) * 2 ^ k < m" using sub by blast
      then show False using "1.prems"(3) by (auto elim!: dvdE)
    qed
    have "span k (m div 2 ^ k) \<inter> free_pages a = {}" unfolding sp "1.prems"(5) by auto
    from add_block [OF "1.prems"(1,2) aligned_fits [OF "1.prems"(3) True] this buddy]
    obtain a1 where a1: "clear_at a k (m div 2 ^ k) = Some a1" "becomes c n a ({..<m} \<union> {m..<m + 2 ^ k}) a1"
      unfolding sp "1.prems"(5) by blast
    have "{..<m} \<union> {m..<m + 2 ^ k} = {..<m + 2 ^ k}" by auto
    with a1(2) have a1': "region c n a1" "free_pages a1 = {..<m + 2 ^ k}" "same_shape a a1" by (auto simp: becomes_def)
    then have "k \<le> bd_max_order a1" "k < bd_max_order a1 \<Longrightarrow> n < m + 2 ^ k + 2 ^ k"
      "k < bd_max_order a1 \<Longrightarrow> n < m + 2 ^ k + 2 ^ Suc k"
      using "1.prems"(2,6) by (auto simp: same_shape_def)
    then obtain m' a' where "mark_order k n (m + 2 ^ k) a1 = Some (m', a')" "becomes c n a1 {..<m'} a'"
      "2 ^ k dvd m'" "m' \<le> n" "n < m' + 2 ^ k"
      using "1.IH" [OF True, of a1] a1' a1(1) "1.prems"(3) True by (auto simp del: power_Suc)
    then show ?thesis
      using a1(1) a1'(3) True by (subst mark_order.simps) (auto simp: becomes_def intro: same_shape_trans)
  qed
qed

lemma mark_orders_ok:
  assumes "region c n a" and "k \<le> Suc (bd_max_order a)" and "free_pages a = {..<m}" and "m \<le> n"
    and "k \<le> bd_max_order a \<Longrightarrow> 2 ^ k dvd m \<and> n < m + 2 ^ k"
    and "k = Suc (bd_max_order a) \<Longrightarrow> m = 0"
  shows "\<exists>a'. mark_orders (rev [0..<k]) n m a = Some (if k = 0 then m else n, a') \<and> becomes c n a {..<if k = 0 then m else n} a'"
  using assms
proof (induction k arbitrary: a m)
  case 0
  then show ?case by (simp add: becomes_def)
next
  case (Suc k)
  have k: "k \<le> bd_max_order a" using Suc.prems(2) by simp
  have "2 ^ k dvd m" "k < bd_max_order a \<Longrightarrow> n < m + 2 ^ Suc k" "k < bd_max_order a \<Longrightarrow> 2 ^ Suc k dvd m"
    using Suc.prems(5,6) k by (cases "k = bd_max_order a"; auto dest: power_le_dvd)+
  then obtain m' a1 where a1: "mark_order k n m a = Some (m', a1)" "becomes c n a {..<m'} a1" "2 ^ k dvd m'" "m' \<le> n"
    "n < m' + 2 ^ k" using mark_order_ok [OF Suc.prems(1) k _ Suc.prems(4,3)] by blast
  have "\<exists>a'. mark_orders (rev [0..<k]) n m' a1 = Some (if k = 0 then m' else n, a')
      \<and> becomes c n a1 {..<if k = 0 then m' else n} a'"
    by (rule Suc.IH) (use a1 k in \<open>auto simp: becomes_def same_shape_def\<close>)
  moreover have "k = 0 \<Longrightarrow> m' = n" using a1(4,5) by simp
  ultimately show ?case using a1(1,2) by (auto simp: becomes_def intro: same_shape_trans)
qed

lemma buddy_new_ok:
  assumes "n \<le> c" and "0 < c" and "c < 2 ^ 32"
  shows "\<exists>a. buddy_new n c = Some a \<and> buddy_inv c a \<and> bd_len a = n \<and> free_pages a = {..<n}
    \<and> calculate_usable_order c = Some (bd_max_order a)"
proof -
  obtain m where m: "calculate_usable_order c = Some m" "m \<le> MAX_MAX_PAGE_ORDER" using usable_order assms by blast
  let ?a = "\<lparr>bd_free = new_orders (Suc m) n c, bd_len = n, bd_max_order = m\<rparr>"
  obtain a where "mark_orders (rev [0..<Suc m]) n 0 ?a = Some (n, a)" "becomes c n ?a {..<n} a"
    using mark_orders_ok [OF empty_region(1) [OF assms(1,3)], of "Suc m" m 0] empty_region(2) [OF assms(1,3), of m]
    by auto
  then show ?thesis
    using m assms by (simp add: buddy_new_def Let_def buddy_inv_def becomes_def same_shape_def del: new_orders.simps upt_Suc)
qed

section \<open>Queries\<close>

lemma region_bitmap:
  "region c n a \<Longrightarrow> k \<le> bd_max_order a \<Longrightarrow> get_order_free a k = Some (bd_free a ! k) \<and> bitmap_inv (bd_free a ! k)"
  using order_bitmap [of c n a k] by (auto simp: region_def)

lemma blocks_Sigma:
  assumes "region c n a"
  shows "blocks a = Sigma {..bd_max_order a} (\<lambda>k. unset (bd_free a ! k))"
  using assms in_blocks [of c n a] by (auto simp: region_def)

lemma card_free_pages:
  assumes a: "region c n a"
  shows "card (free_pages a) = (\<Sum>k \<le> bd_max_order a. card (unset (bd_free a ! k)) * 2 ^ k)"
proof -
  have fin: "finite (blocks a)" unfolding blocks_Sigma [OF a] by simp
  have sep: "separate (blocks a)" using a by (simp add: region_def blocks_ok_def)
  have dis: "(case x of (k, p) \<Rightarrow> span k p) \<inter> (case y of (k, p) \<Rightarrow> span k p) = {}"
    if "x \<in> blocks a" "y \<in> blocks a" "x \<noteq> y" for x y
    using separate_span [OF sep, of "fst x" "snd x" "fst y" "snd y"] that
    by (cases x; cases y) (auto simp only: fst_conv snd_conv prod.case)
  have "card (free_pages a) = (\<Sum>x \<in> blocks a. card (case x of (k, p) \<Rightarrow> span k p))"
    unfolding free_pages_def pages_UN by (intro card_UN_disjoint fin) (use dis in auto)
  also have "\<dots> = (\<Sum>(k, p) \<in> blocks a. 2 ^ k)" by (intro sum.cong refl) (auto simp: card_span)
  also have "\<dots> = (\<Sum>k \<le> bd_max_order a. \<Sum>p \<in> unset (bd_free a ! k). 2 ^ k)"
    unfolding blocks_Sigma [OF a] by (rule sum.Sigma [symmetric]) auto
  finally show ?thesis by simp
qed

lemma sum_free_ok:
  assumes a: "region c n a" and ks: "\<forall>k \<in> set ks. k \<le> bd_max_order a"
  shows "sum_free ks a s = Some (s + (\<Sum>k \<leftarrow> ks. card (unset (bd_free a ! k)) * 2 ^ k))"
  using ks
proof (induction ks arbitrary: s)
  case (Cons k ks)
  then show ?case using region_bitmap [OF a, of k] by (simp add: count_unset_ok)
qed simp

lemma count_free_pages_ok: "region c n a \<Longrightarrow> count_free_pages a = Some (card (free_pages a))"
  by (simp add: count_free_pages_def sum_free_ok card_free_pages interv_sum_list_conv_sum_set_nat
      atLeast0LessThan lessThan_Suc_atMost del: upt_Suc)

lemma count_allocated_pages_ok:
  assumes a: "region c (bd_len a) a"
  shows "count_allocated_pages a = Some (card ({..<bd_len a} - free_pages a))"
proof -
  have sub: "free_pages a \<subseteq> {..<bd_len a}" by (rule region_pages [OF a])
  then have "card ({..<bd_len a} - free_pages a) = bd_len a - card (free_pages a)"
    by (simp add: card_Diff_subset finite_subset)
  moreover have "card (free_pages a) \<le> bd_len a" using card_mono [OF _ sub] by simp
  ultimately show ?thesis by (simp add: count_allocated_pages_def count_free_pages_ok [OF a])
qed

lemma highest_free_order_ok:
  assumes a: "region c n a"
  shows "highest_free_order a =
    Some (if free_pages a = {} then None else Some (GREATEST k. \<exists>p. (k, p) \<in> blocks a))"
proof -
  have step: "highest_free (rev [0..<m]) a =
      Some (if \<exists>k < m. \<exists>p. (k, p) \<in> blocks a then Some (GREATEST k. k < m \<and> (\<exists>p. (k, p) \<in> blocks a)) else None)"
    if "m \<le> Suc (bd_max_order a)" for m
    using that
  proof (induction m)
    case (Suc m)
    note bm = region_bitmap [OF a, of m]
    have un: "unset (bd_free a ! m) \<noteq> {} \<longleftrightarrow> (\<exists>p. (m, p) \<in> blocks a)"
      using Suc.prems by (auto simp: blocks_Sigma [OF a])
    show ?case
    proof (cases "\<exists>p. (m, p) \<in> blocks a")
      case True
      then have "(GREATEST k. k < Suc m \<and> (\<exists>p. (k, p) \<in> blocks a)) = m" by (intro Greatest_equality) auto
      with True un bm Suc.prems show ?thesis by (auto simp: has_unset_ok)
    next
      case False
      then have "k < Suc m \<and> (\<exists>p. (k, p) \<in> blocks a) \<longleftrightarrow> k < m \<and> (\<exists>p. (k, p) \<in> blocks a)" for k
        by (auto simp: less_Suc_eq)
      with False un bm Suc show ?thesis by (simp add: has_unset_ok)
    qed
  qed simp
  have "k < Suc (bd_max_order a)" if "(k, p) \<in> blocks a" for k p using that by (auto simp: blocks_Sigma [OF a])
  then have "k < Suc (bd_max_order a) \<and> (\<exists>p. (k, p) \<in> blocks a) \<longleftrightarrow> (\<exists>p. (k, p) \<in> blocks a)" for k by blast
  moreover have "free_pages a = {} \<longleftrightarrow> \<not> (\<exists>k p. (k, p) \<in> blocks a)"
    by (auto simp: free_pages_def pages_UN)
  ultimately show ?thesis unfolding highest_free_order_def using step [of "Suc (bd_max_order a)"] by auto
qed

text \<open>The order of the free block that holds a page.\<close>

lemma free_order_of_ok:
  assumes a: "region c n a" and x: "j + d = Suc (bd_max_order a)"
  shows "\<exists>r. free_order_of [j..<Suc (bd_max_order a)] a (x div 2 ^ j) = Some r
    \<and> (case r of Some k \<Rightarrow> (k, x div 2 ^ k) \<in> blocks a | None \<Rightarrow> \<forall>k \<ge> j. (k, x div 2 ^ k) \<notin> blocks a)"
  using x
proof (induction d arbitrary: j)
  case 0
  then show ?case by (auto simp: blocks_Sigma [OF a])
next
  case (Suc d)
  have j: "j \<le> bd_max_order a" and ord: "orders_ok c n a" using Suc.prems a by (auto simp: region_def)
  obtain r where r: "free_order_of [Suc j..<Suc (bd_max_order a)] a (x div 2 ^ Suc j) = Some r"
    "case r of Some k \<Rightarrow> (k, x div 2 ^ k) \<in> blocks a | None \<Rightarrow> \<forall>k \<ge> Suc j. (k, x div 2 ^ k) \<notin> blocks a"
    using Suc.IH [of "Suc j"] Suc.prems by auto
  have "(j, x div 2 ^ j) \<in> blocks a \<Longrightarrow> x div 2 ^ j < n div 2 ^ j" using a by (auto simp: region_def blocks_ok_def)
  then have "(if x div 2 ^ j < n div 2 ^ j then map_option Not (get_at a j (x div 2 ^ j)) else Some False)
      = Some ((j, x div 2 ^ j) \<in> blocks a)" using get_at_ok [OF ord j] by auto
  then have eq: "free_order_of [j..<Suc (bd_max_order a)] a (x div 2 ^ j)
      = (if (j, x div 2 ^ j) \<in> blocks a then Some (Some j) else Some r)"
    using len_at_ok [OF ord j] r(1) upt_conv_Cons [of j "Suc (bd_max_order a)"] j
    by (simp add: next_higher_order_def div_power_Suc del: upt_Suc power_Suc)
  have "\<forall>k \<ge> j. (k, x div 2 ^ k) \<notin> blocks a" if "\<forall>k \<ge> Suc j. (k, x div 2 ^ k) \<notin> blocks a" "(j, x div 2 ^ j) \<notin> blocks a"
    using that by (metis Suc_leI le_neq_implies_less)
  with eq r(2) show ?case by (auto split: option.splits)
qed

lemma find_free_order_ok:
  assumes "region c n a"
  shows "find_free_order a x = Some None \<and> x \<notin> free_pages a
    \<or> (\<exists>k. find_free_order a x = Some (Some k) \<and> (k, x div 2 ^ k) \<in> blocks a)"
  using free_order_of_ok [OF assms, of 0 "Suc (bd_max_order a)" x]
  by (auto simp: find_free_order_def free_pages_def simp del: upt_Suc split: option.splits)

section \<open>Trailing free pages\<close>

lemma trailing_loop_ok:
  assumes "region c n a" and "x < n" and "{x<..<n} \<subseteq> free_pages a" and "f = n - Suc x"
    and "Suc x = n \<or> (\<exists>k q. (k, q) \<in> blocks a \<and> q * 2 ^ k = Suc x)"
  shows "\<exists>t. trailing_loop a x f = Some t \<and> t \<le> n \<and> {n - t..<n} \<subseteq> free_pages a \<and> (t < n \<longrightarrow> n - Suc t \<notin> free_pages a)"
  using assms
proof (induction a x f rule: trailing_loop.induct)
  case (1 a x f)
  consider (none) "find_free_order a x = Some None" "x \<notin> free_pages a"
    | (some) k where "find_free_order a x = Some (Some k)" "(k, x div 2 ^ k) \<in> blocks a"
    using find_free_order_ok [OF "1.prems"(1)] by blast
  then show ?case
  proof cases
    case none
    moreover have "{n - f..<n} \<subseteq> free_pages a" "n - Suc f = x" "f \<le> n" using "1.prems"(2-4) by auto
    ultimately show ?thesis by (subst trailing_loop.simps) simp
  next
    case some
    let ?q = "x div 2 ^ k"
    have sub: "span k ?q \<subseteq> free_pages a" using span_in_pages [OF some(2)] by (simp only: free_pages_def)
    have "Suc x \<notin> span k ?q"
    proof
      assume s: "Suc x \<in> span k ?q"
      from "1.prems"(5) show False
      proof
        assume "Suc x = n"
        then show False using s sub region_pages [OF "1.prems"(1)] by auto
      next
        assume "\<exists>l q. (l, q) \<in> blocks a \<and> q * 2 ^ l = Suc x"
        then obtain l q where lq: "(l, q) \<in> blocks a" "q * 2 ^ l = Suc x" by blast
        then have "Suc x \<in> span l q" using first_in_span [of q l] by simp
        with s have "k = l \<and> ?q = q"
          using separate_span [of "blocks a" k ?q l q] some(2) lq(1) "1.prems"(1)
          by (auto simp only: region_def blocks_ok_def)
        moreover have "?q * 2 ^ k \<le> x" by (rule div_times_less_eq_dividend)
        ultimately show False using lq(2) by (metis Suc_n_not_le_n)
      qed
    qed
    moreover have "x \<in> span k ?q" by simp
    ultimately have last: "Suc x = (?q + 1) * 2 ^ k"
      unfolding span_interval atLeastLessThan_iff by linarith
    have blk: "span k ?q = {Suc x - 2 ^ k..<Suc x}" unfolding span_interval last by simp
    have le: "2 ^ k \<le> Suc x" unfolding last by simp
    have more: "{Suc x - 2 ^ k..<n} \<subseteq> free_pages a"
    proof
      fix y
      assume "y \<in> {Suc x - 2 ^ k..<n}"
      then have "y \<in> span k ?q \<or> y \<in> {x<..<n}" unfolding blk by auto
      then show "y \<in> free_pages a" using sub "1.prems"(3) by blast
    qed
    show ?thesis
    proof (cases "2 ^ k > x")
      case True
      then have "f + 2 ^ k = n" using le "1.prems"(2,4) by simp
      then show ?thesis using True some(1) more le by (subst trailing_loop.simps) auto
    next
      case False
      let ?x = "x - 2 ^ k"
      have pos: "0 < (2 :: nat) ^ k" by simp
      have sx: "Suc ?x = Suc x - 2 ^ k" using False by simp
      have "{?x<..<n} \<subseteq> free_pages a" using more sx by auto
      moreover have "?x < n" "f + 2 ^ k = n - Suc ?x" using False "1.prems"(2,4) pos by auto
      moreover have "?q * 2 ^ k = Suc ?x" unfolding sx last by simp
      ultimately have "\<exists>t. trailing_loop a ?x (f + 2 ^ k) = Some t \<and> t \<le> n \<and> {n - t..<n} \<subseteq> free_pages a
          \<and> (t < n \<longrightarrow> n - Suc t \<notin> free_pages a)"
        using "1.IH" [of "Some k" k] False some "1.prems"(1) by auto
      then show ?thesis using False some(1) by (subst trailing_loop.simps) simp
    qed
  qed
qed

lemma trailing_free_pages_ok:
  assumes "region c (bd_len a) a" and "0 < bd_len a"
  shows "\<exists>t. trailing_free_pages a = Some t \<and> t \<le> bd_len a \<and> {bd_len a - t..<bd_len a} \<subseteq> free_pages a
    \<and> (t < bd_len a \<longrightarrow> bd_len a - Suc t \<notin> free_pages a)"
proof -
  have "{bd_len a - 1<..<bd_len a} = {}" by auto
  then show ?thesis
    using trailing_loop_ok [OF assms(1), of "bd_len a - 1" 0] assms(2) by (simp add: trailing_free_pages_def)
qed

end
