(* ===== verification/Buddy_Lowest.thy ===== *)
theory Buddy_Lowest
  imports Buddy_Ops
begin

text \<open>
  \<open>alloc_lowest\<close> returns the lowest aligned run of free pages of the requested order. The search holds one block at a
  time, the start of a block that was free before the call; it allocates a candidate at every higher order and
  gives back the worse of the two.
\<close>

section \<open>Blocks while one is held\<close>

lemma block_order: "region c n a \<Longrightarrow> (l, r) \<in> blocks a \<Longrightarrow> l \<le> bd_max_order a"
  by (simp add: region_def blocks_ok_def)

lemma span_start: "j \<le> K \<Longrightarrow> span j (P * 2 ^ (K - j)) \<subseteq> span K P"
  using span_subset [of j K "P * 2 ^ (K - j)"] by simp

lemma start_page: "j \<le> K \<Longrightarrow> P * 2 ^ (K - j) * 2 ^ j = P * 2 ^ K" for P :: nat
  by (simp add: mult.assoc flip: power_add)

lemma start_in_span: "j \<le> K \<Longrightarrow> P * 2 ^ K \<in> span j (P * 2 ^ (K - j))"
  using first_in_span [of "P * 2 ^ (K - j)" j] by (simp only: start_page)

lemma held_keeps:
  assumes B: "blocks_ok m n B" and B1: "blocks_ok m n B1" and P: "(K, P) \<in> B" and j: "j \<le> K"
    and F: "pages B1 = pages B - span j (P * 2 ^ (K - j))"
    and b: "(l, r) \<in> B" "(l, r) \<noteq> (K, P)"
  shows "(l, r) \<in> B1"
proof -
  have "span l r \<inter> span K P = {}"
    using separate_span [of B l r K P] B b P by (auto simp only: blocks_ok_def prod.inject)
  then have "span l r \<subseteq> pages B1" using span_in_pages [OF b(1)] span_start [OF j, of P] unfolding F by blast
  moreover have "l \<le> m" "l < m \<Longrightarrow> \<not> span (Suc l) (r div 2) \<subseteq> pages B"
    using b(1) blocks_determined [OF B] by (auto simp: maximal_runs_def)
  ultimately have "(l, r) \<in> maximal_runs m (pages B1)" unfolding F by (auto simp: maximal_runs_def)
  then show ?thesis using blocks_determined [OF B1] by simp
qed

lemma held_others:
  assumes B: "blocks_ok m n B" and B1: "blocks_ok m n B1" and P: "(K, P) \<in> B" and j: "j \<le> K"
    and F: "pages B1 = pages B - span j (P * 2 ^ (K - j))"
    and b: "(l, r) \<in> B1"
  shows "(l, r) \<in> B \<or> P * 2 ^ K < r * 2 ^ l"
proof -
  have sub: "span l r \<subseteq> pages B1" by (rule span_in_pages [OF b])
  have "l \<le> m" using b B1 by (auto simp: blocks_ok_def)
  then obtain k where k: "l \<le> k" "(k, r div 2 ^ (k - l)) \<in> B"
    using run_in_block [OF B, of l r] sub unfolding F by blast
  show ?thesis
  proof (cases "(k, r div 2 ^ (k - l)) = (K, P)")
    case False
    then have "(k, r div 2 ^ (k - l)) \<in> B1" using held_keeps [OF B B1 P j F k(2)] by blast
    moreover have "span l r \<inter> span k (r div 2 ^ (k - l)) \<noteq> {}"
      using span_subset [OF k(1), of r] span_nonempty [of l r] by (metis Int_absorb2)
    ultimately have "l = k \<and> r = r div 2 ^ (k - l)"
      using separate_span [of B1 l r k "r div 2 ^ (k - l)"] b B1 by (metis blocks_ok_def)
    then show ?thesis using k(2) by simp
  next
    case True
    then have "r * 2 ^ l \<in> span K P" using span_subset [OF k(1), of r] first_in_span [of r l] by (metis prod.inject subsetD)
    then have "P * 2 ^ K \<le> r * 2 ^ l" unfolding span_interval by simp
    moreover have "r * 2 ^ l \<noteq> P * 2 ^ K"
      using sub first_in_span [of r l] start_in_span [OF j, of P] unfolding F by (metis DiffD2 subsetD)
    ultimately show ?thesis by simp
  qed
qed

section \<open>The search\<close>

text \<open>\<open>held a0 k K P j a\<close>: starting from \<open>a0\<close>, the first run of order \<open>j\<close> in the block \<open>(K, P)\<close> is allocated.\<close>

definition held :: "nat \<Rightarrow> nat \<Rightarrow> buddy_allocator \<Rightarrow> nat \<Rightarrow> nat \<Rightarrow> nat \<Rightarrow> nat \<Rightarrow> buddy_allocator \<Rightarrow> bool" where
  "held c n a0 k K P j a \<longleftrightarrow> becomes c n a0 (free_pages a0 - span j (P * 2 ^ (K - j))) a
     \<and> (K, P) \<in> blocks a0 \<and> k \<le> j \<and> j \<le> K"

lemma held_blocks:
  assumes a0: "region c n a0" and h: "held c n a0 k K P j a"
  shows "(l, r) \<in> blocks a0 \<Longrightarrow> (l, r) \<noteq> (K, P) \<Longrightarrow> (l, r) \<in> blocks a"
    and "(l, r) \<in> blocks a \<Longrightarrow> (l, r) \<in> blocks a0 \<or> P * 2 ^ K < r * 2 ^ l"
proof -
  have "blocks_ok (bd_max_order a0) n (blocks a0)" "blocks_ok (bd_max_order a0) n (blocks a)" "(K, P) \<in> blocks a0" "j \<le> K"
    "pages (blocks a) = pages (blocks a0) - span j (P * 2 ^ (K - j))"
    using a0 h by (auto simp: held_def becomes_def region_def same_shape_def free_pages_def)
  note ok = this
  show "(l, r) \<in> blocks a0 \<Longrightarrow> (l, r) \<noteq> (K, P) \<Longrightarrow> (l, r) \<in> blocks a" by (rule held_keeps [OF ok])
  show "(l, r) \<in> blocks a \<Longrightarrow> (l, r) \<in> blocks a0 \<or> P * 2 ^ K < r * 2 ^ l" by (rule held_others [OF ok])
qed

lemma block_run: "region c n a \<Longrightarrow> (K, P) \<in> blocks a \<Longrightarrow> k \<le> K \<Longrightarrow> span k (P * 2 ^ (K - k)) \<subseteq> free_pages a"
  using span_start [of k K P] span_in_pages [of K P "blocks a"] by (auto simp only: free_pages_def)

lemma release_held:
  assumes a0: "region c n a0" and a: "becomes c n a0 (free_pages a0 - span j p - S) a" and run: "span j p \<subseteq> free_pages a0"
    and dis: "span j p \<inter> S = {}" and j: "j \<le> bd_max_order a0"
  shows "\<exists>a'. free_inner p j a = Some a' \<and> becomes c n a0 (free_pages a0 - S) a'"
proof -
  have "free_pages a = free_pages a0 - span j p - S" and r: "region c n a" and sh: "same_shape a0 a"
    using a by (auto simp: becomes_def)
  then have "span j p \<inter> free_pages a = {}" by blast
  then obtain a' where "free_inner p j a = Some a'" "becomes c n a (free_pages a \<union> span j p) a'"
    using free_inner_ok [OF r, of j p] j free_run_bound [OF a0 run] sh by (auto simp: same_shape_def)
  moreover have "free_pages a \<union> span j p = free_pages a0 - S"
    using \<open>free_pages a = _\<close> run dis by blast
  ultimately show ?thesis using sh by (auto simp: becomes_def intro: same_shape_trans)
qed

text \<open>One order of the search: the block held afterwards is the better of the one held before and the candidate.\<close>

lemma search_step:
  assumes a0: "region c n a0" and h: "held c n a0 k K P j a" and i: "j < i" "i \<le> bd_max_order a0"
  shows "\<exists>K' P' j' a'. held c n a0 k K' P' j' a' \<and> j' < Suc i
    \<and> (\<forall>is. lowest_loop (i # is) (2 ^ (i - k)) (P * 2 ^ (K - k)) (P * 2 ^ (K - j), j) a
          = lowest_loop is (2 ^ (i - k) * 2) (P' * 2 ^ (K' - k)) (P' * 2 ^ (K' - j'), j') a')
    \<and> P' * 2 ^ (K' - k) \<le> P * 2 ^ (K - k)
    \<and> (\<forall>r. (i, r) \<in> blocks a0 \<longrightarrow> P' * 2 ^ (K' - k) \<le> r * 2 ^ (i - k))"
proof -
  have a: "region c n a" and Fa: "free_pages a = free_pages a0 - span j (P * 2 ^ (K - j))" and sh: "same_shape a0 a"
    and KP: "(K, P) \<in> blocks a0" and kj: "k \<le> j" "j \<le> K" using h by (auto simp: held_def becomes_def)
  have own: "P * 2 ^ (K - k) \<le> r * 2 ^ (i - k)" if "(i, r) \<in> blocks a0" "(i, r) \<notin> blocks a" for r
    using held_blocks(1) [OF a0 h, of i r] that by auto
  show ?thesis
  proof (cases "\<exists>l q. (l, q) \<in> blocks a \<and> i \<le> l")
    case False
    then have "alloc_inner i a = Some (None, a)" by (intro alloc_inner_none [OF a]) (auto simp: not_le)
    then show ?thesis
      using h i False own by - (rule exI [of _ K], rule exI [of _ P], rule exI [of _ j], rule exI [of _ a], auto)
  next
    case True
    then obtain L R where best: "best_block (blocks a) i L R" using best_block_exists by metis
    define x where "x = R * 2 ^ (L - i)"
    have L: "i \<le> L" "(L, R) \<in> blocks a" using best by (auto simp: best_block_def)
    have x_at: "x * 2 ^ (i - k) = R * 2 ^ (L - k)"
      using L(1) i kj by (simp add: x_def mult.assoc flip: power_add)
    have least: "R * 2 ^ (L - k) \<le> r * 2 ^ (i - k)" if "(i, r) \<in> blocks a" for r
      using best that L(1) by (auto simp: best_block_def)
    obtain a1 where a1: "alloc_inner i a = Some (Some x, a1)" "becomes c n a (free_pages a - span i x) a1"
      using alloc_inner_some [OF a best] by (auto simp: x_def)
    have xa: "span i x \<subseteq> free_pages a" using block_run [OF a L(2,1)] by (simp add: x_def)
    then have dis: "span j (P * 2 ^ (K - j)) \<inter> span i x = {}" unfolding Fa by blast
    have run: "span j (P * 2 ^ (K - j)) \<subseteq> free_pages a0" by (rule block_run [OF a0 KP kj(2)])
    show ?thesis
    proof (cases "x * 2 ^ (i - k) < P * 2 ^ (K - k)")
      case less: True
      have "R * 2 ^ L < P * 2 ^ K"
        using less x_at mult_strict_right_mono [of "R * 2 ^ (L - k)" "P * 2 ^ (K - k)" "2 ^ k"]
          start_page [of k L R] start_page [of k K P] L(1) i kj by simp
      then have LR: "(L, R) \<in> blocks a0" using held_blocks(2) [OF a0 h L(2)] by simp
      have "becomes c n a0 (free_pages a0 - span j (P * 2 ^ (K - j)) - span i x) a1"
        using a1(2) sh unfolding Fa becomes_def by (blast intro: same_shape_trans)
      from release_held [OF a0 this run dis] obtain a2 where
        a2: "free_inner (P * 2 ^ (K - j)) j a1 = Some a2" "becomes c n a0 (free_pages a0 - span i x) a2" using i by auto
      have "held c n a0 k L R i a2" using a2(2) LR L i kj by (simp add: held_def x_def)
      moreover have "lowest_loop (i # is) (2 ^ (i - k)) (P * 2 ^ (K - k)) (P * 2 ^ (K - j), j) a
          = lowest_loop is (2 ^ (i - k) * 2) (R * 2 ^ (L - k)) (x, i) a2" for "is"
        using a1(1) less a2(1) by (simp add: x_at Let_def)
      moreover have "R * 2 ^ (L - k) \<le> r * 2 ^ (i - k)" if "(i, r) \<in> blocks a0" for r
        using that least own less x_at by fastforce
      ultimately show ?thesis
        using less unfolding x_at
        by - (rule exI [of _ L], rule exI [of _ R], rule exI [of _ i], rule exI [of _ a2],
          simp add: x_def del: lowest_loop.simps)
    next
      case False
      have r1: "region c n a1" and sh1: "same_shape a a1" and F1: "free_pages a1 = free_pages a - span i x"
        using a1(2) by (auto simp: becomes_def)
      have "becomes c n a (free_pages a - span i x - {}) a1" using a1(2) by simp
      from release_held [OF a this xa] obtain a2 where a2: "free_inner x i a1 = Some a2" "becomes c n a (free_pages a) a2"
        using i sh by (auto simp: same_shape_def)
      have "held c n a0 k K P j a2" using h a2(2) by (auto simp: held_def becomes_def intro: same_shape_trans)
      moreover have "lowest_loop (i # is) (2 ^ (i - k)) (P * 2 ^ (K - k)) (P * 2 ^ (K - j), j) a
          = lowest_loop is (2 ^ (i - k) * 2) (P * 2 ^ (K - k)) (P * 2 ^ (K - j), j) a2" for "is"
        using a1(1) False a2(1) by (simp add: Let_def)
      moreover have "P * 2 ^ (K - k) \<le> r * 2 ^ (i - k)" if "(i, r) \<in> blocks a0" for r
        using that least own False x_at by fastforce
      ultimately show ?thesis
        using i by - (rule exI [of _ K], rule exI [of _ P], rule exI [of _ j], rule exI [of _ a2],
          simp del: lowest_loop.simps)
    qed
  qed
qed

lemma lowest_search_ok:
  assumes a0: "region c n a0" and h: "held c n a0 k K P j a" and j: "j < i" and i: "i \<le> Suc (bd_max_order a0)"
    and below: "\<And>l r. (l, r) \<in> blocks a0 \<Longrightarrow> k \<le> l \<Longrightarrow> l < i \<Longrightarrow> P * 2 ^ (K - k) \<le> r * 2 ^ (l - k)"
  shows "\<exists>K' P' j' a'. lowest_loop [i..<Suc (bd_max_order a0)] (2 ^ (i - k)) (P * 2 ^ (K - k)) (P * 2 ^ (K - j), j) a
      = Some (P' * 2 ^ (K' - k), (P' * 2 ^ (K' - j'), j'), a')
    \<and> held c n a0 k K' P' j' a' \<and> (\<forall>l r. (l, r) \<in> blocks a0 \<longrightarrow> k \<le> l \<longrightarrow> P' * 2 ^ (K' - k) \<le> r * 2 ^ (l - k))"
  using h j i below
proof (induction "Suc (bd_max_order a0) - i" arbitrary: i K P j a)
  case 0
  have "l < i" if "(l, r) \<in> blocks a0" for l r
    using block_order [OF a0 that] "0.hyps" by simp
  then show ?case
    using 0 by - (rule exI [of _ K], rule exI [of _ P], rule exI [of _ j], rule exI [of _ a], auto simp del: upt_Suc)
next
  case (Suc d)
  have i: "i \<le> bd_max_order a0" and kj: "k \<le> j" using Suc by (auto simp: held_def)
  from search_step [OF a0 Suc.prems(1,2) i] obtain K1 P1 j1 a1 where
    h1: "held c n a0 k K1 P1 j1 a1" "j1 < Suc i" and
    eq: "\<And>is. lowest_loop (i # is) (2 ^ (i - k)) (P * 2 ^ (K - k)) (P * 2 ^ (K - j), j) a
          = lowest_loop is (2 ^ (i - k) * 2) (P1 * 2 ^ (K1 - k)) (P1 * 2 ^ (K1 - j1), j1) a1" and
    le: "P1 * 2 ^ (K1 - k) \<le> P * 2 ^ (K - k)" and
    at: "\<And>r. (i, r) \<in> blocks a0 \<Longrightarrow> P1 * 2 ^ (K1 - k) \<le> r * 2 ^ (i - k)" by blast
  have below: "P1 * 2 ^ (K1 - k) \<le> r * 2 ^ (l - k)" if "(l, r) \<in> blocks a0" "k \<le> l" "l < Suc i" for l r
  proof (cases "l = i")
    case False
    then show ?thesis using order_trans [OF le Suc.prems(4) [OF that(1,2)]] that(3) by simp
  qed (use that at in simp)
  have pow: "2 ^ (i - k) * 2 = (2 :: nat) ^ (Suc i - k)" using Suc.prems(2) kj by (simp add: Suc_diff_le)
  have "[i..<Suc (bd_max_order a0)] = i # [Suc i..<Suc (bd_max_order a0)]" using i by (simp add: upt_conv_Cons del: upt_Suc)
  moreover have "d = Suc (bd_max_order a0) - Suc i" using Suc.hyps(2) by simp
  ultimately show ?case
    using Suc.hyps(1) [of "Suc i" K1 P1 j1 a1] h1 below i by (simp only: eq pow)
qed

section \<open>The split\<close>

lemma split_down_ok:
  assumes a0: "region c n a0" and h: "held c n a0 k K P j a"
  shows "\<exists>a'. split_down k (P * 2 ^ (K - j), j) a = Some (P * 2 ^ (K - k), a') \<and> held c n a0 k K P k a'"
  using h
proof (induction "j - k" arbitrary: j a)
  case 0
  then have "j = k" by (auto simp: held_def)
  with 0 show ?case by (subst split_down.simps) simp
next
  case (Suc d)
  have a: "region c n a" and Fa: "free_pages a = free_pages a0 - span j (P * 2 ^ (K - j))" and sh: "same_shape a0 a"
    and KP: "(K, P) \<in> blocks a0" and kj: "k < j" "j \<le> K" using Suc by (auto simp: held_def becomes_def)
  define l u where "l = j - 1" and "u = P * 2 ^ (K - j)"
  have j: "j = Suc l" using kj by (simp add: l_def)
  have lm: "l \<le> bd_max_order a" using block_order [OF a0 KP] kj j sh by (simp add: same_shape_def)
  have run: "span (Suc l) u \<subseteq> free_pages a0" using block_run [OF a0 KP kj(2)] by (simp add: u_def j)
  have q: "2 * u < n div 2 ^ l" "Suc (2 * u) < n div 2 ^ l"
    using run free_run_bound [OF a0] unfolding span_split by blast+
  have Fl: "free_pages a = free_pages a0 - span (Suc l) u" using Fa by (simp only: u_def j)
  have "\<not> span l (2 * u) \<subseteq> free_pages a" "\<not> span l (Suc (2 * u)) \<subseteq> free_pages a"
    using span_nonempty [of l "2 * u"] span_nonempty [of l "Suc (2 * u)"] unfolding Fl span_split by blast+
  then have notin: "(l, 2 * u) \<notin> blocks a" "(l, Suc (2 * u)) \<notin> blocks a"
    using span_in_pages [of l _ "blocks a"] by (auto simp only: free_pages_def)
  have "span l (Suc (2 * u)) \<inter> free_pages a = {}" unfolding Fl span_split by blast
  from add_block [OF a lm q(2) this] notin obtain a1 where a1: "clear_at a l (Suc (2 * u)) = Some a1"
    "becomes c n a (free_pages a \<union> span l (Suc (2 * u))) a1" by auto
  have u2: "2 * u = P * 2 ^ (K - l)" using kj j by (simp add: u_def Suc_diff_Suc [symmetric] del: Suc_diff_Suc)
  have "span l (2 * u) \<inter> span l (Suc (2 * u)) = {}" by (rule span_disjoint) simp
  then have "free_pages a \<union> span l (Suc (2 * u)) = free_pages a0 - span l (P * 2 ^ (K - l))"
    using run unfolding Fl span_split u2 [symmetric] by blast
  then have "held c n a0 k K P l a1"
    using a1(2) sh KP kj j by (auto simp: held_def becomes_def intro: same_shape_trans)
  moreover have "d = l - k" using Suc.hyps(2) j by simp
  ultimately obtain a' where "split_down k (P * 2 ^ (K - l), l) a1 = Some (P * 2 ^ (K - k), a')" "held c n a0 k K P k a'"
    using Suc.hyps(1) by blast
  moreover have "split_down k (u, j) a = split_down k (2 * u, l) a1"
    using kj j a1(1) q notin get_at_ok [of c n a l] a lm
    by (subst split_down.simps) (simp add: Let_def region_def mult.commute [of u])
  ultimately show ?case unfolding u2 by (simp add: u_def)
qed

section \<open>Result\<close>

lemma alloc_lowest_none:
  assumes a: "region c n a" and k: "k \<le> bd_max_order a" and none: "\<And>p. \<not> span k p \<subseteq> free_pages a"
  shows "alloc_lowest k a = Some (None, a)"
  using alloc_inner_ok [OF a k] none by (auto simp: alloc_lowest_def)

lemma alloc_lowest_some:
  assumes a: "region c n a" and k: "k \<le> bd_max_order a" and run: "span k p0 \<subseteq> free_pages a"
  shows "\<exists>p a'. alloc_lowest k a = Some (Some p, a') \<and> span k p \<subseteq> free_pages a
    \<and> becomes c n a (free_pages a - span k p) a' \<and> (\<forall>q. span k q \<subseteq> free_pages a \<longrightarrow> p \<le> q)"
proof -
  have ok: "blocks_ok (bd_max_order a) n (blocks a)" using a by (simp add: region_def)
  obtain l where "k \<le> l" "(l, p0 div 2 ^ (l - k)) \<in> blocks a" using run_in_block [OF ok k] run by (auto simp only: free_pages_def)
  then obtain K P where best: "best_block (blocks a) k K P" using best_block_exists by blast
  from alloc_inner_some [OF a this] obtain a1 where a1: "alloc_inner k a = Some (Some (P * 2 ^ (K - k)), a1)"
    "becomes c n a (free_pages a - span k (P * 2 ^ (K - k))) a1" by blast
  have "held c n a k K P k a1" using a1(2) best by (simp add: held_def best_block_def)
  moreover have "P * 2 ^ (K - k) \<le> r * 2 ^ (l - k)" if "(l, r) \<in> blocks a" "k \<le> l" "l < Suc k" for l r
  proof -
    have l: "l = k" using that by simp
    with best that have "K = k" by (auto simp: best_block_def)
    with best that l show ?thesis by (simp add: best_block_def)
  qed
  ultimately obtain K' P' j' a2 where
    loop: "lowest_loop [Suc k..<Suc (bd_max_order a)] (2 ^ (Suc k - k)) (P * 2 ^ (K - k)) (P * 2 ^ (K - k), k) a1
      = Some (P' * 2 ^ (K' - k), (P' * 2 ^ (K' - j'), j'), a2)" and h: "held c n a k K' P' j' a2" and
    least: "\<forall>l r. (l, r) \<in> blocks a \<longrightarrow> k \<le> l \<longrightarrow> P' * 2 ^ (K' - k) \<le> r * 2 ^ (l - k)"
    using lowest_search_ok [OF a, of k K P k a1 "Suc k"] k by (auto simp del: upt_Suc)
  from split_down_ok [OF a h] obtain a3 where
    split: "split_down k (P' * 2 ^ (K' - j'), j') a2 = Some (P' * 2 ^ (K' - k), a3)" "held c n a k K' P' k a3" by blast
  have "P' * 2 ^ (K' - k) \<le> q" if q: "span k q \<subseteq> free_pages a" for q
  proof -
    obtain l where l: "k \<le> l" "(l, q div 2 ^ (l - k)) \<in> blocks a"
      using run_in_block [OF ok k] q by (auto simp only: free_pages_def)
    then have "P' * 2 ^ (K' - k) \<le> q div 2 ^ (l - k) * 2 ^ (l - k)" using least by blast
    also have "\<dots> \<le> q" by (rule div_times_less_eq_dividend)
    finally show ?thesis .
  qed
  moreover have "span k (P' * 2 ^ (K' - k)) \<subseteq> free_pages a"
    using split(2) by (intro block_run [OF a]) (auto simp: held_def)
  moreover have "alloc_lowest k a = Some (Some (P' * 2 ^ (K' - k)), a3)"
    using a1(1) loop split(1) by (simp add: alloc_lowest_def del: upt_Suc)
  ultimately show ?thesis using split(2) by (auto simp: held_def)
qed

end
