(* ===== verification/Buddy_Resize.thy ===== *)
theory Buddy_Resize
  imports Buddy_Ops
begin

text \<open>
  The consistency check never fails on a region, and resizing adds free pages at the end of a region or cuts off free
  ones. Both directions walk over the changed pages in blocks as large as their alignment permits; the locale
  \<open>block_walk\<close> proves the walk once.
\<close>

section \<open>The consistency check\<close>

lemma check_page_ok:
  assumes a: "region c n a" and j: "j + d = Suc (bd_max_order a)"
    and found: "found \<Longrightarrow> \<forall>k \<ge> j. (k, x div 2 ^ k) \<notin> blocks a"
  shows "check_page [j..<Suc (bd_max_order a)] a (x div 2 ^ j) found = Some ()"
  using j found
proof (induction d arbitrary: j found)
  case (Suc d)
  have le: "j \<le> bd_max_order a" and ord: "orders_ok c n a" using Suc.prems a by (auto simp: region_def)
  have sep: "separate (blocks a)" using a by (simp add: region_def blocks_ok_def)
  show ?case
  proof (cases "n div 2 ^ j \<le> x div 2 ^ j")
    case True
    then show ?thesis
      using len_at_ok [OF ord le] upt_conv_Cons [of j "Suc (bd_max_order a)"] le by (simp del: upt_Suc)
  next
    case False
    let ?here = "(j, x div 2 ^ j) \<in> blocks a"
    have "\<forall>k \<ge> Suc j. (k, x div 2 ^ k) \<notin> blocks a" if "found \<or> ?here"
      using that Suc.prems(2) sep unfolding separate_def by (metis Suc_n_not_le_n Suc_leD)
    then have "check_page [Suc j..<Suc (bd_max_order a)] a (x div 2 ^ Suc j) (found \<or> ?here) = Some ()"
      using Suc.IH [of "Suc j" "found \<or> ?here"] Suc.prems(1) by auto
    moreover have "?here \<Longrightarrow> \<not> found" using Suc.prems(2) by auto
    ultimately show ?thesis
      using False len_at_ok [OF ord le] get_at_ok [OF ord le] upt_conv_Cons [of j "Suc (bd_max_order a)"] le
      by (auto simp: next_higher_order_def div_power_Suc not_le simp del: upt_Suc power_Suc)
  qed
qed simp

lemma debug_check_ok:
  assumes a: "region c (bd_len a) a"
  shows "debug_check_consistency a = Some ()"
proof -
  have ord: "orders_ok c (bd_len a) a" using a by (simp add: region_def)
  have "check_pages ps a = Some ()" for ps
    using check_page_ok [OF a, of 0 "Suc (bd_max_order a)" False] by (induction ps) (auto simp del: upt_Suc)
  moreover have "check_buddy a k p = Some ()" if "k < bd_max_order a" "p < bd_len a div 2 ^ k" for k p
    using that a len_at_ok [OF ord, of k] get_at_ok [OF ord, of k]
    by (auto simp: check_buddy_def region_def blocks_ok_def merged_def assert_that_def)
  then have "check_buddies qs a = Some ()"
    if "\<forall>(k, p) \<in> set qs. k < bd_max_order a \<and> p < bd_len a div 2 ^ k" for qs
    using that by (induction qs) auto
  ultimately show ?thesis by (auto simp: debug_check_consistency_def)
qed

section \<open>Walking over a range of pages\<close>

text \<open>\<open>done p a\<close> says that \<open>a\<close> is the state in which the pages up to \<open>p\<close> have been processed. The two loops of either
  branch of \<open>resize\<close> process every page up to \<open>target\<close>.\<close>

locale block_walk =
  fixes op :: "nat \<Rightarrow> nat \<Rightarrow> buddy_allocator \<Rightarrow> buddy_allocator option"
    and align :: "nat \<Rightarrow> nat \<Rightarrow> buddy_allocator \<Rightarrow> (nat \<times> buddy_allocator) option"
    and walk :: "nat \<Rightarrow> nat \<Rightarrow> nat \<Rightarrow> buddy_allocator \<Rightarrow> (nat \<times> buddy_allocator) option"
    and state :: "nat \<Rightarrow> nat \<Rightarrow> nat \<Rightarrow> buddy_allocator \<Rightarrow> bool"
  assumes op_ok: "state target m p a \<Longrightarrow> k \<le> m \<Longrightarrow> 2 ^ k dvd p \<Longrightarrow> p + 2 ^ k \<le> target \<Longrightarrow>
      \<exists>a'. op (p div 2 ^ k) k a = Some a' \<and> state target m (p + 2 ^ k) a'"
    and walk_eq: "walk k p target a =
      (if p + 2 ^ k \<le> target then Option.bind (op (p div 2 ^ k) k a) (walk k (p + 2 ^ k) target) else Some (p, a))"
    and align_eq: "state target m p a \<Longrightarrow> 0 < p \<Longrightarrow> align p target a =
      (if p < target then
         if trailing_zeros p \<ge> m \<or> p + 2 ^ trailing_zeros p > target then Some (p, a)
         else Option.bind (op (p div 2 ^ trailing_zeros p) (trailing_zeros p) a) (align (p + 2 ^ trailing_zeros p) target)
       else Some (p, a))"
    and aligned: "state target m p a \<Longrightarrow> p < target \<Longrightarrow> 2 ^ trailing_zeros p dvd p"
begin

text \<open>Every block size that still fits divides the position.\<close>

lemma align_ok:
  assumes "state target m p a" and "0 < p" and "p \<le> target"
  shows "\<exists>p' a'. align p target a = Some (p', a') \<and> state target m p' a' \<and> p' \<le> target
    \<and> (\<forall>k \<le> m. p' + 2 ^ k \<le> target \<longrightarrow> 2 ^ k dvd p')"
  using assms
proof (induction "target - p" arbitrary: p a rule: less_induct)
  case less
  let ?t = "trailing_zeros p"
  show ?case
  proof (cases "p < target \<and> ?t < m \<and> p + 2 ^ ?t \<le> target")
    case True
    then obtain a1 where "op (p div 2 ^ ?t) ?t a = Some a1" "state target m (p + 2 ^ ?t) a1"
      using op_ok [OF less.prems(1), of ?t] aligned [OF less.prems(1)] by auto
    moreover have "target - (p + 2 ^ ?t) < target - p" using True by (intro block_step_up) simp
    ultimately show ?thesis
      using less.hyps [of "p + 2 ^ ?t" a1] less.prems True align_eq [OF less.prems(1,2)] by auto
  next
    case False
    have "2 ^ k dvd p" if "k \<le> m" "p + 2 ^ k \<le> target" for k
    proof -
      have "p < target" using that(2) zero_less_power [of "2 :: nat" k] by linarith
      moreover have "k \<le> ?t"
      proof (rule ccontr)
        assume "\<not> k \<le> ?t"
        then have "(2 :: nat) ^ ?t \<le> 2 ^ k" by (intro power_increasing) auto
        with False that \<open>p < target\<close> \<open>\<not> k \<le> ?t\<close> show False by linarith
      qed
      ultimately show ?thesis using aligned [OF less.prems(1)] power_le_dvd by blast
    qed
    moreover have "align p target a = Some (p, a)" using False align_eq [OF less.prems(1,2)] by auto
    ultimately show ?thesis using less.prems by auto
  qed
qed

lemma walk_ok:
  assumes "state target m p a" and "p \<le> target" and "k \<le> m"
    and "\<forall>j \<le> m. p + 2 ^ j \<le> target \<longrightarrow> 2 ^ j dvd p" and "\<forall>j \<le> m. k < j \<longrightarrow> target < p + 2 ^ j"
  shows "\<exists>p' a'. walk k p target a = Some (p', a') \<and> state target m p' a' \<and> p' \<le> target
    \<and> (\<forall>j \<le> m. p' + 2 ^ j \<le> target \<longrightarrow> 2 ^ j dvd p') \<and> (\<forall>j \<le> m. k \<le> j \<longrightarrow> target < p' + 2 ^ j)"
  using assms
proof (induction "target - p" arbitrary: p a rule: less_induct)
  case less
  show ?case
  proof (cases "p + 2 ^ k \<le> target")
    case True
    then obtain a1 where a1: "op (p div 2 ^ k) k a = Some a1" "state target m (p + 2 ^ k) a1"
      using op_ok [OF less.prems(1,3)] less.prems(3,4) by blast
    have "2 ^ j dvd p + 2 ^ k" if j: "j \<le> m" "p + 2 ^ k + 2 ^ j \<le> target" for j
    proof -
      have "j \<le> k" using less.prems(5) j by (metis add_leD1 add.commute add.left_commute leD not_le)
      moreover have "2 ^ j dvd p" using less.prems(4) j by auto
      ultimately show ?thesis by (simp add: le_imp_power_dvd)
    qed
    moreover have "target < p + 2 ^ k + 2 ^ j" if "j \<le> m" "k < j" for j
      using less.prems(5) that by (metis add.commute add.left_commute trans_less_add2)
    moreover have "target - (p + 2 ^ k) < target - p" using True by (rule block_step_up)
    ultimately show ?thesis
      using less.hyps [of "p + 2 ^ k" a1] a1 True less.prems(3) walk_eq [of k p target a] by auto
  next
    case False
    have "target < p + 2 ^ j" if "j \<le> m" "k \<le> j" for j
      using that False less.prems(5) by (cases "k = j") auto
    then show ?thesis using False walk_eq [of k p target a] less.prems by auto
  qed
qed

lemma over_orders_ok:
  assumes "state target m p a" and "p \<le> target" and "k \<le> Suc m"
    and "\<forall>j \<le> m. p + 2 ^ j \<le> target \<longrightarrow> 2 ^ j dvd p" and "\<forall>j \<le> m. k \<le> j \<longrightarrow> target < p + 2 ^ j"
  shows "\<exists>p' a'. over_orders walk (rev [0..<k]) p target a = Some (p', a') \<and> state target m p' a' \<and> p' \<le> target
    \<and> (\<forall>j \<le> m. target < p' + 2 ^ j)"
  using assms
proof (induction k arbitrary: p a)
  case (Suc k)
  then have k: "k \<le> m" "\<forall>j \<le> m. k < j \<longrightarrow> target < p + 2 ^ j" by auto
  from walk_ok [OF Suc.prems(1,2) k(1) Suc.prems(4) k(2)] obtain p1 a1 where
    "walk k p target a = Some (p1, a1)" "state target m p1 a1" "p1 \<le> target"
    "\<forall>j \<le> m. p1 + 2 ^ j \<le> target \<longrightarrow> 2 ^ j dvd p1" "\<forall>j \<le> m. k \<le> j \<longrightarrow> target < p1 + 2 ^ j" by blast
  then show ?case using Suc.IH [of p1 a1] Suc.prems(3) by auto
qed auto

lemma walk_all:
  assumes "state target m p a" and "p \<le> target" and "\<forall>j \<le> m. p + 2 ^ j \<le> target \<longrightarrow> 2 ^ j dvd p"
  shows "\<exists>a'. over_orders walk (rev [0..<Suc m]) p target a = Some (target, a') \<and> state target m target a'"
proof -
  obtain p' a' where "over_orders walk (rev [0..<Suc m]) p target a = Some (p', a')" "state target m p' a'" "p' \<le> target"
    "\<forall>j \<le> m. target < p' + 2 ^ j"
    using over_orders_ok [OF assms(1,2) order_refl assms(3)] by (auto simp: Suc_le_eq)
  moreover from this(3,4) have "p' = target" by (auto dest!: spec [of _ 0])
  ultimately show ?thesis by blast
qed

end

section \<open>Growing and shrinking\<close>

lemma trailing_zeros_aligned:
  fixes p :: nat
  assumes "0 < p" and "p < 2 ^ 32"
  shows "trailing_zeros p < 32" and "2 ^ trailing_zeros p dvd p"
proof -
  let ?l = "takeWhile (\<lambda>i. \<not> bit p i) [0..<32]"
  have le: "trailing_zeros p \<le> 32"
    using length_takeWhile_le [of "\<lambda>i. \<not> bit p i" "[0..<32]"] by (simp add: trailing_zeros_def del: upt_Suc)
  have low: "\<not> bit p i" if "i < trailing_zeros p" for i
  proof -
    have "?l ! i \<in> set ?l" using that by (simp add: trailing_zeros_def)
    moreover have "?l ! i = i" using that le by (simp add: trailing_zeros_def takeWhile_nth del: upt_Suc)
    ultimately show ?thesis by (metis (mono_tags, lifting) set_takeWhileD)
  qed
  then show "trailing_zeros p < 32" using some_bit_below [OF assms] le by (metis le_neq_implies_less)
  have "take_bit (trailing_zeros p) p = 0" using low by (auto simp: bit_eq_iff bit_take_bit_iff)
  then show "2 ^ trailing_zeros p dvd p" by (simp add: take_bit_eq_mod mod_eq_0_iff_dvd)
qed

definition grow_state :: "nat \<Rightarrow> buddy_allocator \<Rightarrow> nat \<Rightarrow> nat \<Rightarrow> nat \<Rightarrow> nat \<Rightarrow> buddy_allocator \<Rightarrow> bool" where
  "grow_state c a0 start target m p a \<longleftrightarrow> region c target a \<and> same_shape a0 a \<and> bd_max_order a = m
     \<and> free_pages a = free_pages a0 \<union> {start..<p} \<and> free_pages a0 \<subseteq> {..<start} \<and> 0 < start \<and> start \<le> p \<and> target < 2 ^ 32"

definition shrink_state :: "nat \<Rightarrow> buddy_allocator \<Rightarrow> nat \<Rightarrow> nat \<Rightarrow> nat \<Rightarrow> nat \<Rightarrow> buddy_allocator \<Rightarrow> bool" where
  "shrink_state c a0 start target m p a \<longleftrightarrow> region c target a \<and> same_shape a0 a \<and> bd_max_order a = m \<and> m < 32
     \<and> free_pages a = free_pages a0 - {start..<p} \<and> {start..<target} \<subseteq> free_pages a0 \<and> start \<le> p \<and> target < 2 ^ 32"

lemma grow_step:
  assumes s: "grow_state c a0 start target m p a" and k: "k \<le> m" and al: "2 ^ k dvd p" and fit: "p + 2 ^ k \<le> target"
  shows "\<exists>a'. free_inner (p div 2 ^ k) k a = Some a' \<and> grow_state c a0 start target m (p + 2 ^ k) a'"
proof -
  note sp = aligned_span [OF al]
  have "span k (p div 2 ^ k) \<inter> free_pages a = {}" unfolding sp using s by (auto simp: grow_state_def)
  then obtain a' where a': "free_inner (p div 2 ^ k) k a = Some a'"
    "becomes c target a (free_pages a \<union> span k (p div 2 ^ k)) a'"
    using free_inner_ok [of c target a k "p div 2 ^ k"] s k aligned_fits [OF al fit] by (auto simp: grow_state_def)
  have "free_pages a \<union> span k (p div 2 ^ k) = free_pages a0 \<union> {start..<p + 2 ^ k}"
    unfolding sp using s by (auto simp: grow_state_def)
  then show ?thesis
    using a' s by (auto simp: grow_state_def becomes_def same_shape_def)
qed

lemma shrink_step:
  assumes s: "shrink_state c a0 start target m p a" and k: "k \<le> m" and al: "2 ^ k dvd p" and fit: "p + 2 ^ k \<le> target"
  shows "\<exists>a'. record_alloc_inner (p div 2 ^ k) k a = Some a' \<and> shrink_state c a0 start target m (p + 2 ^ k) a'"
proof -
  note sp = aligned_span [OF al]
  have "span k (p div 2 ^ k) \<subseteq> free_pages a" unfolding sp using s fit by (auto simp: shrink_state_def)
  then obtain a' where a': "record_alloc_inner (p div 2 ^ k) k a = Some a'"
    "becomes c target a (free_pages a - span k (p div 2 ^ k)) a'"
    using record_alloc_inner_ok [of c target a k "p div 2 ^ k"] s k by (auto simp: shrink_state_def)
  have "free_pages a - span k (p div 2 ^ k) = free_pages a0 - {start..<p + 2 ^ k}"
    unfolding sp using s by (auto simp: shrink_state_def)
  then show ?thesis
    using a' s by (auto simp: shrink_state_def becomes_def same_shape_def)
qed

interpretation grow: block_walk free_inner grow_align grow_order "grow_state c a0 start" for c a0 start
proof
  fix target m p k a
  show "grow_state c a0 start target m p a \<Longrightarrow> k \<le> m \<Longrightarrow> 2 ^ k dvd p \<Longrightarrow> p + 2 ^ k \<le> target \<Longrightarrow>
      \<exists>a'. free_inner (p div 2 ^ k) k a = Some a' \<and> grow_state c a0 start target m (p + 2 ^ k) a'"
    by (rule grow_step)
  show "grow_order k p target a = (if p + 2 ^ k \<le> target
      then Option.bind (free_inner (p div 2 ^ k) k a) (grow_order k (p + 2 ^ k) target) else Some (p, a))"
    by (subst grow_order.simps) simp
  assume s: "grow_state c a0 start target m p a"
  then have small: "p < target \<Longrightarrow> trailing_zeros p < 32 \<and> 2 ^ trailing_zeros p dvd p"
    using trailing_zeros_aligned [of p] by (auto simp: grow_state_def)
  then show "p < target \<Longrightarrow> 2 ^ trailing_zeros p dvd p" by simp
  show "grow_align p target a = (if p < target then
         if trailing_zeros p \<ge> m \<or> p + 2 ^ trailing_zeros p > target then Some (p, a)
         else Option.bind (free_inner (p div 2 ^ trailing_zeros p) (trailing_zeros p) a) (grow_align (p + 2 ^ trailing_zeros p) target)
       else Some (p, a))"
    using s small by (subst grow_align.simps) (auto simp: grow_state_def Let_def dvd_eq_mod_eq_0)
qed

interpretation shrink: block_walk record_alloc_inner shrink_align shrink_order "shrink_state c a0 start" for c a0 start
proof
  fix target m p k a
  show "shrink_state c a0 start target m p a \<Longrightarrow> k \<le> m \<Longrightarrow> 2 ^ k dvd p \<Longrightarrow> p + 2 ^ k \<le> target \<Longrightarrow>
      \<exists>a'. record_alloc_inner (p div 2 ^ k) k a = Some a' \<and> shrink_state c a0 start target m (p + 2 ^ k) a'"
    by (rule shrink_step)
  show "shrink_order k p target a = (if p + 2 ^ k \<le> target
      then Option.bind (record_alloc_inner (p div 2 ^ k) k a) (shrink_order k (p + 2 ^ k) target) else Some (p, a))"
    by (subst shrink_order.simps) simp
  assume s: "shrink_state c a0 start target m p a"
  then have small: "p < target \<Longrightarrow> 2 ^ trailing_zeros p dvd p"
    using trailing_zeros_aligned [of p] by (cases "p = 0") (auto simp: shrink_state_def)
  then show "p < target \<Longrightarrow> 2 ^ trailing_zeros p dvd p" .
  show "shrink_align p target a = (if p < target then
         if trailing_zeros p \<ge> m \<or> p + 2 ^ trailing_zeros p > target then Some (p, a)
         else Option.bind (record_alloc_inner (p div 2 ^ trailing_zeros p) (trailing_zeros p) a) (shrink_align (p + 2 ^ trailing_zeros p) target)
       else Some (p, a))"
    using s small by (subst shrink_align.simps) (auto simp: shrink_state_def Let_def dvd_eq_mod_eq_0)
qed

lemma resize_orders_ok:
  assumes "\<forall>k < length bs. bitmap_inv (bs ! k) \<and> unset (bs ! k) \<subseteq> {..<n div 2 ^ k} \<and> supports (length (bs ! k) - 1) (n div 2 ^ k)"
  shows "\<exists>bs'. resize_orders bs n = Some bs' \<and> length bs' = length bs
    \<and> (\<forall>k < length bs. bitmap_inv (bs' ! k) \<and> size_of (bs' ! k) = n div 2 ^ k \<and> unset (bs' ! k) = unset (bs ! k)
         \<and> length (bs' ! k) = length (bs ! k))"
  using assms
proof (induction bs arbitrary: n)
  case (Cons b bs)
  have "\<forall>k < length bs. bitmap_inv (bs ! k) \<and> unset (bs ! k) \<subseteq> {..<n div 2 div 2 ^ k}
      \<and> supports (length (bs ! k) - 1) (n div 2 div 2 ^ k)"
  proof (intro allI impI)
    fix k
    assume "k < length bs"
    then show "bitmap_inv (bs ! k) \<and> unset (bs ! k) \<subseteq> {..<n div 2 div 2 ^ k}
        \<and> supports (length (bs ! k) - 1) (n div 2 div 2 ^ k)"
      using Cons.prems [rule_format, of "Suc k"] by (simp add: div_mult2_eq)
  qed
  then obtain bs' where bs': "resize_orders bs (n div 2) = Some bs'" "length bs' = length bs"
    "\<forall>k < length bs. bitmap_inv (bs' ! k) \<and> size_of (bs' ! k) = n div 2 div 2 ^ k \<and> unset (bs' ! k) = unset (bs ! k)
       \<and> length (bs' ! k) = length (bs ! k)" using Cons.IH [of "n div 2"] by blast
  obtain b' where b': "bm_resize b n True = Some b'" "bitmap_inv b'" "size_of b' = n" "unset b' = unset b" "length b' = length b"
    using bm_resize_ok [of b n] Cons.prems [rule_format, of 0] by auto
  have "\<forall>k < length (b # bs). bitmap_inv ((b' # bs') ! k) \<and> size_of ((b' # bs') ! k) = n div 2 ^ k
      \<and> unset ((b' # bs') ! k) = unset ((b # bs) ! k) \<and> length ((b' # bs') ! k) = length ((b # bs) ! k)"
    using bs' b' by (auto simp: nth_Cons div_mult2_eq split: nat.split)
  then show ?case using bs'(1,2) b'(1) by (simp add: next_higher_order_def)
qed simp

lemma resize_region:
  assumes a: "region c n a" and n': "n' \<le> c" and cut: "free_pages a \<subseteq> {..<n'}"
  shows "\<exists>free. resize_orders (bd_free a) n' = Some free \<and> region c n' (a\<lparr>bd_free := free\<rparr>)
    \<and> free_pages (a\<lparr>bd_free := free\<rparr>) = free_pages a"
proof -
  have ord: "orders_ok c n a" and ok: "blocks_ok (bd_max_order a) n (blocks a)" using a by (auto simp: region_def)
  have below: "p < n' div 2 ^ k" if "(k, p) \<in> blocks a" for k p
    using cut span_in_pages [OF that] by (simp add: free_pages_def span_below [symmetric])
  have "supports (length (bd_free a ! k) - 1) (n' div 2 ^ k)" if "k < length (bd_free a)" for k
    using ord that supports_mono [OF _ div_le_mono [OF n']] by (auto simp: orders_ok_def)
  then obtain free where f: "resize_orders (bd_free a) n' = Some free" "length free = length (bd_free a)"
    "\<forall>k < length (bd_free a). bitmap_inv (free ! k) \<and> size_of (free ! k) = n' div 2 ^ k
      \<and> unset (free ! k) = unset (bd_free a ! k) \<and> length (free ! k) = length (bd_free a ! k)"
    using resize_orders_ok [of "bd_free a" n'] ord below by (auto simp: orders_ok_def blocks_def)
  then have "orders_ok c n' (a\<lparr>bd_free := free\<rparr>)" and same: "blocks (a\<lparr>bd_free := free\<rparr>) = blocks a"
    using ord by (auto simp: orders_ok_def blocks_def)
  then show ?thesis
    using f(1) ok below by (auto simp: region_def free_pages_def blocks_ok_def)
qed

lemma buddy_grow_ok:
  assumes a: "buddy_inv c a" and n: "bd_len a < n" "n \<le> c" and pos: "0 < bd_len a"
  shows "\<exists>a'. buddy_resize n a = Some a' \<and> buddy_inv c a' \<and> bd_len a' = n \<and> bd_max_order a' = bd_max_order a
    \<and> free_pages a' = free_pages a \<union> {bd_len a..<n}"
proof -
  have r: "region c (bd_len a) a" and small: "n < 2 ^ 32" using a n by (auto simp: buddy_inv_def)
  have sub: "free_pages a \<subseteq> {..<bd_len a}" by (rule region_pages [OF r])
  obtain free where free: "resize_orders (bd_free a) n = Some free" "region c n (a\<lparr>bd_free := free\<rparr>)"
    "free_pages (a\<lparr>bd_free := free\<rparr>) = free_pages a" using resize_region [OF r n(2)] sub n(1) by force
  let ?a = "a\<lparr>bd_free := free\<rparr>" and ?m = "bd_max_order a"
  have "grow_state c ?a (bd_len a) n ?m (bd_len a) ?a"
    using free(2,3) sub pos small by (simp add: grow_state_def)
  then obtain p1 a1 where a1: "grow_align (bd_len a) n ?a = Some (p1, a1)" "grow_state c ?a (bd_len a) n ?m p1 a1" "p1 \<le> n"
    "\<forall>k \<le> ?m. p1 + 2 ^ k \<le> n \<longrightarrow> 2 ^ k dvd p1" using grow.align_ok pos n(1) by (metis less_imp_le)
  from grow.walk_all [OF a1(2-4)] obtain a2 where
    a2: "over_orders grow_order (rev [0..<Suc ?m]) p1 n a1 = Some (n, a2)" "grow_state c ?a (bd_len a) n ?m n a2" by blast
  let ?a2 = "a2\<lparr>bd_len := n\<rparr>"
  have "region c n ?a2" "free_pages ?a2 = free_pages a \<union> {bd_len a..<n}"
    using a2(2) free(3) by (auto simp: grow_state_def region_def orders_ok_def blocks_def free_pages_def)
  moreover have "debug_check_consistency ?a2 = Some ()" using debug_check_ok [of c ?a2] calculation(1) by simp
  ultimately show ?thesis
    using debug_check_ok [OF r] n a free(1) a1(1) a2 by (auto simp: buddy_resize_def buddy_inv_def grow_state_def simp del: upt_Suc)
qed

lemma buddy_shrink_ok:
  assumes a: "buddy_inv c a" and n: "n \<le> bd_len a" and free: "{n..<bd_len a} \<subseteq> free_pages a"
  shows "\<exists>a'. buddy_resize n a = Some a' \<and> buddy_inv c a' \<and> bd_len a' = n \<and> bd_max_order a' = bd_max_order a
    \<and> free_pages a' = free_pages a \<inter> {..<n}"
proof -
  have r: "region c (bd_len a) a" and small: "bd_len a < 2 ^ 32" using a by (auto simp: buddy_inv_def)
  let ?m = "bd_max_order a"
  have m: "?m < 32" using a by (simp add: buddy_inv_def MAX_MAX_PAGE_ORDER_def)
  have s: "shrink_state c a n (bd_len a) ?m n a" using r m free small by (simp add: shrink_state_def)
  have "\<exists>p1 a1. shrink_align n (bd_len a) a = Some (p1, a1) \<and> shrink_state c a n (bd_len a) ?m p1 a1 \<and> p1 \<le> bd_len a
      \<and> (\<forall>k \<le> ?m. p1 + 2 ^ k \<le> bd_len a \<longrightarrow> 2 ^ k dvd p1)"
  proof (cases "n = 0")
    case True
    have "trailing_zeros 0 = 32" by (simp add: trailing_zeros_def takeWhile_eq_all_conv [THEN iffD2])
    then have "shrink_align n (bd_len a) a = Some (0, a)" using True m by (subst shrink_align.simps) (simp add: Let_def)
    then show ?thesis using s True by auto
  qed (use shrink.align_ok [OF s] n in auto)
  then obtain p1 a1 where a1: "shrink_align n (bd_len a) a = Some (p1, a1)" "shrink_state c a n (bd_len a) ?m p1 a1"
    "p1 \<le> bd_len a" "\<forall>k \<le> ?m. p1 + 2 ^ k \<le> bd_len a \<longrightarrow> 2 ^ k dvd p1" by blast
  from shrink.walk_all [OF a1(2-4)] obtain a2 where
    a2: "over_orders shrink_order (rev [0..<Suc ?m]) p1 (bd_len a) a1 = Some (bd_len a, a2)"
    "shrink_state c a n (bd_len a) ?m (bd_len a) a2" by blast
  have F: "free_pages a2 = free_pages a \<inter> {..<n}"
    using a2(2) region_pages [OF r] by (auto simp: shrink_state_def)
  obtain fr where fr: "resize_orders (bd_free a2) n = Some fr" "region c n (a2\<lparr>bd_free := fr\<rparr>)"
    "free_pages (a2\<lparr>bd_free := fr\<rparr>) = free_pages a2"
    using resize_region [of c "bd_len a" a2 n] a2(2) a n F by (auto simp: shrink_state_def buddy_inv_def)
  let ?a3 = "a2\<lparr>bd_free := fr, bd_len := n\<rparr>"
  have "region c n ?a3" "free_pages ?a3 = free_pages a2"
    using fr(2,3) by (auto simp: region_def orders_ok_def blocks_def free_pages_def)
  moreover have "debug_check_consistency ?a3 = Some ()" using debug_check_ok [of c ?a3] calculation(1) by simp
  ultimately show ?thesis
    using debug_check_ok [OF r] n a fr(1) a1(1) a2 F
    by (auto simp: buddy_resize_def buddy_inv_def shrink_state_def same_shape_def simp del: upt_Suc)
qed

end
