(* ===== verification/Buddy_Correct.thy ===== *)
theory Buddy_Correct
  imports Buddy_Lowest Buddy_Resize
begin

text \<open>
  The contract of the buddy allocator over whole histories: a client allocates, releases what it was given, takes
  given free blocks and resizes the region. In every history every page is free or belongs to exactly one
  outstanding block, every call returns, and its effect on the set of free pages is as specified.
\<close>

section \<open>Serialised form\<close>

interpretation orders: chunk_reader bm_from_bytes read_orders
  by unfold_locales (simp_all add: Let_def)

definition buddy_bytes :: "buddy_allocator \<Rightarrow> nat" where
  "buddy_bytes a = 8 + 4 * length (bd_free a) + (\<Sum>b \<leftarrow> bd_free a. bm_bytes b)"

definition buddy_head :: "buddy_allocator \<Rightarrow> bytes" where
  "buddy_head a = [of_nat (bd_max_order a), 0, 0, 0] @ to_le_bytes 4 (bd_len a)"

lemma length_buddy_head [simp]: "length (buddy_head a) = 8"
  by (simp add: buddy_head_def)

lemma buddy_to_vec_assemble:
  assumes "length (bd_free a) = Suc (bd_max_order a)"
  shows "buddy_to_vec a = do { vecs \<leftarrow> those (map bm_to_vec (bd_free a)); assemble (buddy_head a) vecs }"
proof (cases "those (map bm_to_vec (bd_free a))")
  case (Some vecs)
  then have l: "Suc (bd_max_order a) = length vecs" using those_nth assms by fastforce
  then show ?thesis
    using Some by (auto simp: buddy_to_vec_def assemble_def Let_def chunk_start_def buddy_head_def length_fixed
        mult.commute [of _ 4] simp del: upt_Suc mult_Suc split: Option.bind_splits dest!: those_nth)
qed (simp add: buddy_to_vec_def Let_def)

lemma buddy_bitmaps:
  assumes "buddy_inv c a" and "b \<in> set (bd_free a)"
  shows "bitmap_inv b" and "size_of b < 2 ^ 32"
proof -
  obtain k where k: "k < length (bd_free a)" "b = bd_free a ! k" using assms(2) by (auto simp: in_set_conv_nth)
  then have "bitmap_inv b" "size_of b = bd_len a div 2 ^ k" using assms(1) by (auto simp: buddy_inv_def region_def orders_ok_def)
  moreover have "bd_len a div 2 ^ k < 2 ^ 32"
    using assms(1) le_less_trans [OF div_le_dividend, of "bd_len a" "2 ^ 32" "2 ^ k"] by (auto simp: buddy_inv_def)
  ultimately show "bitmap_inv b" "size_of b < 2 ^ 32" by simp_all
qed

lemma bm_bytes_bound:
  assumes b: "bitmap_inv b" and h: "length b \<le> 6"
  shows "bm_bytes b \<le> 100 + size_of b"
proof -
  let ?w = "size_of b div 64 + 1"
  have "4 + 8 * required_words (gb_len g) \<le> 4 + 8 * ?w" if "g \<in> set b" for g
  proof -
    have "gb_len g \<le> max 64 (size_of b)"
      using level_lengths [of "rev b" g] b that by (auto simp: bitmap_inv_def hd_rev size_of_def)
    then have "required_words (gb_len g) \<le> ?w" unfolding required_words_def div_ceil_def by arith
    then show ?thesis by simp
  qed
  then have "(\<Sum>g \<leftarrow> b. 4 + 8 * required_words (gb_len g)) \<le> (\<Sum>g \<leftarrow> b. 4 + 8 * ?w)" by (intro sum_list_mono) blast
  also have "\<dots> = length b * (4 + 8 * ?w)" by (simp add: sum_list_triv)
  also have "\<dots> \<le> 6 * (4 + 8 * ?w)" using h by (rule mult_le_mono1)
  finally have "bm_bytes b \<le> 4 + 4 * 6 + 6 * (4 + 8 * ?w)" using h unfolding bm_bytes_def by linarith
  moreover have "4 + 4 * 6 + 6 * (4 + 8 * (q + 1)) \<le> 100 + n" if "64 * q \<le> n" for q n :: nat using that by simp
  ultimately show ?thesis using times_div_less_eq_dividend [of 64 "size_of b"] le_trans by blast
qed

lemma buddy_bytes_bound:
  assumes a: "buddy_inv c a" and c: "c \<le> 2 ^ 30"
  shows "buddy_bytes a < 2 ^ 32"
proof -
  let ?m = "bd_max_order a" and ?n = "bd_len a"
  have ord: "orders_ok c ?n a" and m: "?m \<le> 20" and n: "?n \<le> 2 ^ 30"
    using a c by (auto simp: buddy_inv_def region_def MAX_MAX_PAGE_ORDER_def)
  then have len: "length (bd_free a) = Suc ?m" by (simp add: orders_ok_def)
  have each: "bm_bytes (bd_free a ! k) \<le> 100 + ?n div 2 ^ k" if "k < Suc ?m" for k
    using bm_bytes_bound [of "bd_free a ! k"] ord that len by (auto simp: orders_ok_def)
  have halves: "(\<Sum>k < j. ?n div 2 ^ k) + 2 * (?n div 2 ^ j) \<le> 2 * ?n" for j
  proof (induction j)
    case (Suc j)
    have "?n div 2 ^ Suc j + ?n div 2 ^ Suc j \<le> ?n div 2 ^ j" by (simp add: div_power_Suc del: power_Suc)
    then show ?case using Suc by simp
  qed simp
  have "(\<Sum>b \<leftarrow> bd_free a. bm_bytes b) = (\<Sum>k < Suc ?m. bm_bytes (bd_free a ! k))"
    by (simp add: sum_list_sum_nth len atLeast0LessThan del: sum.lessThan_Suc)
  also have "\<dots> \<le> (\<Sum>k < Suc ?m. 100 + ?n div 2 ^ k)" by (intro sum_mono each) simp
  also have "\<dots> = 100 * Suc ?m + (\<Sum>k < Suc ?m. ?n div 2 ^ k)" by (simp add: sum.distrib del: sum.lessThan_Suc)
  also have "\<dots> \<le> 2100 + 2 * ?n" using m by (intro add_mono add_leD1 [OF halves]) simp_all
  finally show ?thesis using len m n by (simp add: buddy_bytes_def)
qed

lemma buddy_to_vec_fits:
  assumes a: "buddy_inv c a" and small: "buddy_bytes a < 2 ^ 32"
  shows "\<exists>v. buddy_to_vec a = Some v \<and> length v = buddy_bytes a"
proof -
  have len: "length (bd_free a) = Suc (bd_max_order a)" using a by (simp add: buddy_inv_def region_def orders_ok_def)
  have each: "bm_to_vec b = Some (the (bm_to_vec b)) \<and> length (the (bm_to_vec b)) = bm_bytes b" if "b \<in> set (bd_free a)" for b
  proof -
    have "bm_bytes b \<le> (\<Sum>b \<leftarrow> bd_free a. bm_bytes b)" using that by (simp add: member_le_sum_list)
    then have "bm_bytes b < 2 ^ 32" using small by (simp add: buddy_bytes_def)
    then show ?thesis using bm_to_vec_fits [OF buddy_bitmaps(1) [OF a that]] by auto
  qed
  let ?vecs = "map (\<lambda>b. the (bm_to_vec b)) (bd_free a)"
  have "those (map bm_to_vec (bd_free a)) = Some ?vecs" using each by (intro those_map_Some) blast
  moreover have "length (concat ?vecs) = (\<Sum>b \<leftarrow> bd_free a. bm_bytes b)"
    using each by (simp add: length_concat o_def cong: map_cong)
  ultimately show ?thesis
    using assemble_fits [of "buddy_head a" ?vecs] small by (simp add: buddy_to_vec_assemble [OF len] buddy_bytes_def)
qed

lemma buddy_from_to:
  assumes a: "buddy_inv c a" and v: "buddy_to_vec a = Some v"
  shows "\<exists>a'. buddy_from_bytes v = Some a' \<and> buddy_inv c a' \<and> same_shape a a' \<and> blocks a' = blocks a"
proof -
  have ord: "orders_ok c (bd_len a) a" and m: "bd_max_order a \<le> 20" and n: "bd_len a < 2 ^ 32"
    using a by (auto simp: buddy_inv_def region_def MAX_MAX_PAGE_ORDER_def)
  then have len: "length (bd_free a) = Suc (bd_max_order a)" by (simp add: orders_ok_def)
  obtain vecs where vecs: "those (map bm_to_vec (bd_free a)) = Some vecs" and as: "assemble (buddy_head a) vecs = Some v"
    using v by (auto simp: buddy_to_vec_assemble [OF len] bind_eq_Some_conv)
  note vn = those_nth [OF vecs]
  have "\<exists>b'. bm_from_bytes (vecs ! k) = Some b' \<and> bitmap_inv b' \<and> unset b' = unset (bd_free a ! k)
      \<and> size_of b' = size_of (bd_free a ! k) \<and> length b' = length (bd_free a ! k)" if "k < length (bd_free a)" for k
    using that vn buddy_bitmaps [OF a, of "bd_free a ! k"] by (intro bitmap_bytes_ok) auto
  then obtain g where g: "\<And>k. k < length (bd_free a) \<Longrightarrow> bm_from_bytes (vecs ! k) = Some (g k) \<and> bitmap_inv (g k)
      \<and> unset (g k) = unset (bd_free a ! k) \<and> size_of (g k) = size_of (bd_free a ! k) \<and> length (g k) = length (bd_free a ! k)"
    by metis
  define free where "free = map g [0..<length (bd_free a)]"
  have fl: "length free = length (bd_free a)" "\<And>k. k < length (bd_free a) \<Longrightarrow> free ! k = g k" by (simp_all add: free_def)
  have lv: "length vecs = length free" using vn fl by simp
  have gets: "bm_from_bytes (vecs ! k) = Some (free ! k)" if "k < length free" for k using g that fl by simp
  note rd = orders.read_assembled [OF as lv gets]
  have "slice v 4 8 = Some (to_le_bytes 4 (bd_len a))"
  proof -
    have "take 4 (drop 4 v) = drop 4 (take 8 v)" by (simp add: drop_take)
    then show ?thesis using rd(2,3) by (simp add: slice_def buddy_head_def)
  qed
  moreover have "index_at v 0 = Some (of_nat (bd_max_order a))"
    using rd(2,3) nth_take [of 0 8 v] by (cases v) (simp_all add: index_at_def buddy_head_def)
  moreover have "unat (of_nat (bd_max_order a) :: u8) = bd_max_order a" using m by (simp add: unat_of_nat)
  ultimately have "buddy_from_bytes v = Some \<lparr>bd_free = free, bd_len = bd_len a, bd_max_order = bd_max_order a\<rparr>"
    using rd(1) fl(1) len n by (simp add: buddy_from_bytes_def Let_def mult.commute del: read_orders.simps)
  moreover have same: "blocks \<lparr>bd_free = free, bd_len = bd_len a, bd_max_order = bd_max_order a\<rparr> = blocks a"
    using fl g by (auto simp: blocks_def)
  moreover have "orders_ok c (bd_len a) \<lparr>bd_free = free, bd_len = bd_len a, bd_max_order = bd_max_order a\<rparr>"
    using ord fl g by (simp add: orders_ok_def)
  ultimately show ?thesis using a by (auto simp: buddy_inv_def region_def same_shape_def)
qed

section \<open>Histories\<close>

datatype page_op = Alloc nat | Alloc_Lowest nat | Release nat nat | Record_Alloc nat nat | Resize nat

fun buddy_step :: "page_op \<Rightarrow> buddy_allocator \<Rightarrow> (nat option \<times> buddy_allocator) option" where
  "buddy_step (Alloc k) a = buddy_alloc k a"
| "buddy_step (Alloc_Lowest k) a = alloc_lowest k a"
| "buddy_step (Release p k) a = map_option (Pair None) (buddy_free p k a)"
| "buddy_step (Record_Alloc p k) a = map_option (Pair None) (record_alloc p k a)"
| "buddy_step (Resize n) a = map_option (Pair None) (buddy_resize n a)"

text \<open>What a client may do: the blocks it owns are \<open>H\<close>. It releases a block it owns, takes a block whose pages are
  free, grows a non-empty region within its capacity and cuts off free pages only.\<close>

fun permitted :: "nat \<Rightarrow> page_op \<Rightarrow> buddy_allocator \<Rightarrow> block set \<Rightarrow> bool" where
  "permitted c (Alloc k) a H \<longleftrightarrow> k \<le> bd_max_order a"
| "permitted c (Alloc_Lowest k) a H \<longleftrightarrow> k \<le> bd_max_order a"
| "permitted c (Release p k) a H \<longleftrightarrow> (k, p) \<in> H"
| "permitted c (Record_Alloc p k) a H \<longleftrightarrow> k \<le> bd_max_order a \<and> span k p \<subseteq> free_pages a"
| "permitted c (Resize n) a H \<longleftrightarrow> 0 < bd_len a \<and> n \<le> c \<and> {n..<bd_len a} \<subseteq> free_pages a"

fun owned_after :: "page_op \<Rightarrow> nat option \<Rightarrow> block set \<Rightarrow> block set" where
  "owned_after (Alloc k) r H = (case r of None \<Rightarrow> H | Some p \<Rightarrow> insert (k, p) H)"
| "owned_after (Alloc_Lowest k) r H = (case r of None \<Rightarrow> H | Some p \<Rightarrow> insert (k, p) H)"
| "owned_after (Release p k) r H = H - {(k, p)}"
| "owned_after (Record_Alloc p k) r H = insert (k, p) H"
| "owned_after (Resize n) r H = H"

text \<open>A history also survives storing the allocator and reading it back.\<close>

inductive history :: "nat \<Rightarrow> buddy_allocator \<Rightarrow> block set \<Rightarrow> bool" for c where
  start: "n \<le> c \<Longrightarrow> 0 < c \<Longrightarrow> c < 2 ^ 31 \<Longrightarrow> buddy_new n c = Some a \<Longrightarrow> history c a {}"
| step: "history c a H \<Longrightarrow> permitted c x a H \<Longrightarrow> buddy_step x a = Some (r, a') \<Longrightarrow> history c a' (owned_after x r H)"
| reload: "history c a H \<Longrightarrow> buddy_to_vec a = Some v \<Longrightarrow> buddy_from_bytes v = Some a' \<Longrightarrow> history c a' H"

text \<open>The specification of the effect on the free pages \<open>F\<close> of a region of \<open>n\<close> pages.\<close>

fun page_effect :: "page_op \<Rightarrow> nat option \<Rightarrow> nat set \<times> nat \<Rightarrow> nat set \<times> nat \<Rightarrow> bool" where
  "page_effect (Alloc k) r (F, n) (F', n') \<longleftrightarrow> n' = n \<and> (case r of
      None \<Rightarrow> F' = F \<and> (\<forall>p. \<not> span k p \<subseteq> F) | Some p \<Rightarrow> span k p \<subseteq> F \<and> F' = F - span k p)"
| "page_effect (Alloc_Lowest k) r (F, n) (F', n') \<longleftrightarrow> n' = n \<and> (case r of
      None \<Rightarrow> F' = F \<and> (\<forall>p. \<not> span k p \<subseteq> F)
    | Some p \<Rightarrow> span k p \<subseteq> F \<and> (\<forall>q. span k q \<subseteq> F \<longrightarrow> p \<le> q) \<and> F' = F - span k p)"
| "page_effect (Release p k) r (F, n) (F', n') \<longleftrightarrow> n' = n \<and> F' = F \<union> span k p"
| "page_effect (Record_Alloc p k) r (F, n) (F', n') \<longleftrightarrow> n' = n \<and> F' = F - span k p"
| "page_effect (Resize m) r (F, n) (F', n') \<longleftrightarrow> n' = m \<and> F' = (F \<union> {n..<m}) \<inter> {..<m}"

text \<open>The pages of the region are shared out between the free pages and the owned blocks.\<close>

definition shared_out :: "nat \<Rightarrow> nat \<Rightarrow> nat set \<Rightarrow> block set \<Rightarrow> bool" where
  "shared_out m n F H \<longleftrightarrow> separate H \<and> (\<forall>(k, p) \<in> H. k \<le> m) \<and> pages H \<inter> F = {} \<and> pages H \<union> F = {..<n}"

lemma becomes_inv:
  "buddy_inv c a \<Longrightarrow> becomes c (bd_len a) a F a' \<Longrightarrow>
     buddy_inv c a' \<and> free_pages a' = F \<and> bd_len a' = bd_len a \<and> bd_max_order a' = bd_max_order a"
  by (auto simp: buddy_inv_def becomes_def same_shape_def)

lemma owned_block:
  assumes a: "buddy_inv c a" and H: "shared_out (bd_max_order a) (bd_len a) (free_pages a) H" and b: "(k, p) \<in> H"
  shows "k \<le> bd_max_order a" and "p < bd_len a div 2 ^ k" and "span k p \<inter> free_pages a = {}" and "get_at a k p = Some True"
proof -
  have sub: "span k p \<subseteq> pages H" by (rule span_in_pages [OF b])
  then show k: "k \<le> bd_max_order a" and p: "p < bd_len a div 2 ^ k" and dis: "span k p \<inter> free_pages a = {}"
    using H b span_below [of k p "bd_len a"] unfolding shared_out_def by blast+
  have "(k, p) \<notin> blocks a" using dis span_in_pages [of k p "blocks a"] span_nonempty [of k p] unfolding free_pages_def by blast
  then show "get_at a k p = Some True" using get_at_ok [of c "bd_len a" a k p] a k p by (simp add: buddy_inv_def region_def)
qed

lemma step_ok:
  assumes a: "buddy_inv c a" and H: "shared_out (bd_max_order a) (bd_len a) (free_pages a) H" and p: "permitted c x a H"
  shows "\<exists>r a'. buddy_step x a = Some (r, a') \<and> buddy_inv c a' \<and> bd_max_order a' = bd_max_order a
    \<and> page_effect x r (free_pages a, bd_len a) (free_pages a', bd_len a')"
proof (cases x)
  case (Alloc k)
  have r: "region c (bd_len a) a" using a by (simp add: buddy_inv_def)
  show ?thesis
    using alloc_inner_ok [OF r, of k] p Alloc a by (auto simp: buddy_alloc_def dest!: becomes_inv [OF a])
next
  case (Alloc_Lowest k)
  have r: "region c (bd_len a) a" using a by (simp add: buddy_inv_def)
  show ?thesis
  proof (cases "\<exists>p. span k p \<subseteq> free_pages a")
    case True
    then obtain q a' where "alloc_lowest k a = Some (Some q, a')" "span k q \<subseteq> free_pages a"
      "becomes c (bd_len a) a (free_pages a - span k q) a'" "\<forall>q'. span k q' \<subseteq> free_pages a \<longrightarrow> q \<le> q'"
      using alloc_lowest_some [OF r, of k] p Alloc_Lowest by (metis permitted.simps(2))
    then show ?thesis using becomes_inv [OF a] Alloc_Lowest by simp
  next
    case False
    then show ?thesis using alloc_lowest_none [OF r, of k] p Alloc_Lowest a by auto
  qed
next
  case (Release q k)
  note own = owned_block [OF a H, of k q]
  have r: "region c (bd_len a) a" using a by (simp add: buddy_inv_def)
  show ?thesis using free_inner_ok [OF r, of k q] own p Release by (auto simp: buddy_free_def dest!: becomes_inv [OF a])
next
  case (Record_Alloc q k)
  have r: "region c (bd_len a) a" using a by (simp add: buddy_inv_def)
  show ?thesis
    using record_alloc_inner_ok [OF r, of k q] p Record_Alloc by (auto simp: record_alloc_def dest!: becomes_inv [OF a])
next
  case (Resize m)
  have sub: "free_pages a \<subseteq> {..<bd_len a}" using a by (auto simp: buddy_inv_def dest: region_pages)
  show ?thesis
  proof (cases "bd_len a < m")
    case True
    moreover have "(free_pages a \<union> {bd_len a..<m}) \<inter> {..<m} = free_pages a \<union> {bd_len a..<m}" using sub True by auto
    ultimately show ?thesis using buddy_grow_ok [OF a, of m] p Resize by auto
  next
    case False
    then show ?thesis using buddy_shrink_ok [OF a, of m] p Resize by auto
  qed
qed

lemma shared_out_take:
  assumes "shared_out m n F H" and "k \<le> m" and "span k p \<subseteq> F"
  shows "shared_out m n (F - span k p) (insert (k, p) H)"
proof -
  have "pages H \<inter> span k p = {}" using assms(1,3) unfolding shared_out_def by blast
  then have "(l, x div 2 ^ l) \<notin> H" if "x div 2 ^ k = p" for x l using that by (auto simp: disjoint_iff)
  then have "separate (insert (k, p) H)" using assms(1) by (auto simp: shared_out_def separate_def)
  then show ?thesis using assms unfolding shared_out_def pages_insert by blast
qed

lemma shared_out_give:
  assumes "shared_out m n F H" and "(k, p) \<in> H"
  shows "shared_out m n (F \<union> span k p) (H - {(k, p)})"
proof -
  have sep: "separate H" using assms(1) by (simp add: shared_out_def)
  then have "separate (H - {(k, p)})" by (auto simp: separate_def)
  then show ?thesis
    using assms span_in_pages [OF assms(2)] unfolding shared_out_def pages_remove [OF sep assms(2)] by blast
qed

lemma resized_parts:
  fixes A F :: "nat set"
  assumes "A \<inter> F = {}" and "A \<union> F = {..<n}" and "{q..<n} \<subseteq> F"
  shows "A \<inter> ((F \<union> {n..<q}) \<inter> {..<q}) = {}" and "A \<union> (F \<union> {n..<q}) \<inter> {..<q} = {..<q}"
proof -
  have A: "x < n \<and> x < q \<and> x \<notin> F" if "x \<in> A" for x
    using assms that by (metis Un_iff atLeastLessThan_iff disjoint_iff lessThan_iff not_le subsetD)
  then show "A \<inter> ((F \<union> {n..<q}) \<inter> {..<q}) = {}" by fastforce
  have F: "x \<in> F" if "x < n" "x \<notin> A" for x using assms(2) that by blast
  show "A \<union> (F \<union> {n..<q}) \<inter> {..<q} = {..<q}" by (auto simp: not_less [symmetric] dest: A intro: F)
qed

lemma shared_out_step:
  assumes "shared_out m n F H" and "page_effect x r (F, n) (F', n')" and "permitted c x a H"
    and "free_pages a = F" "bd_len a = n" "bd_max_order a = m"
  shows "shared_out m n' F' (owned_after x r H)"
proof (cases x)
  case (Resize q)
  then have "pages H \<inter> F = {}" "pages H \<union> F = {..<n}" "{q..<n} \<subseteq> F" using assms by (simp_all only: shared_out_def permitted.simps)
  from resized_parts [OF this] show ?thesis
    using assms Resize by (simp only: shared_out_def page_effect.simps owned_after.simps) blast
qed (use assms in \<open>auto intro: shared_out_take shared_out_give split: option.splits\<close>)

lemma history_ok: "history c a H \<Longrightarrow> buddy_inv c a \<and> shared_out (bd_max_order a) (bd_len a) (free_pages a) H"
proof (induction rule: history.induct)
  case (start n a)
  then show ?case using buddy_new_ok [of n c] by (auto simp: shared_out_def separate_def)
next
  case (step a H x r a')
  obtain r1 a1 where s: "buddy_step x a = Some (r1, a1)" "buddy_inv c a1" "bd_max_order a1 = bd_max_order a"
    "page_effect x r1 (free_pages a, bd_len a) (free_pages a1, bd_len a1)"
    using step_ok [of c a H x] step by blast
  then show ?case using shared_out_step [OF _ s(4)] step by auto
next
  case (reload a H v a')
  then show ?case using buddy_from_to [of c a v] by (auto simp: free_pages_def same_shape_def)
qed

section \<open>Results\<close>

text \<open>(C6) The buddy allocator refines a set of free pages. After any history of calls that keep to the contract, every
  further permitted call returns (no assertion fails, in debug builds neither), and it acts on the free pages
  as specified: \<open>alloc\<close> takes an aligned run of \<open>2^k\<close> free pages and fails only if there is none, \<open>alloc_lowest\<close> takes
  the lowest such run, \<open>free\<close> gives exactly the pages of the block back, \<open>record_alloc\<close> takes exactly the given
  pages, \<open>resize\<close> adds the new pages or cuts off the last ones. The consistency check passes and the counter
  counts the free pages.\<close>

theorem buddy_refines_pages:
  assumes "history c a H" and "permitted c x a H"
  shows "\<exists>r a'. buddy_step x a = Some (r, a')
    \<and> page_effect x r (free_pages a, bd_len a) (free_pages a', bd_len a')
    \<and> debug_check_consistency a' = Some () \<and> count_free_pages a' = Some (card (free_pages a'))"
proof -
  obtain r a' where s: "buddy_step x a = Some (r, a')" "buddy_inv c a'"
    "page_effect x r (free_pages a, bd_len a) (free_pages a', bd_len a')"
    using step_ok [of c a H x] history_ok [OF assms(1)] assms(2) by blast
  have r: "region c (bd_len a') a'" using s(2) by (simp add: buddy_inv_def)
  show ?thesis using s debug_check_ok [OF r] count_free_pages_ok [OF r] by blast
qed

lemma new_history:
  assumes "n \<le> c" and "0 < c" and "c < 2 ^ 31" and "calculate_usable_order c = Some m"
  obtains a where "buddy_new n c = Some a" and "history c a {}" and "free_pages a = {..<n}" and "bd_len a = n"
    and "bd_max_order a = m"
  using buddy_new_ok [OF assms(1,2)] history.start [OF assms(1-3)] assms(3,4) by auto

lemma usable_order_16: "calculate_usable_order 16 = Some 4"
proof -
  have "leading_zeros 16 = 27" by (simp add: leading_zeros_def upt_rec bit_nat_def)
  then show ?thesis by (simp add: calculate_usable_order_def assert_that_def MAX_MAX_PAGE_ORDER_def)
qed

theorem buddy_refines_pages_witness:
  "\<exists>a r a'. buddy_new 10 16 = Some a \<and> buddy_step (Alloc_Lowest 1) a = Some (r, a')
    \<and> page_effect (Alloc_Lowest 1) r ({..<10}, 10) (free_pages a', bd_len a')
    \<and> debug_check_consistency a' = Some () \<and> count_free_pages a' = Some (card (free_pages a'))"
proof -
  obtain a where a: "buddy_new 10 16 = Some a" "history 16 a {}" "free_pages a = {..<10}" "bd_len a = 10" "bd_max_order a = 4"
    by (rule new_history [OF _ _ _ usable_order_16, of 10]) simp_all
  show ?thesis using buddy_refines_pages [OF a(2), of "Alloc_Lowest 1"] a by auto
qed

text \<open>(C7) No page is handed out twice and none is lost: after any history every page of the region is either free or
  belongs to exactly one of the blocks the clients own, never both, no owned block reaches beyond the region,
  and \<open>count_allocated_pages\<close> is the number of pages owned. \<open>trailing_free_pages\<close> is the length of the longest run
  of free pages at the end.\<close>

theorem buddy_pages_shared_out:
  assumes "history c a H"
  shows "free_pages a \<union> pages H = {..<bd_len a} \<and> free_pages a \<inter> pages H = {}
    \<and> (\<forall>k p l q. (k, p) \<in> H \<longrightarrow> (l, q) \<in> H \<longrightarrow> (k, p) \<noteq> (l, q) \<longrightarrow> span k p \<inter> span l q = {})
    \<and> count_allocated_pages a = Some (card (pages H))
    \<and> (0 < bd_len a \<longrightarrow> (\<exists>t \<le> bd_len a. trailing_free_pages a = Some t \<and> {bd_len a - t..<bd_len a} \<subseteq> free_pages a
        \<and> (t < bd_len a \<longrightarrow> bd_len a - Suc t \<notin> free_pages a)))"
proof (intro conjI allI impI)
  have r: "region c (bd_len a) a" and H: "shared_out (bd_max_order a) (bd_len a) (free_pages a) H"
    using history_ok [OF assms] by (auto simp: buddy_inv_def)
  show all: "free_pages a \<union> pages H = {..<bd_len a}" and dis: "free_pages a \<inter> pages H = {}"
    using H unfolding shared_out_def by blast+
  then have "{..<bd_len a} - free_pages a = pages H" by blast
  then show "count_allocated_pages a = Some (card (pages H))" using count_allocated_pages_ok [OF r] by simp
  show "span k p \<inter> span l q = {}" if "(k, p) \<in> H" "(l, q) \<in> H" "(k, p) \<noteq> (l, q)" for k p l q
    using separate_span [of H k p l q] H that unfolding shared_out_def by blast
  show "\<exists>t \<le> bd_len a. trailing_free_pages a = Some t \<and> {bd_len a - t..<bd_len a} \<subseteq> free_pages a
      \<and> (t < bd_len a \<longrightarrow> bd_len a - Suc t \<notin> free_pages a)" if "0 < bd_len a"
    using trailing_free_pages_ok [OF r that] by blast
qed

theorem buddy_pages_shared_out_witness:
  "\<exists>a. buddy_new 10 16 = Some a \<and> count_allocated_pages a = Some 0 \<and> (\<exists>t. trailing_free_pages a = Some t)"
proof -
  obtain a where a: "buddy_new 10 16 = Some a" "history 16 a {}" "free_pages a = {..<10}" "bd_len a = 10" "bd_max_order a = 4"
    by (rule new_history [OF _ _ _ usable_order_16, of 10]) simp_all
  show ?thesis using buddy_pages_shared_out [OF a(2)] a(1,4) by auto
qed

text \<open>(C38) Storing the allocator and reading it back loses nothing: for a region of at most \<open>2^30\<close> pages (the store uses
  at most \<open>2^20\<close>) \<open>to_vec\<close> succeeds, and \<open>from_bytes\<close> restores an allocator of the same length with the same free
  blocks, which again meets the contract.\<close>

theorem buddy_bytes_roundtrip:
  assumes "history c a H" and "c \<le> 2 ^ 30"
  shows "\<exists>v a'. buddy_to_vec a = Some v \<and> buddy_from_bytes v = Some a' \<and> bd_len a' = bd_len a
    \<and> bd_max_order a' = bd_max_order a \<and> blocks a' = blocks a \<and> history c a' H"
proof -
  have a: "buddy_inv c a" using history_ok [OF assms(1)] by blast
  obtain v where v: "buddy_to_vec a = Some v" using buddy_to_vec_fits [OF a buddy_bytes_bound [OF a assms(2)]] by blast
  obtain a' where "buddy_from_bytes v = Some a'" "same_shape a a'" "blocks a' = blocks a" using buddy_from_to [OF a v] by blast
  then show ?thesis using v history.reload [OF assms(1) v] by (auto simp: same_shape_def)
qed

theorem buddy_bytes_roundtrip_witness:
  "\<exists>a v a'. buddy_new 10 16 = Some a \<and> buddy_to_vec a = Some v \<and> buddy_from_bytes v = Some a' \<and> blocks a' = blocks a"
proof -
  obtain a where a: "buddy_new 10 16 = Some a" "history 16 a {}" "free_pages a = {..<10}" "bd_len a = 10" "bd_max_order a = 4"
    by (rule new_history [OF _ _ _ usable_order_16, of 10]) simp_all
  show ?thesis using buddy_bytes_roundtrip [OF a(2)] a(1) by auto
qed

end
