(* ===== verification/Db_Layout.thy ===== *)
theory Db_Layout
  imports Buddy_Correct Ordered_Map
begin

text \<open>
  The file layout of the vendored redb store: \<open>layout.rs\<close> and the page numbers of \<open>base.rs\<close>
  (\<open>patches/redb/src/tree_store/page_store\<close>). A file is one header page followed by equal full regions and at most one shorter
  trailing region. The lemmas show that a calculated layout has the requested space, that a layout is recovered
  from the length of its file, and that different pages occupy disjoint parts of the file.

  Sizes are \<open>u32\<close> and \<open>u64\<close> in the source and numbers here: a region has at most \<open>2^32\<close> bytes and there are at most
  \<open>2^20\<close> regions, so that no sum leaves \<open>u64\<close>. Conversions that may fail and subtractions that may underflow are
  panics, \<open>None\<close>.
\<close>

section \<open>Regions\<close>

definition round_up_to_multiple_of :: "nat \<Rightarrow> nat \<Rightarrow> nat option" where
  "round_up_to_multiple_of value multiple = do {
     assert_that (multiple \<noteq> 0);
     Some (if value mod multiple = 0 then value else value + multiple - value mod multiple) }"

record region_layout =
  rl_num_pages :: nat
  rl_header_pages :: nat
  rl_page_size :: nat

definition rl_new :: "nat \<Rightarrow> nat \<Rightarrow> nat \<Rightarrow> region_layout option" where
  "rl_new num_pages header_pages page_size = do {
     assert_that (num_pages > 0);
     Some \<lparr>rl_num_pages = num_pages, rl_header_pages = header_pages, rl_page_size = page_size\<rparr> }"

definition rl_calculate :: "nat \<Rightarrow> nat \<Rightarrow> nat \<Rightarrow> nat \<Rightarrow> region_layout option" where
  "rl_calculate desired_usable_bytes page_capacity region_header_pages page_size = do {
     assert_that (desired_usable_bytes \<le> page_capacity * page_size);
     bytes \<leftarrow> round_up_to_multiple_of desired_usable_bytes page_size;
     num_pages \<leftarrow> try_into_u32 (bytes div page_size);
     Some \<lparr>rl_num_pages = num_pages, rl_header_pages = region_header_pages, rl_page_size = page_size\<rparr> }"

definition rl_usable_bytes :: "region_layout \<Rightarrow> nat" where
  "rl_usable_bytes r = rl_page_size r * rl_num_pages r"

definition data_section :: "region_layout \<Rightarrow> nat \<times> nat" where
  "data_section r =
     (let header_bytes = rl_header_pages r * rl_page_size r in (header_bytes, header_bytes + rl_usable_bytes r))"

definition rl_len :: "region_layout \<Rightarrow> nat" where
  "rl_len r = rl_header_pages r * rl_page_size r + rl_usable_bytes r"

section \<open>Files\<close>

record database_layout =
  dl_full :: region_layout
  dl_num_full :: nat
  dl_trailing :: "region_layout option"

definition reduce_last_region :: "nat \<Rightarrow> database_layout \<Rightarrow> database_layout option" where
  "reduce_last_region n l = (case dl_trailing l of
     Some trailing \<Rightarrow> do {
       assert_that (n \<le> rl_num_pages trailing);
       let left = rl_num_pages trailing - n;
       Some (if left = 0 then l\<lparr>dl_trailing := None\<rparr> else l\<lparr>dl_trailing := Some (trailing\<lparr>rl_num_pages := left\<rparr>)\<rparr>) }
   | None \<Rightarrow> do {
       assert_that (0 < dl_num_full l);
       let full = dl_full l;
       let l1 = l\<lparr>dl_num_full := dl_num_full l - 1\<rparr>;
       if rl_num_pages full > n then do {
         t \<leftarrow> rl_new (rl_num_pages full - n) (rl_header_pages full) (rl_page_size full);
         Some (l1\<lparr>dl_trailing := Some t\<rparr>) }
       else Some l1 })"

definition recalculate :: "nat \<Rightarrow> nat \<Rightarrow> nat \<Rightarrow> nat \<Rightarrow> database_layout option" where
  "recalculate file_len region_header_pages region_max_data_pages page_size = do {
     assert_that (page_size \<le> file_len);
     let remaining = file_len - page_size;
     let full_region_size = (region_header_pages + region_max_data_pages) * page_size;
     assert_that (full_region_size \<noteq> 0);
     let full_regions = remaining div full_region_size;
     let remaining = remaining - full_regions * full_region_size;
     trailing \<leftarrow> (if remaining \<ge> (region_header_pages + 1) * page_size then do {
         remaining \<leftarrow> try_into_u32 (remaining - region_header_pages * page_size);
         let data_pages = remaining div page_size;
         assert_that (data_pages < region_max_data_pages);
         t \<leftarrow> rl_new data_pages region_header_pages page_size;
         Some (Some t) }
       else Some None);
     full_layout \<leftarrow> rl_new region_max_data_pages region_header_pages page_size;
     num_full \<leftarrow> try_into_u32 full_regions;
     Some \<lparr>dl_full = full_layout, dl_num_full = num_full, dl_trailing = trailing\<rparr> }"

definition dl_calculate :: "nat \<Rightarrow> nat \<Rightarrow> nat \<Rightarrow> nat \<Rightarrow> database_layout option" where
  "dl_calculate desired_usable_bytes page_capacity region_header_pages page_size = do {
     full \<leftarrow> rl_new page_capacity region_header_pages page_size;
     if desired_usable_bytes \<le> rl_usable_bytes full then do {
       r \<leftarrow> rl_calculate desired_usable_bytes page_capacity region_header_pages page_size;
       Some \<lparr>dl_full = full, dl_num_full = 0, dl_trailing = Some r\<rparr> }
     else do {
       assert_that (rl_usable_bytes full \<noteq> 0);
       let full_regions = desired_usable_bytes div rl_usable_bytes full;
       let remaining_desired = desired_usable_bytes - full_regions * rl_usable_bytes full;
       assert_that (full_regions > 0);
       trailing \<leftarrow> (if remaining_desired > 0
         then map_option Some (rl_calculate remaining_desired page_capacity region_header_pages page_size)
         else Some None);
       (case trailing of Some r \<Rightarrow> assert_that (rl_header_pages r = rl_header_pages full) | None \<Rightarrow> Some ());
       num_full \<leftarrow> try_into_u32 full_regions;
       Some \<lparr>dl_full = full, dl_num_full = num_full, dl_trailing = trailing\<rparr> } }"

definition num_regions :: "database_layout \<Rightarrow> nat" where
  "num_regions l = (if dl_trailing l \<noteq> None then dl_num_full l + 1 else dl_num_full l)"

definition region_base_address :: "database_layout \<Rightarrow> nat \<Rightarrow> nat option" where
  "region_base_address l i = do {
     assert_that (i < num_regions l);
     Some (rl_page_size (dl_full l) + i * rl_len (dl_full l)) }"

definition region_layout_of :: "database_layout \<Rightarrow> nat \<Rightarrow> region_layout option" where
  "region_layout_of l i = do {
     assert_that (i < num_regions l);
     if i = dl_num_full l then dl_trailing l else Some (dl_full l) }"

definition dl_len :: "database_layout \<Rightarrow> nat option" where
  "dl_len l = do {
     assert_that (0 < num_regions l);
     let last_region = num_regions l - 1;
     base \<leftarrow> region_base_address l last_region;
     r \<leftarrow> region_layout_of l last_region;
     Some (base + rl_len r) }"

definition dl_usable_bytes :: "database_layout \<Rightarrow> nat" where
  "dl_usable_bytes l =
     dl_num_full l * rl_usable_bytes (dl_full l) + (case dl_trailing l of None \<Rightarrow> 0 | Some r \<Rightarrow> rl_usable_bytes r)"

section \<open>Page numbers\<close>

record page_number =
  pn_region :: nat
  pn_index :: nat
  pn_order :: nat

definition MAX_PAGE_INDEX :: nat where
  "MAX_PAGE_INDEX = 0xFFFFF"

definition MAX_REGIONS :: nat where
  "MAX_REGIONS = 0x100000"

definition pn_new :: "nat \<Rightarrow> nat \<Rightarrow> nat \<Rightarrow> page_number option" where
  "pn_new region_id page_index page_order = do {
     assert_that (region_id \<le> 0xFFFFF);
     assert_that (page_index \<le> MAX_PAGE_INDEX);
     assert_that (page_order \<le> MAX_MAX_PAGE_ORDER);
     Some \<lparr>pn_region = region_id, pn_index = page_index, pn_order = page_order\<rparr> }"

definition pn_word :: "page_number \<Rightarrow> u64" where
  "pn_word p = (0xFFFFF AND of_nat (pn_index p)) OR push_bit 20 (0xFFFFF AND of_nat (pn_region p))
     OR push_bit 59 (0x1F AND of_nat (pn_order p))"

definition pn_to_le_bytes :: "page_number \<Rightarrow> bytes" where
  "pn_to_le_bytes p = to_le_bytes 8 (unat (pn_word p))"

definition pn_from_le_bytes :: "bytes \<Rightarrow> page_number" where
  "pn_from_le_bytes bs =
     (let temp = of_nat (from_le_bytes bs) :: u64;
          order = unat (drop_bit 59 temp)
      in \<lparr>pn_region = unat (drop_bit 20 temp AND 0xFFFFF), pn_index = unat (temp AND drop_bit order 0xFFFFF), pn_order = order\<rparr>)"

text \<open>The order by the starting address; overlapping pages are a panic.\<close>

definition pn_cmp :: "page_number \<Rightarrow> page_number \<Rightarrow> ordering option" where
  "pn_cmp p q = (if pn_region p < pn_region q then Some Less else if pn_region p > pn_region q then Some Greater
     else do {
       let self_order0 = pn_index p * 2 ^ pn_order p;
       let other_order0 = pn_index q * 2 ^ pn_order q;
       assert_that (self_order0 \<noteq> other_order0 \<or> pn_order p = pn_order q);
       Some (if self_order0 < other_order0 then Less else if self_order0 = other_order0 then Equal else Greater) })"

definition page_size_bytes :: "page_number \<Rightarrow> nat \<Rightarrow> nat" where
  "page_size_bytes p page_size = 2 ^ pn_order p * page_size"

definition address_range :: "page_number \<Rightarrow> nat \<Rightarrow> nat \<Rightarrow> nat \<Rightarrow> nat \<Rightarrow> (nat \<times> nat) option" where
  "address_range p data_section_offset region_size region_pages_start page_size = do {
     let regional_start = region_pages_start + pn_index p * page_size_bytes p page_size;
     assert_that (regional_start < region_size);
     let start = data_section_offset + pn_region p * region_size + regional_start;
     Some (start, start + page_size_bytes p page_size) }"

text \<open>The range of a page with the parameters that \<open>TransactionalMemory\<close> keeps: the page size (the super-header is one page),
  the length of a full region and the start of its data.\<close>

definition page_range :: "database_layout \<Rightarrow> page_number \<Rightarrow> (nat \<times> nat) option" where
  "page_range l p =
     (let full = dl_full l
      in address_range p (rl_page_size full) (rl_len full) (fst (data_section full)) (rl_page_size full))"

section \<open>Well-formed layouts\<close>

definition last_pages :: "database_layout \<Rightarrow> nat" where
  "last_pages l = (case dl_trailing l of None \<Rightarrow> rl_num_pages (dl_full l) | Some r \<Rightarrow> rl_num_pages r)"

text \<open>\<open>c\<close> pages per full region, \<open>h\<close> header pages per region, pages of \<open>ps\<close> bytes.\<close>

definition layout_ok :: "nat \<Rightarrow> nat \<Rightarrow> nat \<Rightarrow> database_layout \<Rightarrow> bool" where
  "layout_ok c h ps l \<longleftrightarrow> 0 < c \<and> 0 < ps \<and> c * ps \<le> 2 ^ 32 \<and> 0 < num_regions l \<and> num_regions l < 2 ^ 32
     \<and> dl_full l = \<lparr>rl_num_pages = c, rl_header_pages = h, rl_page_size = ps\<rparr>
     \<and> (\<forall>r. dl_trailing l = Some r \<longrightarrow> (\<exists>t. 0 < t \<and> t \<le> c \<and> r = \<lparr>rl_num_pages = t, rl_header_pages = h, rl_page_size = ps\<rparr>))"

definition region_pages :: "database_layout \<Rightarrow> nat \<Rightarrow> nat" where
  "region_pages l i = (if Suc i = num_regions l then last_pages l else rl_num_pages (dl_full l))"

definition page_total :: "database_layout \<Rightarrow> nat" where
  "page_total l = (num_regions l - 1) * rl_num_pages (dl_full l) + last_pages l"

lemma last_pages_ok: "layout_ok c h ps l \<Longrightarrow> 0 < last_pages l \<and> last_pages l \<le> c"
  by (auto simp: layout_ok_def last_pages_def split: option.splits)

lemma region_pages_ok: "layout_ok c h ps l \<Longrightarrow> 0 < region_pages l i \<and> region_pages l i \<le> c"
  using last_pages_ok [of c h ps l] by (auto simp: region_pages_def layout_ok_def)

lemma region_layout_ok:
  assumes "layout_ok c h ps l" and "i < num_regions l"
  shows "region_layout_of l i = Some \<lparr>rl_num_pages = region_pages l i, rl_header_pages = h, rl_page_size = ps\<rparr>"
  using assms
  by (cases "dl_trailing l") (auto simp: layout_ok_def region_layout_of_def region_pages_def last_pages_def num_regions_def assert_that_def)

lemma dl_len_ok:
  assumes "layout_ok c h ps l"
  shows "dl_len l = Some (ps * (1 + (num_regions l - 1) * (h + c) + h + last_pages l))"
proof -
  obtain k where k: "num_regions l = Suc k" using assms by (cases "num_regions l") (auto simp: layout_ok_def)
  then show ?thesis
    using assms region_layout_ok [OF assms, of k]
    by (simp add: dl_len_def region_base_address_def assert_that_def rl_len_def rl_usable_bytes_def layout_ok_def region_pages_def
        Let_def algebra_simps)
qed

lemma dl_usable_ok:
  assumes "layout_ok c h ps l"
  shows "dl_usable_bytes l = ps * page_total l"
proof (cases "dl_trailing l")
  case None
  with assms show ?thesis
    by (cases "dl_num_full l")
      (auto simp: dl_usable_bytes_def page_total_def last_pages_def num_regions_def layout_ok_def rl_usable_bytes_def algebra_simps)
next
  case (Some r)
  with assms show ?thesis
    by (auto simp: dl_usable_bytes_def page_total_def last_pages_def num_regions_def layout_ok_def rl_usable_bytes_def algebra_simps)
qed

lemma rl_calculate_ok:
  assumes "n \<le> c" and "0 < ps" and "c < 2 ^ 32"
  shows "rl_calculate (n * ps) c h ps = Some \<lparr>rl_num_pages = n, rl_header_pages = h, rl_page_size = ps\<rparr>"
  using assms by (simp add: rl_calculate_def assert_that_def round_up_to_multiple_of_def try_into_u32_def)

lemma div_ceil_mod: "0 < c \<Longrightarrow> div_ceil n c = n div c + (if n mod c = 0 then 0 else 1)"
proof -
  assume c: "0 < c"
  have "n + c - 1 = (n mod c + c - 1) + n div c * c" using c div_mult_mod_eq [of n c] by linarith
  then have "div_ceil n c = n div c + (n mod c + c - 1) div c"
    using c div_mult_self1 [of c "n mod c + c - 1" "n div c"] by (simp only: div_ceil_def)
  moreover have "(n mod c + c - 1) div c = (if n mod c = 0 then 0 else 1)"
    using c mod_less_divisor [OF c, of n] by (auto intro: div_nat_eqI)
  ultimately show ?thesis by simp
qed

lemma div_ceil_le: "0 < c \<Longrightarrow> div_ceil n c \<le> n"
proof -
  assume c: "0 < c"
  then have "n + c - 1 < Suc n * c" by (cases c) auto
  then show ?thesis unfolding div_ceil_def by (metis less_Suc_eq_le less_mult_imp_div_less)
qed

text \<open>A layout for \<open>n\<close> pages, and what it looks like.\<close>

lemma dl_calculate_ok:
  assumes c: "0 < c" "c * ps \<le> 2 ^ 32" and ps: "1 < ps" and n: "0 < n" "n < 2 ^ 32"
  shows "\<exists>l. dl_calculate (n * ps) c h ps = Some l \<and> layout_ok c h ps l \<and> page_total l = n
    \<and> num_regions l = div_ceil n c"
proof -
  let ?full = "\<lparr>rl_num_pages = c, rl_header_pages = h, rl_page_size = ps\<rparr>"
  have c32: "c < 2 ^ 32" using c ps by (metis less_le_trans mult.right_neutral mult_less_cancel1)
  have full: "rl_new c h ps = Some ?full" using c by (simp add: rl_new_def assert_that_def)
  show ?thesis
  proof (cases "n \<le> c")
    case True
    then have "div_ceil n c = 1" using n unfolding div_ceil_def by (intro div_nat_eqI) auto
    with True show ?thesis
      using c ps n full rl_calculate_ok [OF True, of ps h] c32
      by (auto simp: dl_calculate_def rl_usable_bytes_def mult.commute layout_ok_def page_total_def last_pages_def num_regions_def)
  next
    case False
    let ?q = "n div c" and ?t = "n mod c"
    let ?l = "\<lparr>dl_full = ?full, dl_num_full = ?q,
      dl_trailing = (if ?t = 0 then None else Some \<lparr>rl_num_pages = ?t, rl_header_pages = h, rl_page_size = ps\<rparr>)\<rparr>"
    have q: "0 < ?q" "?q < 2 ^ 32" using False c n by (auto simp: div_greater_zero_iff intro: le_less_trans [OF div_le_dividend])
    have rest: "n * ps - ?q * (ps * c) = ?t * ps"
      by (metis diff_mult_distrib minus_div_mult_eq_mod mult.assoc mult.commute)
    have quot: "n * ps div (ps * c) = ?q" using ps by (simp add: mult.commute [of n])
    have "\<not> n * ps \<le> ps * c" using False ps by (simp add: mult.commute)
    moreover have "n div c * c < n \<longleftrightarrow> n mod c \<noteq> 0" using div_mult_mod_eq [of n c] by linarith
    ultimately have calc: "dl_calculate (n * ps) c h ps = Some ?l"
      using full q c ps rest quot c32 rl_calculate_ok [of ?t c ps h]
      by (simp add: dl_calculate_def rl_usable_bytes_def Let_def assert_that_def try_into_u32_def less_imp_le)
    have num: "num_regions ?l = div_ceil n c"
      using div_ceil_mod [OF c(1), of n] by (simp add: num_regions_def)
    moreover have "div_ceil n c \<le> n" using c n by (simp add: div_ceil_le)
    ultimately have "layout_ok c h ps ?l" using c ps q n by (auto simp: layout_ok_def num_regions_def less_imp_le)
    moreover have "page_total ?l = n"
      using q div_mult_mod_eq [of n c] by (auto simp: page_total_def last_pages_def num_regions_def diff_mult_distrib)
    ultimately show ?thesis using calc num by blast
  qed
qed

lemma reduce_last_region_ok:
  assumes l: "layout_ok c h ps l" and n: "n \<le> last_pages l" and left: "n < last_pages l \<or> 1 < num_regions l"
  shows "\<exists>l'. reduce_last_region n l = Some l' \<and> layout_ok c h ps l'
    \<and> num_regions l' = (if n = last_pages l then num_regions l - 1 else num_regions l)
    \<and> last_pages l' = (if n = last_pages l then c else last_pages l - n)"
proof (cases "dl_trailing l")
  case None
  with l have "0 < dl_num_full l" by (simp add: layout_ok_def num_regions_def)
  with None l n left show ?thesis
    by (auto simp: reduce_last_region_def last_pages_def layout_ok_def num_regions_def rl_new_def assert_that_def Let_def)
next
  case (Some r)
  with l n left show ?thesis
    by (auto simp: reduce_last_region_def last_pages_def layout_ok_def num_regions_def assert_that_def Let_def)
qed

text \<open>A region can be as long as a full one and still be stored as a trailing region; the layout read off the length of
  the file stores it as a full one. All regions are the same.\<close>

lemma recalculate_len:
  assumes l: "layout_ok c h ps l" and len: "dl_len l = Some n"
  shows "recalculate n h c ps = Some (if last_pages l = c then l\<lparr>dl_num_full := num_regions l, dl_trailing := None\<rparr> else l)"
proof -
  obtain k where k: "num_regions l = Suc k" using l by (cases "num_regions l") (auto simp: layout_ok_def)
  have pos: "0 < c" "0 < ps" "c * ps \<le> 2 ^ 32" and k32: "Suc k < 2 ^ 32"
    and full: "dl_full l = \<lparr>rl_num_pages = c, rl_header_pages = h, rl_page_size = ps\<rparr>"
    using l k by (auto simp: layout_ok_def)
  have last: "0 < last_pages l" "last_pages l \<le> c" using last_pages_ok [OF l] by auto
  let ?size = "(h + c) * ps"
  have n: "n = ps + (k * ?size + (h + last_pages l) * ps)" using dl_len_ok [OF l] len k by (simp add: algebra_simps)
  show ?thesis
  proof (cases "last_pages l = c")
    case True
    then have n': "n - ps = Suc k * ?size" "ps \<le> n" using n by (simp_all add: algebra_simps)
    have "l\<lparr>dl_num_full := Suc k, dl_trailing := None\<rparr> = \<lparr>dl_full = dl_full l, dl_num_full = Suc k, dl_trailing = None\<rparr>"
      by (cases l) simp
    then show ?thesis
      using True pos k32 k full n' by (simp add: recalculate_def Let_def assert_that_def rl_new_def try_into_u32_def)
  next
    case False
    then have lt: "last_pages l < c" using last by simp
    obtain t where t: "dl_trailing l = Some t" "t = \<lparr>rl_num_pages = last_pages l, rl_header_pages = h, rl_page_size = ps\<rparr>"
      using False l by (cases "dl_trailing l") (auto simp: last_pages_def layout_ok_def)
    have rest: "(h + last_pages l) * ps < ?size" using lt pos by simp
    then have quot: "(n - ps) div ?size = k" using n by (simp add: div_add1_eq)
    have "last_pages l * ps < 2 ^ 32" using lt pos by (metis less_le_trans mult_less_mono1)
    moreover have "ps \<le> last_pages l * ps" using last pos by simp
    moreover have "l = \<lparr>dl_full = dl_full l, dl_num_full = k, dl_trailing = Some t\<rparr>"
      using t(1) k by (cases l) (simp add: num_regions_def)
    ultimately show ?thesis
      using False pos k32 full n quot lt last t
      by (simp add: recalculate_def Let_def assert_that_def rl_new_def try_into_u32_def algebra_simps)
  qed
qed

lemma recalculate_ok:
  assumes l: "layout_ok c h ps l" and len: "dl_len l = Some n"
  shows "\<exists>l'. recalculate n h c ps = Some l' \<and> layout_ok c h ps l' \<and> dl_len l' = Some n
    \<and> num_regions l' = num_regions l \<and> last_pages l' = last_pages l"
proof (cases "last_pages l = c")
  case True
  let ?l = "l\<lparr>dl_num_full := num_regions l, dl_trailing := None\<rparr>"
  have n: "num_regions ?l = num_regions l" by (simp add: num_regions_def)
  have "last_pages ?l = c" using l by (simp add: last_pages_def layout_ok_def)
  moreover have ok: "layout_ok c h ps ?l" using l n by (simp add: layout_ok_def)
  ultimately show ?thesis
    using recalculate_len [OF l len] True n dl_len_ok [OF l] dl_len_ok [OF ok] len by simp
qed (use recalculate_len [OF l len] l len in simp)

section \<open>Addresses\<close>

definition page_in :: "database_layout \<Rightarrow> page_number \<Rightarrow> bool" where
  "page_in l p \<longleftrightarrow> pn_region p < num_regions l \<and> span (pn_order p) (pn_index p) \<subseteq> {..<region_pages l (pn_region p)}"

definition overlap :: "page_number \<Rightarrow> page_number \<Rightarrow> bool" where
  "overlap p q \<longleftrightarrow> pn_region p = pn_region q \<and> span (pn_order p) (pn_index p) \<inter> span (pn_order q) (pn_index q) \<noteq> {}"

text \<open>A page has the order-0 pages from \<open>first_page\<close> up to \<open>end_page\<close> of its region; counted over the file with the
  headers of the regions, they start at \<open>slot\<close>.\<close>

definition slot :: "nat \<Rightarrow> nat \<Rightarrow> nat \<Rightarrow> nat \<Rightarrow> nat" where
  "slot c h r i = 1 + r * (h + c) + h + i"

lemma slot_mono:
  assumes "r < r'" and "i \<le> c"
  shows "slot c h r i \<le> slot c h r' j"
proof -
  have "Suc r * (h + c) \<le> r' * (h + c)" using assms(1) by (intro mult_le_mono1) simp
  then show ?thesis using assms(2) by (simp add: slot_def)
qed

lemma page_bounds:
  assumes l: "layout_ok c h ps l" and p: "page_in l p"
  shows "(pn_index p + 1) * 2 ^ pn_order p \<le> region_pages l (pn_region p)"
    and "(pn_index p + 1) * 2 ^ pn_order p \<le> c"
proof -
  show le: "(pn_index p + 1) * 2 ^ pn_order p \<le> region_pages l (pn_region p)"
    using p span_below [of "pn_order p" "pn_index p" "region_pages l (pn_region p)"]
    by (simp add: page_in_def less_eq_div_iff_mult_less_eq Suc_le_eq [symmetric])
  show "(pn_index p + 1) * 2 ^ pn_order p \<le> c" using le region_pages_ok [OF l, of "pn_region p"] by linarith
qed

lemma address_range_ok:
  assumes l: "layout_ok c h ps l" and p: "page_in l p"
  shows "address_range p ps (rl_len (dl_full l)) (fst (data_section (dl_full l))) ps
    = Some (ps * slot c h (pn_region p) (pn_index p * 2 ^ pn_order p), ps * slot c h (pn_region p) ((pn_index p + 1) * 2 ^ pn_order p))"
proof -
  have "pn_index p * 2 ^ pn_order p < (pn_index p + 1) * 2 ^ pn_order p" by simp
  then have "pn_index p * 2 ^ pn_order p < c" using page_bounds(2) [OF l p] by (rule less_le_trans)
  then have "h + pn_index p * 2 ^ pn_order p < h + c" by simp
  then have "ps * (h + pn_index p * 2 ^ pn_order p) < ps * (h + c)" using l by (simp only: mult_less_cancel1) (simp add: layout_ok_def)
  then have "h * ps + pn_index p * (2 ^ pn_order p * ps) < h * ps + ps * c" by (simp add: algebra_simps)
  then show ?thesis
    using l by (simp add: address_range_def Let_def assert_that_def rl_len_def rl_usable_bytes_def data_section_def layout_ok_def
        page_size_bytes_def slot_def algebra_simps)
qed

lemma address_in_file:
  assumes l: "layout_ok c h ps l" and p: "page_in l p" and len: "dl_len l = Some n"
  shows "ps * slot c h (pn_region p) ((pn_index p + 1) * 2 ^ pn_order p) \<le> n"
proof -
  let ?last = "num_regions l - 1"
  have n: "n = ps * slot c h ?last (last_pages l)" using dl_len_ok [OF l] len by (simp add: slot_def)
  have "slot c h (pn_region p) ((pn_index p + 1) * 2 ^ pn_order p) \<le> slot c h ?last (last_pages l)"
  proof (cases "pn_region p = ?last")
    case True
    then have "region_pages l (pn_region p) = last_pages l" using l by (simp add: region_pages_def layout_ok_def)
    then show ?thesis using True page_bounds(1) [OF l p] by (simp add: slot_def)
  next
    case False
    then have "pn_region p < ?last" using p unfolding page_in_def by linarith
    from slot_mono [OF this page_bounds(2) [OF l p]] show ?thesis .
  qed
  then show ?thesis unfolding n by simp
qed

lemma slots_apart:
  assumes l: "layout_ok c h ps l" and p: "page_in l p" and q: "page_in l q" and "\<not> overlap p q"
  shows "slot c h (pn_region p) ((pn_index p + 1) * 2 ^ pn_order p) \<le> slot c h (pn_region q) (pn_index q * 2 ^ pn_order q)
    \<or> slot c h (pn_region q) ((pn_index q + 1) * 2 ^ pn_order q) \<le> slot c h (pn_region p) (pn_index p * 2 ^ pn_order p)"
proof (cases "pn_region p" "pn_region q" rule: linorder_cases)
  case less
  from slot_mono [OF less page_bounds(2) [OF l p]] show ?thesis by (rule disjI1)
next
  case greater
  from slot_mono [OF greater page_bounds(2) [OF l q]] show ?thesis by (rule disjI2)
next
  case equal
  then have dis: "span (pn_order p) (pn_index p) \<inter> span (pn_order q) (pn_index q) = {}" using assms(4) by (simp add: overlap_def)
  have "(pn_index p + 1) * 2 ^ pn_order p \<le> pn_index q * 2 ^ pn_order q \<or> (pn_index q + 1) * 2 ^ pn_order q \<le> pn_index p * 2 ^ pn_order p"
  proof (rule ccontr)
    assume "\<not> ?thesis"
    then have "max (pn_index p * 2 ^ pn_order p) (pn_index q * 2 ^ pn_order q) \<in> span (pn_order p) (pn_index p) \<inter> span (pn_order q) (pn_index q)"
      unfolding span_interval by (auto simp: max_def)
    then show False using dis by blast
  qed
  then show ?thesis using equal by (auto simp: slot_def)
qed

text \<open>(C39) Pages do not share bytes: every page of a layout has an address range, which lies behind the super-header and
  within the file, and two pages that do not overlap as blocks of a region have disjoint ranges.\<close>

theorem pages_have_their_bytes:
  assumes l: "layout_ok c h ps l" and p: "page_in l p" and q: "page_in l q" and "\<not> overlap p q"
  shows "\<exists>a b a' b' n. page_range l p = Some (a, b) \<and> page_range l q = Some (a', b') \<and> dl_len l = Some n
    \<and> ps \<le> a \<and> b - a = page_size_bytes p ps \<and> b \<le> n \<and> {a..<b} \<inter> {a'..<b'} = {}"
proof -
  obtain n where n: "dl_len l = Some n" using dl_len_ok [OF l] by blast
  have dis: "{x..<y} \<inter> {x'..<y'} = {}" if "y \<le> x' \<or> y' \<le> x" for x y x' y' :: nat using that by auto
  have apart: "ps * x \<le> ps * y" if "x \<le> y" for x y using that by (rule mult_le_mono2)
  have size: "ps * slot c h r ((i + 1) * 2 ^ k) - ps * slot c h r (i * 2 ^ k) = 2 ^ k * ps" for r i k
    by (simp add: slot_def algebra_simps)
  have "{ps * slot c h (pn_region p) (pn_index p * 2 ^ pn_order p)..<ps * slot c h (pn_region p) ((pn_index p + 1) * 2 ^ pn_order p)}
      \<inter> {ps * slot c h (pn_region q) (pn_index q * 2 ^ pn_order q)..<ps * slot c h (pn_region q) ((pn_index q + 1) * 2 ^ pn_order q)} = {}"
    by (rule dis) (use slots_apart [OF assms(1-4)] apart in blast)
  moreover have "ps \<le> ps * slot c h (pn_region p) (pn_index p * 2 ^ pn_order p)" by (simp add: slot_def)
  ultimately show ?thesis
    using address_range_ok [OF l p] address_range_ok [OF l q] address_in_file [OF l p n] n size l
    by (simp add: page_size_bytes_def page_range_def layout_ok_def)
qed

theorem pages_have_their_bytes_witness:
  "\<exists>l a b a' b' n. dl_calculate (20 * 512) 16 0 512 = Some l
    \<and> page_range l \<lparr>pn_region = 0, pn_index = 3, pn_order = 2\<rparr> = Some (a, b)
    \<and> page_range l \<lparr>pn_region = 1, pn_index = 3, pn_order = 0\<rparr> = Some (a', b') \<and> dl_len l = Some n
    \<and> 512 \<le> a \<and> b - a = 2048 \<and> b \<le> n \<and> {a..<b} \<inter> {a'..<b'} = {}"
proof -
  let ?p = "\<lparr>pn_region = 0, pn_index = 3, pn_order = 2\<rparr>" and ?q = "\<lparr>pn_region = 1, pn_index = 3, pn_order = 0\<rparr>"
  let ?r = "\<lambda>n. \<lparr>rl_num_pages = n, rl_header_pages = 0, rl_page_size = 512\<rparr>"
  let ?l = "\<lparr>dl_full = ?r 16, dl_num_full = 1, dl_trailing = Some (?r 4)\<rparr>"
  have calc: "dl_calculate (20 * 512) 16 0 512 = Some ?l"
    by (simp add: dl_calculate_def rl_new_def rl_calculate_def round_up_to_multiple_of_def assert_that_def rl_usable_bytes_def
        try_into_u32_def Let_def)
  have l: "layout_ok 16 0 512 ?l" by (simp add: layout_ok_def num_regions_def)
  have "page_in ?l ?p" "page_in ?l ?q" "\<not> overlap ?p ?q"
    by (simp_all add: page_in_def overlap_def span_below num_regions_def region_pages_def last_pages_def del: in_span)
  from pages_have_their_bytes [OF l this] show ?thesis using calc by (simp add: page_size_bytes_def)
qed

section \<open>Serialised page numbers\<close>

lemma low_bits: "n < 2 ^ k \<Longrightarrow> bit n i \<Longrightarrow> i < k" for n :: nat
  by (rule ccontr) (simp add: bit_iff_odd div_less less_le_trans)

lemma bit_of_nat_word: "bit (of_nat n :: 'a :: len word) i \<longleftrightarrow> i < LENGTH('a) \<and> bit n i"
  by transfer (simp add: bit_take_bit_iff bit_of_nat_iff_bit)

lemma masks: "(0xFFFFF :: u64) = mask 20" "(0x1F :: u64) = mask 5"
  by (simp_all add: mask_eq_exp_minus_1)

definition pn_valid :: "page_number \<Rightarrow> bool" where
  "pn_valid p \<longleftrightarrow> pn_region p < 2 ^ 20 \<and> pn_order p \<le> 20 \<and> pn_index p < 2 ^ (20 - pn_order p)"

lemma pn_valid_bits:
  assumes "pn_valid p"
  shows "bit (pn_index p) i \<Longrightarrow> i < 20 - pn_order p" "bit (pn_region p) i \<Longrightarrow> i < 20" "bit (pn_order p) i \<Longrightarrow> i < 5"
  using assms low_bits [of "pn_index p" "20 - pn_order p" i] low_bits [of "pn_region p" 20 i] low_bits [of "pn_order p" 5 i]
  by (simp_all add: pn_valid_def)

lemma bit_pn_word:
  assumes "pn_valid p"
  shows "bit (pn_word p) i \<longleftrightarrow> bit (pn_index p) i \<or> 20 \<le> i \<and> bit (pn_region p) (i - 20) \<or> 59 \<le> i \<and> bit (pn_order p) (i - 59)"
proof -
  have "bit (pn_index p) i \<Longrightarrow> i < 20" "bit (pn_region p) (i - 20) \<Longrightarrow> i < 40" "bit (pn_order p) (i - 59) \<Longrightarrow> i < 64"
    using pn_valid_bits(1) [OF assms, of i] pn_valid_bits(2) [OF assms, of "i - 20"] pn_valid_bits(3) [OF assms, of "i - 59"] by linarith+
  then show ?thesis
    unfolding pn_word_def masks bit_or_iff bit_and_iff bit_push_bit_iff bit_mask_iff bit_of_nat_word by auto
qed

lemma pn_roundtrip:
  assumes p: "pn_valid p"
  shows "pn_from_le_bytes (pn_to_le_bytes p) = p"
proof -
  note bits = pn_valid_bits [OF p]
  have ord: "pn_order p < 2 ^ 64" and reg: "pn_region p < 2 ^ 64" using p by (simp_all add: pn_valid_def)
  have "pn_index p < 2 ^ 20" using p power_increasing [of "20 - pn_order p" 20 "2 :: nat"] by (simp add: pn_valid_def)
  then have idx: "pn_index p < 2 ^ 64" by simp
  have "bit (drop_bit 59 (pn_word p)) i \<longleftrightarrow> bit (of_nat (pn_order p) :: u64) i" for i
    using bits(1) [of "59 + i"] bits(2) [of "39 + i"] bits(3) [of i] by (auto simp: bit_drop_bit_eq bit_pn_word [OF p] bit_of_nat_word)
  then have "drop_bit 59 (pn_word p) = of_nat (pn_order p)" by (rule bit_eqI)
  then have o1: "unat (drop_bit 59 (pn_word p)) = pn_order p" using ord by (simp add: unat_of_nat)
  have "bit (drop_bit 20 (pn_word p) AND 0xFFFFF) i \<longleftrightarrow> bit (of_nat (pn_region p) :: u64) i" for i
    using bits(1) [of "20 + i"] bits(2) [of i]
    unfolding masks by (auto simp: bit_and_iff bit_mask_iff bit_drop_bit_eq bit_pn_word [OF p] bit_of_nat_word)
  then have "drop_bit 20 (pn_word p) AND 0xFFFFF = of_nat (pn_region p)" by (rule bit_eqI)
  then have r1: "unat (drop_bit 20 (pn_word p) AND 0xFFFFF) = pn_region p" using reg by (simp add: unat_of_nat)
  have "bit (pn_word p AND drop_bit (pn_order p) 0xFFFFF) i \<longleftrightarrow> bit (of_nat (pn_index p) :: u64) i" for i
    using bits(1) [of i]
    unfolding masks by (auto simp: bit_and_iff bit_mask_iff bit_drop_bit_eq bit_pn_word [OF p] bit_of_nat_word)
  then have "pn_word p AND drop_bit (pn_order p) 0xFFFFF = of_nat (pn_index p)" by (rule bit_eqI)
  then have i1: "unat (pn_word p AND drop_bit (pn_order p) 0xFFFFF) = pn_index p" using idx by (simp add: unat_of_nat)
  show ?thesis using o1 r1 i1 by (simp add: pn_from_le_bytes_def pn_to_le_bytes_def Let_def)
qed

end
