(* ===== verification/Db_Header.thy ===== *)
theory Db_Header
  imports Db_Layout
begin

text \<open>
  The super-header of the vendored redb store (\<open>header.rs\<close>, with \<open>BtreeHeader\<close> of \<open>btree_base.rs\<close> and the header writes of
  \<open>commit_inner\<close> in \<open>page_manager.rs\<close>): 64 bytes with the primary bit and the layout, then two commit slots of 128 bytes, each
  with a checksum. A commit writes the secondary slot, and then makes it the primary one. The checksum function is
  an argument of which only the width is used. A panic is \<open>None\<close>, an error is \<open>Inl\<close>.

  The theorems show that the header reads back as written, and that a crash at any moment of a commit leaves either
  the old or the new transaction as the one that the repair picks.
\<close>

section \<open>Trees and commit slots\<close>

definition copy_from_slice :: "bytes \<Rightarrow> nat \<Rightarrow> bytes \<Rightarrow> bytes" where
  "copy_from_slice result offset bs = take offset result @ bs @ drop (offset + length bs) result"

record btree_header =
  bh_root :: page_number
  bh_checksum :: nat
  bh_length :: nat

definition bh_to_le_bytes :: "btree_header \<Rightarrow> bytes" where
  "bh_to_le_bytes b = pn_to_le_bytes (bh_root b) @ to_le_bytes 16 (bh_checksum b) @ to_le_bytes 8 (bh_length b)"

definition bh_from_le_bytes :: "bytes \<Rightarrow> btree_header" where
  "bh_from_le_bytes bs =
     \<lparr>bh_root = pn_from_le_bytes (take 8 bs), bh_checksum = from_le_bytes (take 16 (drop 8 bs)),
      bh_length = from_le_bytes (take 8 (drop 24 bs))\<rparr>"

definition FILE_FORMAT_VERSION1 :: nat where "FILE_FORMAT_VERSION1 = 1"

definition FILE_FORMAT_VERSION2 :: nat where "FILE_FORMAT_VERSION2 = 2"

definition FILE_FORMAT_VERSION3 :: nat where "FILE_FORMAT_VERSION3 = 3"

record transaction_header =
  th_version :: nat
  th_user_root :: "btree_header option"
  th_system_root :: "btree_header option"
  th_transaction_id :: nat

datatype db_error = UpgradeRequired nat | Corrupted | RepairAborted

definition th_new :: "nat \<Rightarrow> transaction_header" where
  "th_new transaction_id =
     \<lparr>th_version = FILE_FORMAT_VERSION3, th_user_root = None, th_system_root = None, th_transaction_id = transaction_id\<rparr>"

definition put_root :: "btree_header option \<Rightarrow> nat \<Rightarrow> nat \<Rightarrow> bytes \<Rightarrow> bytes" where
  "put_root root flag_offset offset result = (case root of
     None \<Rightarrow> result | Some header \<Rightarrow> copy_from_slice (copy_from_slice result flag_offset [1]) offset (bh_to_le_bytes header))"

definition th_to_bytes :: "(bytes \<Rightarrow> nat) \<Rightarrow> transaction_header \<Rightarrow> bytes option" where
  "th_to_bytes xxh3 t = do {
     assert_that (th_version t = FILE_FORMAT_VERSION3);
     let result = replicate 128 0;
     let result = copy_from_slice result 0 [of_nat (th_version t)];
     let result = put_root (th_user_root t) 1 8 result;
     let result = put_root (th_system_root t) 2 40 result;
     let result = copy_from_slice result 104 (to_le_bytes 8 (th_transaction_id t));
     let checksum = xxh3 (take 112 result);
     Some (copy_from_slice result 112 (to_le_bytes 16 checksum)) }"

definition get_root :: "bytes \<Rightarrow> nat \<Rightarrow> nat \<Rightarrow> btree_header option option" where
  "get_root data flag_offset offset = do {
     flag \<leftarrow> index_at data flag_offset;
     if flag \<noteq> 0 then do { bs \<leftarrow> slice data offset (offset + 32); Some (Some (bh_from_le_bytes bs)) } else Some None }"

text \<open>The flag says whether the checksum was corrupted.\<close>

definition th_from_bytes :: "(bytes \<Rightarrow> nat) \<Rightarrow> bytes \<Rightarrow> (db_error + transaction_header \<times> bool) option" where
  "th_from_bytes xxh3 data = do {
     v \<leftarrow> index_at data 0;
     let version = unat v;
     if version = FILE_FORMAT_VERSION1 \<or> version = FILE_FORMAT_VERSION2 then Some (Inl (UpgradeRequired version))
     else if version \<noteq> FILE_FORMAT_VERSION3 then Some (Inl Corrupted)
     else do {
       chk \<leftarrow> slice data 112 128;
       covered \<leftarrow> slice data 0 112;
       let corrupted = (from_le_bytes chk \<noteq> xxh3 covered);
       user_root \<leftarrow> get_root data 1 8;
       system_root \<leftarrow> get_root data 2 40;
       tid \<leftarrow> slice data 104 112;
       Some (Inr (\<lparr>th_version = version, th_user_root = user_root, th_system_root = system_root,
                   th_transaction_id = from_le_bytes tid\<rparr>, corrupted)) } }"

section \<open>The header\<close>

definition MAGICNUMBER :: bytes where
  "MAGICNUMBER = [0x72, 0x65, 0x64, 0x62, 0x1A, 0x0A, 0xA9, 0x0D, 0x0A]"

record header_repair_info =
  invalid_magic_number :: bool
  primary_corrupted :: bool
  secondary_corrupted :: bool

record database_header =
  dh_primary_slot :: nat
  recovery_required :: bool
  two_phase_commit :: bool
  dh_page_size :: nat
  region_header_pages :: nat
  region_max_data_pages :: nat
  full_regions :: nat
  trailing_partial_region_pages :: nat
  transaction_slots :: "transaction_header list"

definition dh_new :: "database_layout \<Rightarrow> nat \<Rightarrow> database_header" where
  "dh_new l transaction_id =
     \<lparr>dh_primary_slot = 0, recovery_required = True, two_phase_commit = False,
      dh_page_size = rl_page_size (dl_full l), region_header_pages = rl_header_pages (dl_full l),
      region_max_data_pages = rl_num_pages (dl_full l), full_regions = dl_num_full l,
      trailing_partial_region_pages = (case dl_trailing l of None \<Rightarrow> 0 | Some r \<Rightarrow> rl_num_pages r),
      transaction_slots = [th_new transaction_id, th_new transaction_id]\<rparr>"

definition dh_layout :: "database_header \<Rightarrow> database_layout option" where
  "dh_layout h = do {
     full \<leftarrow> rl_new (region_max_data_pages h) (region_header_pages h) (dh_page_size h);
     trailing \<leftarrow> (if trailing_partial_region_pages h > 0
       then map_option Some (rl_new (trailing_partial_region_pages h) (region_header_pages h) (dh_page_size h))
       else Some None);
     Some \<lparr>dl_full = full, dl_num_full = full_regions h, dl_trailing = trailing\<rparr> }"

definition set_layout :: "database_layout \<Rightarrow> database_header \<Rightarrow> database_header option" where
  "set_layout l h = do {
     old \<leftarrow> dh_layout h;
     assert_that (dl_full old = dl_full l);
     case dl_trailing l of
       Some trailing \<Rightarrow> do {
         assert_that (rl_header_pages trailing = region_header_pages h);
         assert_that (rl_page_size trailing = dh_page_size h);
         Some (h\<lparr>trailing_partial_region_pages := rl_num_pages trailing, full_regions := dl_num_full l\<rparr>) }
     | None \<Rightarrow> Some (h\<lparr>trailing_partial_region_pages := 0, full_regions := dl_num_full l\<rparr>) }"

definition primary_slot :: "database_header \<Rightarrow> transaction_header option" where
  "primary_slot h = index_at (transaction_slots h) (dh_primary_slot h)"

definition secondary_slot :: "database_header \<Rightarrow> transaction_header option" where
  "secondary_slot h = index_at (transaction_slots h) (dh_primary_slot h XOR 1)"

text \<open>Storing through \<open>secondary_slot_mut\<close>.\<close>

definition put_secondary_slot :: "transaction_header \<Rightarrow> database_header \<Rightarrow> database_header option" where
  "put_secondary_slot t h = do {
     assert_that (dh_primary_slot h XOR 1 < length (transaction_slots h));
     Some (h\<lparr>transaction_slots := (transaction_slots h)[dh_primary_slot h XOR 1 := t]\<rparr>) }"

definition swap_primary_slot :: "database_header \<Rightarrow> database_header" where
  "swap_primary_slot h = h\<lparr>dh_primary_slot := dh_primary_slot h XOR 1\<rparr>"

text \<open>The flag of \<open>pick_primary_for_repair\<close> says whether the original primary was kept.\<close>

definition pick_primary_for_repair ::
  "header_repair_info \<Rightarrow> database_header \<Rightarrow> (db_error + bool \<times> database_header) option" where
  "pick_primary_for_repair info h =
     (if two_phase_commit h then (if primary_corrupted info then Some (Inl Corrupted) else Some (Inr (True, h)))
      else if primary_corrupted info then
        (if secondary_corrupted info then Some (Inl Corrupted) else Some (Inr (False, swap_primary_slot h)))
      else do {
        secondary \<leftarrow> secondary_slot h;
        primary \<leftarrow> primary_slot h;
        Some (if th_transaction_id secondary > th_transaction_id primary \<and> \<not> secondary_corrupted info
              then Inr (False, swap_primary_slot h) else Inr (True, h)) })"

definition get_u32 :: "bytes \<Rightarrow> nat \<Rightarrow> nat option" where
  "get_u32 data offset = map_option from_le_bytes (slice data offset (offset + 4))"

definition dh_from_bytes ::
  "(bytes \<Rightarrow> nat) \<Rightarrow> bytes \<Rightarrow> (db_error + database_header \<times> header_repair_info) option" where
  "dh_from_bytes xxh3 data = do {
     magic \<leftarrow> slice data 0 9;
     god \<leftarrow> index_at data 9;
     let primary = (if god AND 1 \<noteq> 0 then 1 else 0);
     page_size \<leftarrow> get_u32 data 12;
     header_pages \<leftarrow> get_u32 data 16;
     max_data_pages \<leftarrow> get_u32 data 20;
     full \<leftarrow> get_u32 data 24;
     trailing \<leftarrow> get_u32 data 28;
     bytes0 \<leftarrow> slice data 64 192;
     r0 \<leftarrow> th_from_bytes xxh3 bytes0;
     case r0 of Inl e \<Rightarrow> Some (Inl e)
     | Inr (slot0, slot0_corrupted) \<Rightarrow> do {
         bytes1 \<leftarrow> slice data 192 320;
         r1 \<leftarrow> th_from_bytes xxh3 bytes1;
         case r1 of Inl e \<Rightarrow> Some (Inl e)
         | Inr (slot1, slot1_corrupted) \<Rightarrow>
             Some (Inr (\<lparr>dh_primary_slot = primary, recovery_required = (god AND 2 \<noteq> 0), two_phase_commit = (god AND 4 \<noteq> 0),
                         dh_page_size = page_size, region_header_pages = header_pages,
                         region_max_data_pages = max_data_pages, full_regions = full,
                         trailing_partial_region_pages = trailing, transaction_slots = [slot0, slot1]\<rparr>,
                       \<lparr>invalid_magic_number = (magic \<noteq> MAGICNUMBER),
                        primary_corrupted = (if primary = 0 then slot0_corrupted else slot1_corrupted),
                        secondary_corrupted = (if primary = 0 then slot1_corrupted else slot0_corrupted)\<rparr>)) } }"

definition god_byte :: "database_header \<Rightarrow> u8" where
  "god_byte h = of_nat (dh_primary_slot h) OR (if recovery_required h then 2 else 0) OR (if two_phase_commit h then 4 else 0)"

definition dh_to_bytes :: "(bytes \<Rightarrow> nat) \<Rightarrow> bool \<Rightarrow> database_header \<Rightarrow> bytes option" where
  "dh_to_bytes xxh3 include_magic_number h = do {
     let result = replicate 320 0;
     let result = (if include_magic_number then copy_from_slice result 0 MAGICNUMBER else result);
     assert_that (dh_primary_slot h < 256);
     let result = copy_from_slice result 9 [god_byte h];
     let result = copy_from_slice result 12 (to_le_bytes 4 (dh_page_size h));
     let result = copy_from_slice result 16 (to_le_bytes 4 (region_header_pages h));
     let result = copy_from_slice result 20 (to_le_bytes 4 (region_max_data_pages h));
     let result = copy_from_slice result 24 (to_le_bytes 4 (full_regions h));
     let result = copy_from_slice result 28 (to_le_bytes 4 (trailing_partial_region_pages h));
     t0 \<leftarrow> index_at (transaction_slots h) 0;
     slot0 \<leftarrow> th_to_bytes xxh3 t0;
     let result = copy_from_slice result 64 slot0;
     t1 \<leftarrow> index_at (transaction_slots h) 1;
     slot1 \<leftarrow> th_to_bytes xxh3 t1;
     Some (copy_from_slice result 192 slot1) }"

text \<open>Opening an existing file (\<open>TransactionalMemory::new\<close>) of the given length; the header is written back after a repair.\<close>

definition open_header ::
  "(bytes \<Rightarrow> nat) \<Rightarrow> nat \<Rightarrow> nat \<Rightarrow> bool \<Rightarrow> bytes \<Rightarrow> (db_error + database_header) option" where
  "open_header xxh3 page_size file_len read_only header_bytes = do {
     r \<leftarrow> dh_from_bytes xxh3 header_bytes;
     case r of Inl e \<Rightarrow> Some (Inl e)
     | Inr (header, repair_info) \<Rightarrow> do {
         assert_that (dh_page_size header = page_size);
         l \<leftarrow> dh_layout header;
         n \<leftarrow> dl_len l;
         assert_that (file_len \<ge> n);
         let needs_recovery = (recovery_required header \<or> n \<noteq> file_len);
         opened \<leftarrow> (if needs_recovery then
             (if read_only then Some (Inl RepairAborted)
              else do {
                l' \<leftarrow> recalculate file_len (rl_header_pages (dl_full l)) (rl_num_pages (dl_full l)) page_size;
                header' \<leftarrow> set_layout l' header;
                q \<leftarrow> pick_primary_for_repair repair_info header';
                case q of Inl e \<Rightarrow> Some (Inl e)
                | Inr (_, header'') \<Rightarrow> do { assert_that (\<not> invalid_magic_number repair_info); Some (Inr header'') } })
           else Some (Inr header));
         case opened of Inl e \<Rightarrow> Some (Inl e)
         | Inr h \<Rightarrow> do {
             l1 \<leftarrow> dh_layout h;
             n1 \<leftarrow> dl_len l1;
             assert_that (n1 = file_len);
             Some (Inr h) } } }"

text \<open>The two headers that \<open>commit_inner\<close> writes: the new commit in the secondary slot, then the secondary slot as the
  primary one.\<close>

definition commit_headers ::
  "btree_header option \<Rightarrow> btree_header option \<Rightarrow> nat \<Rightarrow> bool \<Rightarrow> database_header \<Rightarrow> (database_header \<times> database_header) option" where
  "commit_headers data_root system_root transaction_id two_phase header = do {
     secondary \<leftarrow> secondary_slot header;
     first \<leftarrow> put_secondary_slot
       (secondary\<lparr>th_transaction_id := transaction_id, th_user_root := data_root, th_system_root := system_root\<rparr>) header;
     Some (first, (swap_primary_slot first)\<lparr>two_phase_commit := two_phase\<rparr>) }"

section \<open>Fields at fixed offsets\<close>

text \<open>An array of fields is the concatenation of its chunks; writing a field replaces a chunk of the same length.\<close>

lemma concat_split: "i < length cs \<Longrightarrow> concat cs = concat (take i cs) @ cs ! i @ concat (drop (Suc i) cs)"
  by (metis append_take_drop_id concat.simps(2) concat_append Cons_nth_drop_Suc)

lemma copy_chunk:
  assumes "i < length cs" and "offset = length (concat (take i cs))" and "length b = length (cs ! i)"
  shows "copy_from_slice (concat cs) offset b = concat (cs[i := b])"
proof -
  have "drop (offset + length b) (concat cs) = concat (drop (Suc i) cs)"
    using assms(2,3) by (subst concat_split [OF assms(1)]) simp
  moreover have "take offset (concat cs) = concat (take i cs)"
    using assms(2) by (subst concat_split [OF assms(1)]) simp
  ultimately show ?thesis
    using concat_split [of i "cs[i := b]"] assms(1) by (simp add: copy_from_slice_def)
qed

lemma slice_field:
  assumes "i < length cs" and "offset = length (concat (take i cs))" and "stop = offset + length (cs ! i)"
  shows "slice (concat cs) offset stop = Some (cs ! i)"
proof -
  have "stop \<le> length (concat cs)" using assms(2,3) by (subst concat_split [OF assms(1)]) simp
  moreover have "take (stop - offset) (drop offset (concat cs)) = cs ! i"
    using assms(2,3) by (subst concat_split [OF assms(1)]) simp
  ultimately show ?thesis using assms(3) by (simp add: slice_def)
qed

lemma index_chunk:
  assumes "i < length cs" and "offset = length (concat (take i cs))" and "cs ! i = [x]"
  shows "index_at (concat cs) offset = Some x"
proof -
  have "offset < length (concat cs)" using assms(2,3) by (subst concat_split [OF assms(1)]) simp
  moreover have "concat cs ! offset = x" using assms(2,3) by (subst concat_split [OF assms(1)]) (simp add: nth_append)
  ultimately show ?thesis by (simp add: index_at_def)
qed

section \<open>Commit slots read back\<close>

definition root_flag :: "btree_header option \<Rightarrow> u8" where
  "root_flag r = (if r = None then 0 else 1)"

definition root_bytes :: "btree_header option \<Rightarrow> bytes" where
  "root_bytes r = (case r of None \<Rightarrow> replicate 32 0 | Some b \<Rightarrow> bh_to_le_bytes b)"

lemma length_pn_bytes [simp]: "length (pn_to_le_bytes p) = 8"
  by (simp add: pn_to_le_bytes_def)

lemma length_root_bytes [simp]: "length (root_bytes r) = 32"
  by (auto simp: root_bytes_def bh_to_le_bytes_def split: option.split)

definition slot_chunks :: "transaction_header \<Rightarrow> bytes list" where
  "slot_chunks t = [[3], [root_flag (th_user_root t)], [root_flag (th_system_root t)], replicate 5 0, root_bytes (th_user_root t),
     root_bytes (th_system_root t), replicate 32 0, to_le_bytes 8 (th_transaction_id t)]"

definition slot_image :: "(bytes \<Rightarrow> nat) \<Rightarrow> transaction_header \<Rightarrow> bytes" where
  "slot_image xxh3 t = concat (slot_chunks t) @ to_le_bytes 16 (xxh3 (concat (slot_chunks t)))"

lemma put_root_chunks:
  assumes "i < length cs" "j < length cs" "i \<noteq> j" "cs ! i = [0]" "cs ! j = replicate 32 0"
    and "f = length (concat (take i cs))" "g = length (concat (take j (cs[i := [root_flag r]])))"
  shows "put_root r f g (concat cs) = concat (cs[i := [root_flag r], j := root_bytes r])"
proof (cases r)
  case None
  have "cs[i := [0], j := replicate 32 0] = cs" using assms(4,5) list_update_id by metis
  with None show ?thesis by (simp add: put_root_def root_flag_def root_bytes_def)
next
  case (Some b)
  have "length (bh_to_le_bytes b) = 32" using length_root_bytes [of "Some b"] by (simp add: root_bytes_def)
  then show ?thesis
    using Some assms copy_chunk [of i cs f "[1]"] copy_chunk [of j "cs[i := [1]]" g "bh_to_le_bytes b"]
    by (simp add: put_root_def root_flag_def root_bytes_def)
qed

lemma th_to_bytes_image:
  assumes "th_version t = 3"
  shows "th_to_bytes xxh3 t = Some (slot_image xxh3 t)"
proof -
  let ?z = "\<lambda>n. replicate n 0 :: bytes"
  let ?u = "th_user_root t" and ?s = "th_system_root t"
  have r0: "?z 128 = concat [[0], [0], [0], ?z 5, ?z 32, ?z 32, ?z 32, ?z 8, ?z 16]"
    by (simp add: numeral_eq_Suc)
  have r1: "copy_from_slice (?z 128) 0 [3] = concat [[3], [0], [0], ?z 5, ?z 32, ?z 32, ?z 32, ?z 8, ?z 16]"
    unfolding r0 by (subst copy_chunk [of 0]) simp_all
  have r2: "put_root ?u 1 8 (copy_from_slice (?z 128) 0 [3])
      = concat [[3], [root_flag ?u], [0], ?z 5, root_bytes ?u, ?z 32, ?z 32, ?z 8, ?z 16]"
    unfolding r1 by (subst put_root_chunks [of 1 _ 4]) simp_all
  have r3: "put_root ?s 2 40 (put_root ?u 1 8 (copy_from_slice (?z 128) 0 [3]))
      = concat [[3], [root_flag ?u], [root_flag ?s], ?z 5, root_bytes ?u, root_bytes ?s, ?z 32, ?z 8, ?z 16]"
    unfolding r2 by (subst put_root_chunks [of 2 _ 5]) simp_all
  have r4: "copy_from_slice (put_root ?s 2 40 (put_root ?u 1 8 (copy_from_slice (?z 128) 0 [3]))) 104 (to_le_bytes 8 (th_transaction_id t))
      = concat (slot_chunks t @ [?z 16])"
    unfolding r3 by (subst copy_chunk [of 7]) (simp_all add: slot_chunks_def)
  have len: "length (concat (slot_chunks t)) = 112" by (simp add: slot_chunks_def)
  have r5: "copy_from_slice (concat (slot_chunks t @ [?z 16])) 112 b = concat (slot_chunks t @ [b])" if "length b = 16" for b
    using len that by (subst copy_chunk [of 8]) (simp_all add: slot_chunks_def)
  show ?thesis
    using assms r4 r5 len by (simp add: th_to_bytes_def Let_def assert_that_def FILE_FORMAT_VERSION3_def slot_image_def)
qed

definition root_valid :: "btree_header option \<Rightarrow> bool" where
  "root_valid r \<longleftrightarrow> (case r of None \<Rightarrow> True | Some b \<Rightarrow> pn_valid (bh_root b) \<and> bh_checksum b < 2 ^ 128 \<and> bh_length b < 2 ^ 64)"

definition th_valid :: "transaction_header \<Rightarrow> bool" where
  "th_valid t \<longleftrightarrow> th_version t = 3 \<and> root_valid (th_user_root t) \<and> root_valid (th_system_root t) \<and> th_transaction_id t < 2 ^ 64"

lemma bh_roundtrip: "root_valid (Some b) \<Longrightarrow> bh_from_le_bytes (bh_to_le_bytes b) = b"
  by (simp add: root_valid_def bh_from_le_bytes_def bh_to_le_bytes_def pn_roundtrip)

lemma get_root_chunk:
  assumes "root_valid r" "i < length cs" "j < length cs" "cs ! i = [root_flag r]" "cs ! j = root_bytes r"
    and "f = length (concat (take i cs))" "g = length (concat (take j cs))"
  shows "get_root (concat cs) f g = Some r"
proof (cases r)
  case None
  then show ?thesis using assms index_chunk [of i cs f] by (simp add: get_root_def root_flag_def)
next
  case (Some b)
  then show ?thesis
    using assms index_chunk [of i cs f] slice_field [of j cs g "g + 32"] bh_roundtrip [of b] length_root_bytes [of r]
    by (simp add: get_root_def root_flag_def root_bytes_def)
qed

text \<open>A slot of which the first 112 bytes are intact reads back; the flag compares the checksum.\<close>

lemma th_from_image:
  assumes t: "th_valid t" and chk: "length chk = 16"
  shows "th_from_bytes xxh3 (concat (slot_chunks t) @ chk) = Some (Inr (t, from_le_bytes chk \<noteq> xxh3 (concat (slot_chunks t))))"
proof -
  let ?cs = "slot_chunks t @ [chk]"
  have image: "concat (slot_chunks t) @ chk = concat ?cs" by simp
  have len: "length (concat (slot_chunks t)) = 112" by (simp add: slot_chunks_def)
  have "index_at (concat ?cs) 0 = Some 3" by (rule index_chunk [of 0]) (simp_all add: slot_chunks_def)
  moreover have "slice (concat ?cs) 112 128 = Some chk"
    using slice_field [of 8 ?cs 112 128] chk by (simp add: slot_chunks_def)
  moreover have "slice (concat ?cs) 0 112 = Some (concat (slot_chunks t))" using len by (simp add: slice_def)
  moreover have "slice (concat ?cs) 104 112 = Some (to_le_bytes 8 (th_transaction_id t))"
    using slice_field [of 7 ?cs 104 112] by (simp add: slot_chunks_def)
  moreover have "get_root (concat ?cs) 1 8 = Some (th_user_root t)"
    using t by (intro get_root_chunk [of _ 1 _ 4]) (simp_all add: slot_chunks_def th_valid_def)
  moreover have "get_root (concat ?cs) 2 40 = Some (th_system_root t)"
    using t by (intro get_root_chunk [of _ 2 _ 5]) (simp_all add: slot_chunks_def th_valid_def)
  ultimately show ?thesis
    unfolding image using t
    by (cases t) (simp add: th_from_bytes_def Let_def FILE_FORMAT_VERSION1_def FILE_FORMAT_VERSION2_def FILE_FORMAT_VERSION3_def th_valid_def)
qed

lemma th_roundtrip:
  assumes "th_valid t" and "\<And>bs. xxh3 bs < 2 ^ 128"
  shows "th_from_bytes xxh3 (slot_image xxh3 t) = Some (Inr (t, False))"
  using th_from_image [OF assms(1), of "to_le_bytes 16 (xxh3 (concat (slot_chunks t)))" xxh3] assms(2)
  by (simp add: slot_image_def)

section \<open>Headers read back\<close>

definition head_chunks :: "bool \<Rightarrow> database_header \<Rightarrow> bytes list" where
  "head_chunks magic h = [if magic then MAGICNUMBER else replicate 9 0, [god_byte h], replicate 2 0, to_le_bytes 4 (dh_page_size h),
     to_le_bytes 4 (region_header_pages h), to_le_bytes 4 (region_max_data_pages h), to_le_bytes 4 (full_regions h),
     to_le_bytes 4 (trailing_partial_region_pages h), replicate 32 0]"

definition dh_valid :: "database_header \<Rightarrow> bool" where
  "dh_valid h \<longleftrightarrow> dh_primary_slot h < 2 \<and> dh_page_size h < 2 ^ 32 \<and> region_header_pages h < 2 ^ 32
     \<and> region_max_data_pages h < 2 ^ 32 \<and> full_regions h < 2 ^ 32 \<and> trailing_partial_region_pages h < 2 ^ 32
     \<and> length (transaction_slots h) = 2 \<and> (\<forall>t \<in> set (transaction_slots h). th_valid t)"

lemma length_slot_image [simp]: "length (slot_image xxh3 t) = 128"
  by (simp add: slot_image_def slot_chunks_def)

lemma dh_to_bytes_image:
  assumes "dh_valid h"
  shows "dh_to_bytes xxh3 magic h = Some (concat (head_chunks magic h @ map (slot_image xxh3) (transaction_slots h)))"
proof -
  let ?z = "\<lambda>n. replicate n 0 :: bytes"
  obtain t0 t1 where ts: "transaction_slots h = [t0, t1]" "th_valid t0" "th_valid t1"
    using assms by (auto simp: dh_valid_def numeral_2_eq_2 length_Suc_conv)
  have len: "length MAGICNUMBER = 9" by (simp add: MAGICNUMBER_def)
  let ?m = "if magic then MAGICNUMBER else ?z 9"
  have z: "?z 320 = concat [?z 9, [0], ?z 2, ?z 4, ?z 4, ?z 4, ?z 4, ?z 4, ?z 32, ?z 128, ?z 128]"
    by (simp add: replicate_add [symmetric] replicate_append_same flip: replicate_Suc)
  have r0: "(if magic then copy_from_slice (?z 320) 0 MAGICNUMBER else ?z 320)
      = concat [?m, [0], ?z 2, ?z 4, ?z 4, ?z 4, ?z 4, ?z 4, ?z 32, ?z 128, ?z 128]"
    unfolding z using len by (cases magic) (simp_all add: copy_chunk [of 0] length_concat del: concat.simps)
  show ?thesis
    using assms ts len unfolding dh_to_bytes_def Let_def r0
    by (simp add: copy_chunk [of 1] copy_chunk [of 3] copy_chunk [of 4] copy_chunk [of 5] copy_chunk [of 6] copy_chunk [of 7]
        copy_chunk [of 9] copy_chunk [of 10] length_concat head_chunks_def
        assert_that_def dh_valid_def th_to_bytes_image th_valid_def del: concat.simps)
qed

lemma magic_length: "length MAGICNUMBER = 9"
  by (simp add: MAGICNUMBER_def)

lemma magic_not_zero: "replicate 9 0 \<noteq> MAGICNUMBER"
proof
  assume "replicate 9 0 = MAGICNUMBER"
  then have "replicate 9 0 ! 0 = MAGICNUMBER ! 0" by simp
  then show False by (simp add: MAGICNUMBER_def)
qed

lemma god_bits:
  assumes "dh_primary_slot h < 2"
  shows "god_byte h AND 1 \<noteq> 0 \<longleftrightarrow> dh_primary_slot h = 1" and "god_byte h AND 2 \<noteq> 0 \<longleftrightarrow> recovery_required h"
    and "god_byte h AND 4 \<noteq> 0 \<longleftrightarrow> two_phase_commit h"
proof -
  have "dh_primary_slot h = 0 \<or> dh_primary_slot h = 1" using assms by auto
  then show "god_byte h AND 1 \<noteq> 0 \<longleftrightarrow> dh_primary_slot h = 1" "god_byte h AND 2 \<noteq> 0 \<longleftrightarrow> recovery_required h"
    "god_byte h AND 4 \<noteq> 0 \<longleftrightarrow> two_phase_commit h" by (auto simp: god_byte_def)
qed

lemma dh_from_image:
  assumes h: "dh_valid h" and b: "length b0 = 128" "length b1 = 128"
    and r: "th_from_bytes xxh3 b0 = Some (Inr (t0, c0))" "th_from_bytes xxh3 b1 = Some (Inr (t1, c1))"
  shows "dh_from_bytes xxh3 (concat (head_chunks magic h @ [b0, b1])) = Some (Inr (h\<lparr>transaction_slots := [t0, t1]\<rparr>,
    \<lparr>invalid_magic_number = \<not> magic, primary_corrupted = (if dh_primary_slot h = 0 then c0 else c1),
     secondary_corrupted = (if dh_primary_slot h = 0 then c1 else c0)\<rparr>))"
proof -
  let ?cs = "head_chunks magic h @ [b0, b1]"
  have len: "length MAGICNUMBER = 9" "replicate 9 0 \<noteq> MAGICNUMBER" by (rule magic_length, rule magic_not_zero)
  have "slice (concat ?cs) 0 9 = Some (?cs ! 0)" by (rule slice_field) (simp_all add: head_chunks_def len)
  moreover have "index_at (concat ?cs) 9 = Some (god_byte h)"
    by (rule index_chunk [of 1]) (simp_all add: head_chunks_def len)
  moreover have "slice (concat ?cs) 12 16 = Some (?cs ! 3)" by (rule slice_field) (simp_all add: head_chunks_def len)
  moreover have "slice (concat ?cs) 16 20 = Some (?cs ! 4)" by (rule slice_field) (simp_all add: head_chunks_def len)
  moreover have "slice (concat ?cs) 20 24 = Some (?cs ! 5)" by (rule slice_field) (simp_all add: head_chunks_def len)
  moreover have "slice (concat ?cs) 24 28 = Some (?cs ! 6)" by (rule slice_field) (simp_all add: head_chunks_def len)
  moreover have "slice (concat ?cs) 28 32 = Some (?cs ! 7)" by (rule slice_field) (simp_all add: head_chunks_def len)
  moreover have "slice (concat ?cs) 64 192 = Some (?cs ! 9)" by (rule slice_field) (simp_all add: head_chunks_def len b)
  moreover have "slice (concat ?cs) 192 320 = Some (?cs ! 10)" by (rule slice_field) (simp_all add: head_chunks_def len b)
  moreover have "dh_primary_slot h < 2" using h by (simp add: dh_valid_def)
  note bits = god_bits [OF this]
  have "(if god_byte h AND 1 \<noteq> 0 then 1 else 0) = dh_primary_slot h" using bits(1) h by (auto simp: dh_valid_def)
  ultimately show ?thesis
    using h r len(2) bits
    by (cases h) (simp add: dh_from_bytes_def get_u32_def Let_def head_chunks_def dh_valid_def del: concat.simps concat_append)
qed

section \<open>Crashes\<close>

text \<open>What a crash can leave of header writes that were not flushed: the first 64 bytes are those of one of the headers
  written since the last flush (or of the flushed one); a commit slot that these headers do not agree on has the
  bytes of one of them, or it is torn, and then its checksum does not match.\<close>

definition torn :: "(bytes \<Rightarrow> nat) \<Rightarrow> bytes \<Rightarrow> bool" where
  "torn xxh3 b \<longleftrightarrow> length b = 128 \<and> (\<exists>t. th_from_bytes xxh3 b = Some (Inr (t, True)))"

definition slot_left :: "(bytes \<Rightarrow> nat) \<Rightarrow> transaction_header set \<Rightarrow> bytes \<Rightarrow> bool" where
  "slot_left xxh3 T b \<longleftrightarrow> (\<exists>t \<in> T. b = slot_image xxh3 t) \<or> (\<exists>t \<in> T. \<exists>t' \<in> T. t \<noteq> t') \<and> torn xxh3 b"

definition crash_image :: "(bytes \<Rightarrow> nat) \<Rightarrow> database_header set \<Rightarrow> bytes \<Rightarrow> bool" where
  "crash_image xxh3 hs disk \<longleftrightarrow> (\<exists>h \<in> hs. \<exists>b0 b1. disk = concat (head_chunks True h @ [b0, b1])
     \<and> slot_left xxh3 ((\<lambda>h. transaction_slots h ! 0) ` hs) b0 \<and> slot_left xxh3 ((\<lambda>h. transaction_slots h ! 1) ` hs) b1)"

lemma slot_left_read:
  assumes "slot_left xxh3 T b" and "\<And>t. t \<in> T \<Longrightarrow> th_valid t" and "\<And>bs. xxh3 bs < 2 ^ 128"
  shows "length b = 128 \<and> (\<exists>t c. th_from_bytes xxh3 b = Some (Inr (t, c)) \<and> (c \<or> t \<in> T) \<and> (c \<longrightarrow> (\<exists>t \<in> T. \<exists>t' \<in> T. t \<noteq> t')))"
  using assms th_roundtrip [of _ xxh3] by (auto simp: slot_left_def torn_def)

text \<open>The repair reads the header of such a disk.\<close>

lemma crash_read:
  assumes "crash_image xxh3 hs disk" and hs: "\<And>h. h \<in> hs \<Longrightarrow> dh_valid h" and w: "\<And>bs. xxh3 bs < 2 ^ 128"
  obtains h t0 t1 c0 c1 where "h \<in> hs"
    and "dh_from_bytes xxh3 disk = Some (Inr (h\<lparr>transaction_slots := [t0, t1]\<rparr>, \<lparr>invalid_magic_number = False,
      primary_corrupted = (if dh_primary_slot h = 0 then c0 else c1), secondary_corrupted = (if dh_primary_slot h = 0 then c1 else c0)\<rparr>))"
    and "c0 \<or> (\<exists>h \<in> hs. t0 = transaction_slots h ! 0)" and "c1 \<or> (\<exists>h \<in> hs. t1 = transaction_slots h ! 1)"
    and "c0 \<longrightarrow> (\<exists>h \<in> hs. \<exists>h' \<in> hs. transaction_slots h ! 0 \<noteq> transaction_slots h' ! 0)"
    and "c1 \<longrightarrow> (\<exists>h \<in> hs. \<exists>h' \<in> hs. transaction_slots h ! 1 \<noteq> transaction_slots h' ! 1)"
proof -
  obtain h b0 b1 where h: "h \<in> hs" and disk: "disk = concat (head_chunks True h @ [b0, b1])"
    and b: "slot_left xxh3 ((\<lambda>h. transaction_slots h ! 0) ` hs) b0" "slot_left xxh3 ((\<lambda>h. transaction_slots h ! 1) ` hs) b1"
    using assms(1) by (auto simp: crash_image_def)
  have valid: "th_valid (transaction_slots h ! i)" if "h \<in> hs" "i < 2" for h i
    using hs [OF that(1)] that(2) by (auto simp: dh_valid_def)
  obtain t0 c0 where 0: "length b0 = 128" "th_from_bytes xxh3 b0 = Some (Inr (t0, c0))" "c0 \<or> t0 \<in> (\<lambda>h. transaction_slots h ! 0) ` hs"
    "c0 \<longrightarrow> (\<exists>h \<in> hs. \<exists>h' \<in> hs. transaction_slots h ! 0 \<noteq> transaction_slots h' ! 0)"
    using slot_left_read [OF b(1) _ w] valid [of _ 0] by auto
  obtain t1 c1 where 1: "length b1 = 128" "th_from_bytes xxh3 b1 = Some (Inr (t1, c1))" "c1 \<or> t1 \<in> (\<lambda>h. transaction_slots h ! 1) ` hs"
    "c1 \<longrightarrow> (\<exists>h \<in> hs. \<exists>h' \<in> hs. transaction_slots h ! 1 \<noteq> transaction_slots h' ! 1)"
    using slot_left_read [OF b(2) _ w] valid [of _ 1] by auto
  show thesis
    using that [OF h, of t0 t1 c0 c1] dh_from_image [OF hs [OF h] 0(1) 1(1) 0(2) 1(2), of True] 0(3,4) 1(3,4) by (auto simp: disk)
qed

text \<open>The headers that can be on disk during a commit: \<open>d\<close> is the flushed one, which may differ from the one in memory in
  the layout and in the secondary slot.\<close>

inductive during_commit :: "bool \<Rightarrow> database_header \<Rightarrow> database_header \<Rightarrow> database_header \<Rightarrow> database_header set \<Rightarrow> bool" for tp d h1 h2 where
  one_phase: "\<not> tp \<Longrightarrow> during_commit tp d h1 h2 {d, h1, h2}"
| first_phase: "tp \<Longrightarrow> during_commit tp d h1 h2 {d, h1}"
| second_phase: "tp \<Longrightarrow> during_commit tp d h1 h2 {h1, h2}"
| finished: "during_commit tp d h1 h2 {h2}"

text \<open>A header of a file under recovery: its layout has the parameters of the file and lies within it.\<close>

definition in_file :: "nat \<Rightarrow> nat \<Rightarrow> nat \<Rightarrow> nat \<Rightarrow> database_header \<Rightarrow> bool" where
  "in_file c hp ps file_len h \<longleftrightarrow> dh_valid h \<and> recovery_required h \<and> dh_page_size h = ps
     \<and> (\<exists>l n. dh_layout h = Some l \<and> layout_ok c hp ps l \<and> dl_len l = Some n \<and> n \<le> file_len)"

lemma layout_params:
  assumes "dh_layout h = Some l" and "layout_ok c hp ps l"
  shows "region_max_data_pages h = c" "region_header_pages h = hp" "dh_page_size h = ps"
  using assms by (auto simp: dh_layout_def rl_new_def assert_that_def layout_ok_def bind_eq_Some_conv split: if_splits)

lemma set_layout_ok:
  assumes h: "dh_layout h = Some l" "layout_ok c hp ps l" and l': "layout_ok c hp ps l'"
  shows "\<exists>h'. set_layout l' h = Some h' \<and> dh_layout h' = Some l'
    \<and> h' = h\<lparr>full_regions := full_regions h', trailing_partial_region_pages := trailing_partial_region_pages h'\<rparr>"
proof -
  note p = layout_params [OF h]
  have full: "dl_full l = dl_full l'" using h l' by (simp add: layout_ok_def)
  have lay: "dh_layout (h\<lparr>trailing_partial_region_pages := (case dl_trailing l' of None \<Rightarrow> 0 | Some r \<Rightarrow> rl_num_pages r), full_regions := dl_num_full l'\<rparr>) = Some l'"
    using p l' by (cases l'; cases "dl_trailing l'") (auto simp: dh_layout_def rl_new_def assert_that_def layout_ok_def)
  show ?thesis
  proof (cases "dl_trailing l'")
    case None
    then show ?thesis using full h lay by (simp add: set_layout_def assert_that_def)
  next
    case (Some r)
    then have "rl_header_pages r = hp" "rl_page_size r = ps" using l' by (auto simp: layout_ok_def)
    then show ?thesis using Some full h lay p by (simp add: set_layout_def assert_that_def)
  qed
qed

lemma pick_layout:
  "pick_primary_for_repair info (h\<lparr>full_regions := x, trailing_partial_region_pages := y\<rparr>) =
     map_option (map_sum id (map_prod id (\<lambda>h. h\<lparr>full_regions := x, trailing_partial_region_pages := y\<rparr>))) (pick_primary_for_repair info h)"
  by (cases h) (auto simp: pick_primary_for_repair_def primary_slot_def secondary_slot_def swap_primary_slot_def bind_eq_None_conv
      index_at_def)

lemma open_header_picks:
  assumes read: "dh_from_bytes xxh3 disk = Some (Inr (g, info))" "\<not> invalid_magic_number info" "recovery_required g"
    and l: "dh_layout g = Some l" "layout_ok c hp ps l" "dl_len l = Some n" "n \<le> file_len"
    and lf: "layout_ok c hp ps lf" "dl_len lf = Some file_len"
    and pick: "pick_primary_for_repair info g = Some (Inr (kept, g'))"
  shows "\<exists>h. open_header xxh3 ps file_len False disk = Some (Inr h) \<and> primary_slot h = primary_slot g'"
proof -
  note p = layout_params [OF l(1,2)]
  have full: "rl_header_pages (dl_full l) = hp" "rl_num_pages (dl_full l) = c" using l(2) by (simp_all add: layout_ok_def)
  obtain l' where l': "recalculate file_len hp c ps = Some l'" "layout_ok c hp ps l'" "dl_len l' = Some file_len"
    using recalculate_ok [OF lf] by blast
  obtain g1 where g1: "set_layout l' g = Some g1" "dh_layout g1 = Some l'"
    "g1 = g\<lparr>full_regions := full_regions g1, trailing_partial_region_pages := trailing_partial_region_pages g1\<rparr>"
    using set_layout_ok [OF l(1,2) l'(2)] by blast
  let ?h = "g'\<lparr>full_regions := full_regions g1, trailing_partial_region_pages := trailing_partial_region_pages g1\<rparr>"
  have pick1: "pick_primary_for_repair info g1 = Some (Inr (kept, ?h))"
    by (subst g1(3)) (simp add: pick_layout pick)
  have "g' = g \<or> g' = swap_primary_slot g"
    using pick by (auto simp: pick_primary_for_repair_def bind_eq_Some_conv split: if_splits)
  then have same: "dh_layout ?h = dh_layout g1"
    by (subst g1(3), cases g) (auto simp: dh_layout_def swap_primary_slot_def)
  have "open_header xxh3 ps file_len False disk = Some (Inr ?h)"
    using read l p full l' g1(1,2) pick1 same by (simp add: open_header_def assert_that_def Let_def)
  moreover have "primary_slot ?h = primary_slot g'" by (simp add: primary_slot_def)
  ultimately show ?thesis by blast
qed

lemma crash_read_slots:
  assumes "crash_image xxh3 hs disk" and "\<And>h. h \<in> hs \<Longrightarrow> dh_valid h" and "\<And>bs. xxh3 bs < 2 ^ 128"
  obtains h ts c where "h \<in> hs" and "length ts = 2"
    and "dh_from_bytes xxh3 disk = Some (Inr (h\<lparr>transaction_slots := ts\<rparr>, \<lparr>invalid_magic_number = False,
      primary_corrupted = c (dh_primary_slot h), secondary_corrupted = c (1 - dh_primary_slot h)\<rparr>))"
    and "\<And>i. i < 2 \<Longrightarrow> c i \<or> (\<exists>h \<in> hs. ts ! i = transaction_slots h ! i)"
    and "\<And>i. i < 2 \<Longrightarrow> c i \<Longrightarrow> \<exists>h \<in> hs. \<exists>h' \<in> hs. transaction_slots h ! i \<noteq> transaction_slots h' ! i"
proof -
  obtain h t0 t1 c0 c1 where h: "h \<in> hs" and rd: "dh_from_bytes xxh3 disk = Some (Inr (h\<lparr>transaction_slots := [t0, t1]\<rparr>,
      \<lparr>invalid_magic_number = False, primary_corrupted = (if dh_primary_slot h = 0 then c0 else c1),
       secondary_corrupted = (if dh_primary_slot h = 0 then c1 else c0)\<rparr>))"
    and c: "c0 \<or> (\<exists>h \<in> hs. t0 = transaction_slots h ! 0)" "c1 \<or> (\<exists>h \<in> hs. t1 = transaction_slots h ! 1)"
      "c0 \<longrightarrow> (\<exists>h \<in> hs. \<exists>h' \<in> hs. transaction_slots h ! 0 \<noteq> transaction_slots h' ! 0)"
      "c1 \<longrightarrow> (\<exists>h \<in> hs. \<exists>h' \<in> hs. transaction_slots h ! 1 \<noteq> transaction_slots h' ! 1)"
    by (rule crash_read [OF assms])
  have p: "dh_primary_slot h = 0 \<or> dh_primary_slot h = 1" using assms(2) [OF h] by (auto simp: dh_valid_def)
  show thesis
  proof (rule that [OF h, of "[t0, t1]" "\<lambda>i. if i = 0 then c0 else c1"])
    show "dh_from_bytes xxh3 disk = Some (Inr (h\<lparr>transaction_slots := [t0, t1]\<rparr>, \<lparr>invalid_magic_number = False,
        primary_corrupted = (if dh_primary_slot h = 0 then c0 else c1), secondary_corrupted = (if 1 - dh_primary_slot h = 0 then c0 else c1)\<rparr>))"
      using rd p by auto
  qed (use c in \<open>auto simp: less_2_cases_iff\<close>)
qed

lemma pick_result:
  assumes "dh_primary_slot h < 2" and "length (transaction_slots h) = 2"
    and "\<not> (primary_corrupted info \<and> (two_phase_commit h \<or> secondary_corrupted info))"
  defines "P \<equiv> transaction_slots h ! dh_primary_slot h" and "S \<equiv> transaction_slots h ! (1 - dh_primary_slot h)"
  shows "\<exists>kept h'. pick_primary_for_repair info h = Some (Inr (kept, h')) \<and>
    primary_slot h' = Some (if two_phase_commit h
      \<or> \<not> primary_corrupted info \<and> \<not> (th_transaction_id S > th_transaction_id P \<and> \<not> secondary_corrupted info) then P else S)"
proof -
  have x: "dh_primary_slot h XOR 1 = 1 - dh_primary_slot h" using assms(1) by (auto simp: less_2_cases_iff)
  have "index_at (transaction_slots h) (dh_primary_slot h) = Some P" "index_at (transaction_slots h) (1 - dh_primary_slot h) = Some S"
    using assms by (auto simp: index_at_def)
  then show ?thesis
    using assms(3) x by (auto simp: pick_primary_for_repair_def primary_slot_def secondary_slot_def swap_primary_slot_def)
qed

lemma commit_headers_ok:
  assumes h: "dh_valid h" "commit_headers dr sr tid tp h = Some (h1, h2)" and roots: "root_valid dr" "root_valid sr" and tid: "tid < 2 ^ 64"
  defines "p \<equiv> dh_primary_slot h"
    and "new \<equiv> \<lparr>th_version = 3, th_user_root = dr, th_system_root = sr, th_transaction_id = tid\<rparr>"
  shows "h1 = h\<lparr>transaction_slots := (transaction_slots h)[1 - p := new]\<rparr>"
    and "h2 = h1\<lparr>dh_primary_slot := 1 - p, two_phase_commit := tp\<rparr>" and "dh_valid h1" and "dh_valid h2"
proof -
  have p: "p < 2" "p XOR 1 = 1 - p" and len: "length (transaction_slots h) = 2"
    using h(1) by (auto simp: dh_valid_def p_def less_2_cases_iff)
  have "th_version (transaction_slots h ! (1 - p)) = 3" using h(1) len by (auto simp: dh_valid_def th_valid_def)
  then have "(transaction_slots h ! (1 - p))\<lparr>th_transaction_id := tid, th_user_root := dr, th_system_root := sr\<rparr> = new"
    by (cases "transaction_slots h ! (1 - p)") (simp add: new_def)
  then show h1: "h1 = h\<lparr>transaction_slots := (transaction_slots h)[1 - p := new]\<rparr>"
    and h2: "h2 = h1\<lparr>dh_primary_slot := 1 - p, two_phase_commit := tp\<rparr>"
    using h(2) p len by (auto simp: commit_headers_def secondary_slot_def put_secondary_slot_def swap_primary_slot_def
        assert_that_def index_at_def p_def [symmetric] bind_eq_Some_conv split: if_splits)
  have "th_valid new" using roots tid by (simp add: th_valid_def new_def)
  then show "dh_valid h1" using h(1) set_update_subset_insert [of "transaction_slots h" "1 - p" new]
    unfolding h1 by (auto simp: dh_valid_def)
  then show "dh_valid h2" unfolding h2 by (auto simp: dh_valid_def)
qed

text \<open>The choice of the repair among the slots that a crash can leave.\<close>

lemma crash_choice:
  fixes p :: nat
  assumes g: "g \<in> hs" "hs \<subseteq> {d, h1, h2}" "during_commit tp d h1 h2 hs"
    and prim: "dh_primary_slot d = p" "dh_primary_slot h1 = p" "dh_primary_slot h2 = 1 - p" "two_phase_commit h2 = tp" "p < 2"
    and old: "\<forall>h \<in> {d, h1, h2}. transaction_slots h ! p = old"
    and other: "transaction_slots d ! (1 - p) = sd" "\<forall>h \<in> {h1, h2}. transaction_slots h ! (1 - p) = new"
    and ids: "th_transaction_id sd < th_transaction_id old \<or> sd = old" "th_transaction_id old < th_transaction_id new"
    and ts: "length ts = 2" "\<And>i. i < 2 \<Longrightarrow> cor i \<or> (\<exists>h \<in> hs. ts ! i = transaction_slots h ! i)"
    and cor: "\<And>i. i < 2 \<Longrightarrow> cor i \<Longrightarrow> \<exists>h \<in> hs. \<exists>h' \<in> hs. transaction_slots h ! i \<noteq> transaction_slots h' ! i"
    and info: "primary_corrupted info = cor (dh_primary_slot g)" "secondary_corrupted info = cor (1 - dh_primary_slot g)"
  shows "\<exists>kept h' t. pick_primary_for_repair info (g\<lparr>transaction_slots := ts\<rparr>) = Some (Inr (kept, h')) \<and> primary_slot h' = Some t
    \<and> (t = old \<and> hs \<noteq> {h2} \<or> t = new)"
proof -
  have q: "1 - p < 2" "1 - (1 - p) = p" "p \<noteq> 1 - p" using prim(5) by arith+
  have same: "transaction_slots h ! p = old" if "h \<in> hs" for h using old g(2) that by blast
  have cp: "\<not> cor p" using cor [of p] prim(5) same by auto
  then have tp': "ts ! p = old" using ts(2) [of p] prim(5) same by auto
  have diff: "transaction_slots h ! (1 - p) = new \<or> h = d \<and> transaction_slots h ! (1 - p) = sd" if "h \<in> hs" for h
    using other g(2) that by blast
  have tq: "cor (1 - p) \<or> ts ! (1 - p) = new \<or> ts ! (1 - p) = sd \<and> d \<in> hs"
    using ts(2) [OF q(1)] diff by fastforce
  have cq: "d \<in> hs" if "cor (1 - p)"
  proof (rule ccontr)
    assume "d \<notin> hs"
    then have "transaction_slots h ! (1 - p) = new" if "h \<in> hs" for h using diff that by blast
    then show False using cor [OF q(1) \<open>cor (1 - p)\<close>] by auto
  qed
  have g_cases: "dh_primary_slot g = p \<or> dh_primary_slot g = 1 - p \<and> g = h2" using g(1,2) prim by auto
  have ne: "sd \<noteq> new" "d \<noteq> h1" "d \<noteq> h2" "h1 \<noteq> h2" using ids other prim q(3) by auto
  have one: "\<not> tp" if "d \<in> hs" "h2 \<in> hs" using g(3) that ne by cases auto
  let ?g = "g\<lparr>transaction_slots := ts\<rparr>"
  show ?thesis
  proof (cases "dh_primary_slot g = p")
    case True
    then have "g \<noteq> h2" using prim(3) q(3) by auto
    then have "hs \<noteq> {h2}" using g(1) by auto
    then show ?thesis
      using pick_result [of ?g info] True prim(5) ts(1) info cp tp' tq ids by (auto split: if_splits)
  next
    case False
    then have g2: "g = h2" "dh_primary_slot g = 1 - p" using g_cases by auto
    then show ?thesis
      using pick_result [of ?g info] prim(4) q ts(1) info cp tp' tq cq ids one g(1) ne by (auto split: if_splits)
  qed
qed

text \<open>(C8) A commit is atomic. Suppose the flushed header \<open>d\<close> and the header \<open>h\<close> in memory agree on the primary commit \<open>old\<close>,
  the flushed secondary commit is older, and a new transaction is committed in one or two phases. Whatever a
  crash leaves of the header writes, opening the file again succeeds and continues with \<open>old\<close> or with the new
  commit, and with the new one when the commit had finished.\<close>

theorem commit_atomic:
  assumes w: "\<forall>bs. xxh3 bs < 2 ^ 128"
    and h: "in_file c hp ps file_len h" "in_file c hp ps file_len d" "dh_primary_slot d = dh_primary_slot h"
      "primary_slot h = Some old" "primary_slot d = Some old"
    and sec: "secondary_slot d = Some sd" "th_transaction_id sd < th_transaction_id old \<or> sd = old"
    and new: "root_valid dr" "root_valid sr" "th_transaction_id old < tid" "tid < 2 ^ 64"
    and lf: "layout_ok c hp ps lf" "dl_len lf = Some file_len"
    and commit: "commit_headers dr sr tid tp h = Some (h1, h2)" and hs: "during_commit tp d h1 h2 hs"
    and crash: "crash_image xxh3 hs disk"
  shows "\<exists>g t. open_header xxh3 ps file_len False disk = Some (Inr g) \<and> primary_slot g = Some t
    \<and> (t = old \<and> hs \<noteq> {h2} \<or> t = \<lparr>th_version = 3, th_user_root = dr, th_system_root = sr, th_transaction_id = tid\<rparr>)"
proof -
  let ?p = "dh_primary_slot h"
  let ?new = "\<lparr>th_version = 3, th_user_root = dr, th_system_root = sr, th_transaction_id = tid\<rparr>"
  have valid: "dh_valid h" "dh_valid d" using h by (auto simp: in_file_def)
  note ch = commit_headers_ok [OF valid(1) commit new(1,2,4)]
  have p: "?p < 2" "?p XOR 1 = 1 - ?p" "?p \<noteq> 1 - ?p" using valid(1) by (auto simp: dh_valid_def less_2_cases_iff)
  have len: "length (transaction_slots h) = 2" "length (transaction_slots d) = 2" using valid by (auto simp: dh_valid_def)
  have slots: "transaction_slots h ! ?p = old" "transaction_slots d ! ?p = old" "transaction_slots d ! (1 - ?p) = sd"
    using h(3-5) sec(1) p(1,2) len by (auto simp: primary_slot_def secondary_slot_def index_at_def split: if_splits)
  have slot1: "\<forall>g \<in> {d, h1, h2}. transaction_slots g ! ?p = old" "\<forall>g \<in> {h1, h2}. transaction_slots g ! (1 - ?p) = ?new"
    using slots p len unfolding ch(2) by (auto simp: ch(1))
  have fits: "in_file c hp ps file_len g" if "g \<in> {d, h1, h2}" for g
    using that h(1,2) ch(3,4) by (auto simp: in_file_def dh_layout_def ch(2)) (auto simp: ch(1))
  have sub: "hs \<subseteq> {d, h1, h2}" using hs by (auto elim: during_commit.cases)
  obtain g ts cor where g: "g \<in> hs" and ts: "length ts = 2"
    and rd: "dh_from_bytes xxh3 disk = Some (Inr (g\<lparr>transaction_slots := ts\<rparr>, \<lparr>invalid_magic_number = False,
      primary_corrupted = cor (dh_primary_slot g), secondary_corrupted = cor (1 - dh_primary_slot g)\<rparr>))"
    and rest: "\<And>i. i < 2 \<Longrightarrow> cor i \<or> (\<exists>h \<in> hs. ts ! i = transaction_slots h ! i)"
      "\<And>i. i < 2 \<Longrightarrow> cor i \<Longrightarrow> \<exists>h \<in> hs. \<exists>h' \<in> hs. transaction_slots h ! i \<noteq> transaction_slots h' ! i"
  proof (rule crash_read_slots [OF crash])
    show "dh_valid g" if "g \<in> hs" for g using fits [of g] sub that unfolding in_file_def by blast
  qed (use w in auto)
  obtain l n where l: "dh_layout g = Some l" "layout_ok c hp ps l" "dl_len l = Some n" "n \<le> file_len" and rr: "recovery_required g"
    using fits [of g] g sub unfolding in_file_def by blast
  let ?info = "\<lparr>invalid_magic_number = False, primary_corrupted = cor (dh_primary_slot g), secondary_corrupted = cor (1 - dh_primary_slot g)\<rparr>"
  have prim: "dh_primary_slot h1 = ?p" "dh_primary_slot h2 = 1 - ?p" "two_phase_commit h2 = tp" by (simp_all add: ch(2)) (simp add: ch(1))
  have id: "th_transaction_id old < th_transaction_id ?new" using new(3) by simp
  obtain kept h' t where pick: "pick_primary_for_repair ?info (g\<lparr>transaction_slots := ts\<rparr>) = Some (Inr (kept, h'))"
    and t: "primary_slot h' = Some t" "t = old \<and> hs \<noteq> {h2} \<or> t = ?new"
    using crash_choice [OF g sub hs h(3) prim p(1) slot1(1) slots(3) slot1(2) sec(2) id ts rest, of ?info] by auto
  have "dh_layout (g\<lparr>transaction_slots := ts\<rparr>) = dh_layout g" by (simp add: dh_layout_def)
  then have "dh_layout (g\<lparr>transaction_slots := ts\<rparr>) = Some l" using l(1) by simp
  from open_header_picks [OF rd _ _ this l(2-4) lf pick] rr t show ?thesis by auto
qed

text \<open>A new file, the first commit to it in one phase, and a crash that tears the slot of that commit after the primary
  bit was changed.\<close>

definition example_layout :: database_layout where
  "example_layout = \<lparr>dl_full = \<lparr>rl_num_pages = 16, rl_header_pages = 0, rl_page_size = 512\<rparr>, dl_num_full = 0,
     dl_trailing = Some \<lparr>rl_num_pages = 10, rl_header_pages = 0, rl_page_size = 512\<rparr>\<rparr>"

definition example_header :: database_header where
  "example_header = dh_new example_layout 0"

lemma example_layout_ok: "layout_ok 16 0 512 example_layout" and example_len: "dl_len example_layout = Some 5632"
proof -
  show ok: "layout_ok 16 0 512 example_layout" by (simp add: layout_ok_def example_layout_def num_regions_def)
  show "dl_len example_layout = Some 5632"
    using dl_len_ok [OF ok] by (simp add: example_layout_def num_regions_def last_pages_def)
qed

lemma example_in_file: "in_file 16 0 512 5632 example_header"
proof -
  have "dh_layout example_header = Some example_layout"
    by (simp add: example_header_def example_layout_def dh_new_def dh_layout_def rl_new_def assert_that_def)
  moreover have "dh_valid example_header" "recovery_required example_header" "dh_page_size example_header = 512"
    by (simp_all add: example_header_def dh_new_def dh_valid_def example_layout_def th_new_def th_valid_def root_valid_def
        FILE_FORMAT_VERSION3_def)
  ultimately show ?thesis using example_layout_ok example_len by (simp add: in_file_def)
qed

theorem commit_atomic_witness:
  "\<exists>h1 h2 b g t. commit_headers None None 1 False example_header = Some (h1, h2) \<and> torn (\<lambda>_. 0) b
    \<and> open_header (\<lambda>_. 0) 512 5632 False (concat (head_chunks True h2 @ [slot_image (\<lambda>_. 0) (th_new 0), b])) = Some (Inr g)
    \<and> primary_slot g = Some t \<and> (t = th_new 0 \<or> t = th_new 1)"
proof -
  let ?h = "example_header" and ?b = "concat (slot_chunks (th_new 1)) @ to_le_bytes 16 1"
  let ?h1 = "?h\<lparr>transaction_slots := [th_new 0, th_new 1]\<rparr>"
  let ?h2 = "?h1\<lparr>dh_primary_slot := 1, two_phase_commit := False\<rparr>"
  let ?disk = "concat (head_chunks True ?h2 @ [slot_image (\<lambda>_. 0) (th_new 0), ?b])"
  have slots: "transaction_slots ?h = [th_new 0, th_new 0]" "dh_primary_slot ?h = 0" by (simp_all add: example_header_def dh_new_def)
  have commit: "commit_headers None None 1 False ?h = Some (?h1, ?h2)"
    by (simp add: commit_headers_def secondary_slot_def put_secondary_slot_def swap_primary_slot_def slots index_at_def assert_that_def
        th_new_def)
  have "th_valid (th_new 1)" by (simp add: th_valid_def th_new_def root_valid_def FILE_FORMAT_VERSION3_def)
  then have torn: "torn (\<lambda>_. 0) ?b"
    using th_from_image [of "th_new 1" "to_le_bytes 16 1" "\<lambda>_. 0"] by (simp add: torn_def) (simp add: slot_chunks_def)
  have ne: "th_new 0 \<noteq> th_new 1" by (simp add: th_new_def)
  have crash: "crash_image (\<lambda>_. 0) {?h, ?h1, ?h2} ?disk"
    unfolding crash_image_def slot_left_def using torn ne by (intro bexI [of _ ?h2] exI conjI) (auto simp: slots)
  have old: "primary_slot ?h = Some (th_new 0)" "secondary_slot ?h = Some (th_new 0)"
    by (simp_all add: primary_slot_def secondary_slot_def slots index_at_def)
  have id: "th_transaction_id (th_new 0) < 1" "th_transaction_id (th_new 0) < th_transaction_id (th_new 0) \<or> th_new 0 = th_new 0"
    by (simp_all add: th_new_def)
  have "\<exists>g t. open_header (\<lambda>_. 0) 512 5632 False ?disk = Some (Inr g) \<and> primary_slot g = Some t
    \<and> (t = th_new 0 \<and> {?h, ?h1, ?h2} \<noteq> {?h2} \<or> t = \<lparr>th_version = 3, th_user_root = None, th_system_root = None, th_transaction_id = 1\<rparr>)"
    by (rule commit_atomic [OF _ example_in_file example_in_file refl old(1) old(1) old(2) id(2) _ _ id(1) _ example_layout_ok example_len
          commit during_commit.one_phase crash]) (simp_all add: root_valid_def)
  then show ?thesis using commit torn by (auto simp: th_new_def FILE_FORMAT_VERSION3_def)
qed

text \<open>(C40) The header reads back as it was written: opening the bytes of a valid header gives the same header, reports the
  magic number exactly when it was included, and no corruption.\<close>

theorem header_roundtrip:
  assumes "dh_valid h" and "\<forall>bs. xxh3 bs < 2 ^ 128"
  shows "\<exists>bytes. dh_to_bytes xxh3 magic h = Some bytes \<and> length bytes = 320
    \<and> dh_from_bytes xxh3 bytes = Some (Inr (h, \<lparr>invalid_magic_number = \<not> magic, primary_corrupted = False, secondary_corrupted = False\<rparr>))"
proof -
  obtain t0 t1 where ts: "transaction_slots h = [t0, t1]" "th_valid t0" "th_valid t1"
    using assms(1) by (auto simp: dh_valid_def numeral_2_eq_2 length_Suc_conv)
  have "length (concat (head_chunks magic h @ [slot_image xxh3 t0, slot_image xxh3 t1])) = 320"
    by (simp add: head_chunks_def magic_length)
  moreover have "h\<lparr>transaction_slots := [t0, t1]\<rparr> = h" using ts(1) by (cases h) simp
  ultimately show ?thesis
    using dh_to_bytes_image [OF assms(1), of xxh3 magic] ts assms
      dh_from_image [of h "slot_image xxh3 t0" "slot_image xxh3 t1" xxh3 t0 False t1 False magic] th_roundtrip [of _ xxh3]
    by simp
qed

theorem header_roundtrip_witness:
  "\<exists>bytes. dh_to_bytes (\<lambda>_. 0) True example_header = Some bytes \<and> length bytes = 320 \<and> dh_from_bytes (\<lambda>_. 0) bytes =
     Some (Inr (example_header, \<lparr>invalid_magic_number = False, primary_corrupted = False, secondary_corrupted = False\<rparr>))"
  using header_roundtrip [of example_header "\<lambda>_. 0" True] example_in_file by (simp add: in_file_def)

end
