(* ===== verification/Spec2Isabelle.thy ===== *)
theory Spec2Isabelle
  imports Vlq Frame Handshake Messages Mempool_Spec Header_Chain_Reach Delivery Sync_Policy Section Sync_Info
    Db_Header
begin

text \<open>
  \<^bold>\<open>Verification of a Rust Ergo node.\<close> The program is a full node and light client for the Ergo block chain. This library
  models its consensus-relevant and attacker-facing parts as executable HOL functions and proves them correct.

  \<^bold>\<open>Parts of the program and how they interact.\<close> Bytes from peers pass the wire layer (\<open>p2p/src/transport\<close>,
  \<open>p2p/src/protocol\<close>): VLQ integers, frames, the handshake and the protocol messages. Transactions from peers go to the
  mempool (\<open>mempool/src\<close>), which admits, replaces, evicts and revalidates them. Headers go to the chain crate
  (\<open>chain/src\<close>): proof of work, difficulty, votes, the header chain with its caches, reorganisations and the
  light-client installation of a proof suffix.

  \<^bold>\<open>Theories.\<close>
  \<^item> \<open>Node_Prelude\<close>: words with Rust's wrapping, checked and saturating operations, results as sums (\<open>Inl\<close> is the
    error, \<open>and_then\<close> is the question-mark operator), hash maps as association lists, a reader monad over byte
    lists, and the interface of prefix readers that all parsers are instances of.
  \<^item> \<open>Vlq\<close>, \<open>Frame\<close>, \<open>Handshake\<close>, \<open>Messages\<close>: \<open>transport/vlq.rs\<close>, \<open>frame.rs\<close>, \<open>blacklist.rs\<close>, \<open>handshake.rs\<close>,
    \<open>connection.rs\<close>, \<open>protocol/messages.rs\<close>. Every codec is proved to round trip, the frame decoder accepts exactly the
    encodings, the stream reader refines the buffer decoder and stays aligned over any number of frames, two
    honest peers connect, and declared sizes bound what a parsed message can hold.
  \<^item> \<open>Ordered_Map\<close>, \<open>Chain_Types\<close>, \<open>Pool\<close>: the BTreeMap, transactions and weights, \<open>pool.rs\<close>, \<open>weight.rs\<close>,
    \<open>family.rs\<close>, \<open>reader.rs\<close>. The pool with its four indexes refines a finite map; family weights are exact.
  \<^item> \<open>Expiring_Cache\<close>, \<open>Fee_Stats\<close>, \<open>Mempool\<close>, \<open>Mempool_Spec\<close>: \<open>expiring_cache.rs\<close>, \<open>stats.rs\<close>, \<open>process.rs\<close>, \<open>lib.rs\<close>,
    \<open>cleanup.rs\<close>. The mempool's invariants hold in every state reachable by admission, blocks and cleanup; the
    outcome of \<open>process\<close> is characterised on every branch; rate limits hold; statistics are exact.
  \<^item> \<open>Chain_Header\<close>, \<open>Difficulty\<close>, \<open>Voting\<close>, \<open>Voting_Spec\<close>: \<open>config.rs\<close>, \<open>error.rs\<close>, \<open>difficulty.rs\<close>, \<open>pow.rs\<close>, \<open>voting.rs\<close>.
    Difficulty adjustment is defined and bounded, the target comparison is exact, votes are tallied exactly, the
    soft-fork life cycle follows its specification, parameter and settings codecs round trip.
  \<^item> \<open>Lazy_Store\<close>, \<open>Header_Chain\<close>: \<open>cache.rs\<close>, \<open>chain.rs\<close>, \<open>tracker.rs\<close>. A method is a function from the chain to an optional
    result and chain; \<open>None\<close> is a panic. \<open>Header_Chain_Spec\<close> relates the caches, loaders and indexes to one list of
    headers and proves appending; \<open>Header_Chain_Restore\<close> treats restoring and the linkage audit,
    \<open>Header_Chain_Reorg\<close> deep reorganisations, \<open>Header_Chain_Install\<close> one-block reorganisations and proof suffixes,
    \<open>Header_Chain_Reach\<close> the invariant over all reachable states.
  \<^item> \<open>Section\<close>, \<open>Sync_Info\<close>: \<open>section.rs\<close>, \<open>state_type.rs\<close>, \<open>sync_info.rs\<close>. A body that encodes a section of a header is identified
    as that section and no other body can take its place; the announcement of a chain is read back as announced.
  \<^item> \<open>Delivery\<close>, \<open>Sync_Policy\<close>: \<open>sync/src/delivery.rs\<close>, \<open>sweep_backoff.rs\<close>, \<open>retention.rs\<close>, \<open>catchup_progress.rs\<close>. A request
    is never lost and always resolved; backoff and pruning follow their documented schedules.
  \<^item> \<open>Bitmap\<close>, \<open>Bitmap_Spec\<close>, \<open>Bitmap_Bytes\<close>: \<open>bitmap.rs\<close> of the vendored redb store. The 64-way bit tree refines a set of
    free ids and its serialised form reads back.
  \<^item> \<open>Buddy\<close>, \<open>Buddy_Blocks\<close>, \<open>Buddy_Spec\<close>, \<open>Buddy_Ops\<close>, \<open>Buddy_Lowest\<close>, \<open>Buddy_Resize\<close>, \<open>Buddy_Correct\<close>: \<open>buddy_allocator.rs\<close>.
    \<open>Buddy_Blocks\<close> is the geometry of aligned blocks and shows that the set of free pages determines the
    recorded blocks; the later theories prove each operation against the set of free pages, and
    \<open>Buddy_Correct\<close> puts them together: over any history no page is handed out twice or lost.
  \<^item> \<open>Db_Layout\<close>, \<open>Db_Header\<close>: \<open>layout.rs\<close>, the page numbers of \<open>base.rs\<close>, \<open>header.rs\<close>, and from \<open>page_manager.rs\<close> the opening of a
    file and the header writes of a commit. Pages occupy disjoint bytes of the file, the layout is recovered
    from the length of the file, the header reads back, and a commit is atomic under crashes.

  \<^bold>\<open>Conventions.\<close> Machine integers whose overflow matters are words; heights and table values of the chain crate are
  unbounded with wrap-around written out where the source wraps. Clock readings are arguments. Mutexes are not
  modelled: every operation runs under its lock in the source. Code outside the repository is a parameter:
  Blake2b, Autolykos hits and compact bits, the LRU cache, script validation, VLQ and rule-status codecs of the
  sigma library; hypotheses on them state documented behaviour only, and witnesses instantiate them.
  The checksum function of the database header (\<open>xxh3.rs\<close>) is an argument too: the results hold for every
  function with 128-bit values.

  \<^bold>\<open>Bounds and fuel.\<close> No model uses fuel: every loop is structural recursion or has a termination proof. The cache
  results hold for a window of heights that fits the configured capacity (16384 by default); a call reads its own
  heights and at most the epoch headers of one difficulty recalculation.

  \<^bold>\<open>Not modelled.\<close> Sockets, tasks and timers of the p2p node, the databases, the vendored redb store apart from its
  allocators, layout and header, the HTTP API, the indexer and fastsync add-ons, the glue in \<open>main.rs\<close>: they are I/O or third-party code around the parts above.
  Block validation runs the external script interpreter and authenticated trees. Log output and the texts of
  error messages are left out throughout.
\<close>

end
